(* ===== verification/Prelude.thy ===== *)
theory Prelude
  imports Main "HOL-Library.Word"
begin

text \<open>
  What every component shares: the machine-integer types of the sources, the
  outcome of a piece of C code (a value, or the fault that stops it), reads
  and writes of byte memory with their bounds checks, little-endian words, and
  the generic lemmas on lists and words the component proofs rest on.
\<close>

unbundle bit_operations_syntax

named_theorems c_simps \<open>evaluation of the fault outcome of straight-line C code\<close>
named_theorems mem_simps \<open>reads and writes of byte memory inside its bounds\<close>
named_theorems u32_arith \<open>32-bit unsigned arithmetic read as arithmetic on naturals\<close>

section \<open>Machine integers\<close>

type_synonym u8 = "8 word"
type_synonym u16 = "16 word"
type_synonym u32 = "32 word"
type_synonym u64 = "64 word"

type_synonym bytes = "u8 list"

text \<open>The constants of \<^verbatim>\<open>limits.h\<close> and \<^verbatim>\<open>stdint.h\<close> the sources compare with.\<close>

definition INT_MAX :: nat where
  "INT_MAX = 2147483647"

section \<open>The outcome of C code\<close>

text \<open>
  Code that reads or writes outside an object, whose \<^verbatim>\<open>BSON_ASSERT\<close> fails, or
  that converts a floating-point value to an integer type that cannot hold it
  does not return a defined value. Such a stop is a value of the model, so that
  its absence is something to prove: \<open>Inl\<close> is the fault, \<open>Inr\<close> the result.
\<close>

datatype c_fault = OutOfBounds | AssertFailed | BadConversion

type_synonym 'a c = "c_fault + 'a"

definition bindc :: "'a c \<Rightarrow> ('a \<Rightarrow> 'b c) \<Rightarrow> 'b c" where
  "bindc m f = (case m of Inl e \<Rightarrow> Inl e | Inr x \<Rightarrow> f x)"

definition c_assert :: "bool \<Rightarrow> unit c" where
  "c_assert p = (if p then Inr () else Inl AssertFailed)"

lemma bindc_Inr [simp, c_simps]: "bindc (Inr x) f = f x"
  by (simp add: bindc_def)

lemma bindc_Inl [simp, c_simps]: "bindc (Inl e) f = Inl e"
  by (simp add: bindc_def)

lemma bindc_eq_Inr: "bindc m f = Inr y \<longleftrightarrow> (\<exists>x. m = Inr x \<and> f x = Inr y)"
  by (cases m) auto

lemma bindc_assoc: "bindc (bindc m f) g = bindc m (\<lambda>x. bindc (f x) g)"
  by (cases m) auto

lemma c_assert_True [simp, c_simps]: "c_assert True = Inr ()"
  by (simp add: c_assert_def)

lemma c_assert_False [simp, c_simps]: "c_assert False = Inl AssertFailed"
  by (simp add: c_assert_def)

lemma c_assert_Inr [simp]: "c_assert p = Inr u \<longleftrightarrow> p"
  by (simp add: c_assert_def)

text \<open>
  Total correctness of an outcome: the code does not stop with a fault, and its
  result satisfies the postcondition. The rules below compute it through the
  sequencing of the code, as weakest preconditions.
\<close>

definition wpc :: "'a c \<Rightarrow> ('a \<Rightarrow> bool) \<Rightarrow> bool" where
  "wpc m P \<longleftrightarrow> (case m of Inl _ \<Rightarrow> False | Inr x \<Rightarrow> P x)"

named_theorems wp \<open>weakest preconditions of the primitive steps\<close>

lemma wpc_Inr [simp]: "wpc (Inr x) P = P x"
  by (simp add: wpc_def)

lemma wpc_Inl [simp]: "wpc (Inl e) P = False"
  by (simp add: wpc_def)

lemma wpc_bindc [wp]: "wpc (bindc m f) P = wpc m (\<lambda>x. wpc (f x) P)"
  by (cases m) simp_all

lemma wpc_if [wp]: "wpc (if b then m else m') P = (if b then wpc m P else wpc m' P)"
  by simp

lemma wpc_assert [wp]: "wpc (c_assert b) P = (b \<and> P ())"
  by (simp add: c_assert_def)

lemma wpc_iff: "wpc m P \<longleftrightarrow> (\<exists>x. m = Inr x \<and> P x)"
  by (cases m) simp_all

lemma wpc_mono: "wpc m P \<Longrightarrow> (\<And>x. m = Inr x \<Longrightarrow> P x \<Longrightarrow> Q x) \<Longrightarrow> wpc m Q"
  by (cases m) simp_all

lemma wpc_result: "wpc m P \<Longrightarrow> m = Inr x \<Longrightarrow> P x"
  by simp

section \<open>Byte memory\<close>

text \<open>
  A pointer into an object is the list of the bytes from there to the end of
  the object; \<open>p + n\<close> is \<open>drop n p\<close>. A read at index \<open>i\<close> is inside the object
  iff \<open>i < length p\<close>.
\<close>

definition load8 :: "bytes \<Rightarrow> nat \<Rightarrow> u8 c" where
  "load8 p i = (if i < length p then Inr (p ! i) else Inl OutOfBounds)"

definition memcpy_from :: "bytes \<Rightarrow> nat \<Rightarrow> nat \<Rightarrow> bytes c" where
  "memcpy_from p i n = (if i + n \<le> length p then Inr (take n (drop i p)) else Inl OutOfBounds)"

text \<open>Writing \<open>src\<close> over the bytes of \<open>p\<close> from index \<open>i\<close>.\<close>

definition memcpy_to :: "bytes \<Rightarrow> nat \<Rightarrow> bytes \<Rightarrow> bytes c" where
  "memcpy_to p i src =
     (if i + length src \<le> length p
      then Inr (take i p @ src @ drop (i + length src) p) else Inl OutOfBounds)"

lemma load8_in [mem_simps]: "i < length p \<Longrightarrow> load8 p i = Inr (p ! i)"
  by (simp add: load8_def)

lemma load8_Inr: "load8 p i = Inr b \<longleftrightarrow> i < length p \<and> b = p ! i"
  by (auto simp: load8_def)

lemma memcpy_from_in [mem_simps]:
  "i + n \<le> length p \<Longrightarrow> memcpy_from p i n = Inr (take n (drop i p))"
  by (simp add: memcpy_from_def)

lemma memcpy_to_in [mem_simps]:
  "i + length src \<le> length p \<Longrightarrow>
   memcpy_to p i src = Inr (take i p @ src @ drop (i + length src) p)"
  by (simp add: memcpy_to_def)

lemma wpc_load8 [wp]: "wpc (load8 p i) P \<longleftrightarrow> i < length p \<and> P (p ! i)"
  by (simp add: load8_def)

lemma wpc_memcpy_from [wp]: "wpc (memcpy_from p i n) P \<longleftrightarrow> i + n \<le> length p \<and> P (take n (drop i p))"
  by (simp add: memcpy_from_def)

lemma wpc_memcpy_to [wp]:
  "wpc (memcpy_to p i src) P \<longleftrightarrow>
     i + length src \<le> length p \<and> P (take i p @ src @ drop (i + length src) p)"
  by (simp add: memcpy_to_def)

lemma memcpy_to_length: "memcpy_to p i src = Inr q \<Longrightarrow> length q = length p"
  by (auto simp: memcpy_to_def split: if_splits)

lemma find_SomeD: "List.find P xs = Some x \<Longrightarrow> x \<in> set xs \<and> P x"
  by (induction xs) (auto split: if_splits)

lemma take_append_split:
  "take n xs = a @ b \<Longrightarrow> take (length a) xs = a \<and> take (length b) (drop (length a) xs) = b"
proof -
  assume eq: "take n xs = a @ b"
  have "xs = a @ b @ drop n xs" using eq append_take_drop_id [of n xs] by simp
  then show ?thesis by (metis append_eq_conv_conj append_take_drop_id append.assoc)
qed

section \<open>C strings\<close>

text \<open>
  A \<^verbatim>\<open>char *\<close> is a pointer to bytes; the string is what precedes the first NUL. The
  functions of \<^verbatim>\<open>string.h\<close> run off the object when there is none.
\<close>

definition cstr :: "bytes \<Rightarrow> bytes" where
  "cstr p = takeWhile (\<lambda>b. b \<noteq> 0) p"

definition c_strlen :: "bytes \<Rightarrow> nat c" where
  "c_strlen p = (if 0 \<in> set p then Inr (length (cstr p)) else Inl OutOfBounds)"

text \<open>\<^verbatim>\<open>strncmp (a, b, n) == 0\<close>, which stops at the first difference or NUL.\<close>

fun c_strncmp_eq :: "bytes \<Rightarrow> bytes \<Rightarrow> nat \<Rightarrow> bool c" where
  "c_strncmp_eq a b 0 = Inr True"
| "c_strncmp_eq (x # a) (y # b) (Suc n) =
     (if x \<noteq> y then Inr False else if x = 0 then Inr True else c_strncmp_eq a b n)"
| "c_strncmp_eq a b (Suc n) = Inl OutOfBounds"

text \<open>\<^verbatim>\<open>strcmp (a, b) == 0\<close>, and the ASCII case-insensitive \<^verbatim>\<open>strcasecmp\<close>.\<close>

fun c_strcmp_by :: "(u8 \<Rightarrow> u8) \<Rightarrow> bytes \<Rightarrow> bytes \<Rightarrow> bool c" where
  "c_strcmp_by f (x # a) (y # b) =
     (if f x \<noteq> f y then Inr False else if x = 0 then Inr True else c_strcmp_by f a b)"
| "c_strcmp_by f a b = Inl OutOfBounds"

definition c_tolower :: "u8 \<Rightarrow> u8" where
  "c_tolower b = (if 0x41 \<le> b \<and> b \<le> 0x5A then b + 0x20 else b)"

lemma cstr_append_0 [simp]: "0 \<notin> set s \<Longrightarrow> cstr (s @ 0 # r) = s"
  by (induction s) (auto simp: cstr_def)

lemma wpc_strlen [wp]: "wpc (c_strlen p) P \<longleftrightarrow> 0 \<in> set p \<and> P (length (cstr p))"
  by (simp add: c_strlen_def)

lemma length_cstr_less: "0 \<in> set p \<Longrightarrow> length (cstr p) < length p"
  by (induction p) (auto simp: cstr_def)

lemma c_strncmp_eq_total:
  "0 \<in> set a \<Longrightarrow> 0 \<in> set b \<Longrightarrow> \<exists>r. c_strncmp_eq a b n = Inr r"
  by (induction a b n rule: c_strncmp_eq.induct) auto

lemma c_strcmp_by_total:
  "0 \<in> set a \<Longrightarrow> 0 \<in> set b \<Longrightarrow> \<forall>x. f x = f 0 \<longrightarrow> x = 0 \<Longrightarrow> \<exists>r. c_strcmp_by f a b = Inr r"
proof (induction f a b rule: c_strcmp_by.induct)
  case (1 f x a y b)
  then show ?case by (cases "x = 0"; cases "y = 0") auto
qed auto

section \<open>Little-endian words\<close>

definition le32 :: "u32 \<Rightarrow> bytes" where
  "le32 w = [ucast w, ucast (drop_bit 8 w), ucast (drop_bit 16 w), ucast (drop_bit 24 w)]"

definition of_le32 :: "bytes \<Rightarrow> u32" where
  "of_le32 b = ucast (b ! 0) OR push_bit 8 (ucast (b ! 1))
     OR push_bit 16 (ucast (b ! 2)) OR push_bit 24 (ucast (b ! 3))"

definition le64 :: "u64 \<Rightarrow> bytes" where
  "le64 w = le32 (ucast w) @ le32 (ucast (drop_bit 32 w))"

definition of_le64 :: "bytes \<Rightarrow> u64" where
  "of_le64 b = ucast (of_le32 (take 4 b)) OR push_bit 32 (ucast (of_le32 (drop 4 b)))"

lemma length_le32 [simp]: "length (le32 w) = 4"
  by (simp add: le32_def)

lemma length_le64 [simp]: "length (le64 w) = 8"
  by (simp add: le64_def)

lemma of_le32_le32 [simp]: "of_le32 (le32 w) = w"
proof (rule bit_word_eqI)
  fix n assume "n < LENGTH(32)"
  then show "bit (of_le32 (le32 w)) n = bit w n"
    by (cases "n < 8"; cases "n < 16"; cases "n < 24") (auto simp: of_le32_def le32_def bit_simps)
qed

lemma bit_u8_beyond: "8 \<le> n \<Longrightarrow> \<not> bit (b :: u8) n"
  by (auto dest: bit_imp_le_length)

lemma le32_of_le32: "length b = 4 \<Longrightarrow> le32 (of_le32 b) = b"
proof -
  assume "length b = 4"
  then obtain b0 b1 b2 b3 where "b = [b0, b1, b2, b3]"
    by (auto simp: length_Suc_conv numeral_eq_Suc)
  then show ?thesis
    by (auto simp: of_le32_def le32_def bit_simps bit_u8_beyond intro!: bit_word_eqI)
qed

lemma of_le64_le64 [simp]: "of_le64 (le64 w) = w"
proof (rule bit_word_eqI)
  fix n assume "n < LENGTH(64)"
  then show "bit (of_le64 (le64 w)) n = bit w n"
    by (cases "n < 32") (auto simp: of_le64_def le64_def bit_simps)
qed

lemma le64_of_le64: "length b = 8 \<Longrightarrow> le64 (of_le64 b) = b"
proof -
  assume len: "length b = 8"
  have lo: "(ucast (of_le64 b) :: u32) = of_le32 (take 4 b)"
    by (rule bit_word_eqI) (auto simp: of_le64_def bit_simps)
  have hi: "(ucast (drop_bit 32 (of_le64 b)) :: u32) = of_le32 (drop 4 b)"
    by (rule bit_word_eqI) (auto simp: of_le64_def bit_simps dest: bit_imp_le_length)
  show ?thesis
    using len by (simp add: le64_def lo hi le32_of_le32)
qed

text \<open>The little-endian word at an index of a buffer.\<close>

definition le32_at :: "bytes \<Rightarrow> nat \<Rightarrow> u32" where
  "le32_at p i = of_le32 (take 4 (drop i p))"

definition le64_at :: "bytes \<Rightarrow> nat \<Rightarrow> u64" where
  "le64_at p i = of_le64 (take 8 (drop i p))"

definition load32 :: "bytes \<Rightarrow> nat \<Rightarrow> u32 c" where
  "load32 p i = bindc (memcpy_from p i 4) (\<lambda>b. Inr (of_le32 b))"

definition load64 :: "bytes \<Rightarrow> nat \<Rightarrow> u64 c" where
  "load64 p i = bindc (memcpy_from p i 8) (\<lambda>b. Inr (of_le64 b))"

lemma load32_in [mem_simps]: "i + 4 \<le> length p \<Longrightarrow> load32 p i = Inr (le32_at p i)"
  by (simp add: load32_def le32_at_def mem_simps)

lemma load64_in [mem_simps]: "i + 8 \<le> length p \<Longrightarrow> load64 p i = Inr (le64_at p i)"
  by (simp add: load64_def le64_at_def mem_simps)

lemma wpc_load32 [wp]: "wpc (load32 p i) P \<longleftrightarrow> i + 4 \<le> length p \<and> P (le32_at p i)"
  by (simp add: load32_def le32_at_def wp)

lemma wpc_load64 [wp]: "wpc (load64 p i) P \<longleftrightarrow> i + 8 \<le> length p \<and> P (le64_at p i)"
  by (simp add: load64_def le64_at_def wp)

lemma load32_cases: "load32 p i = (if i + 4 \<le> length p then Inr (le32_at p i) else Inl OutOfBounds)"
  by (simp add: load32_def le32_at_def memcpy_from_def)

lemma load64_cases: "load64 p i = (if i + 8 \<le> length p then Inr (le64_at p i) else Inl OutOfBounds)"
  by (simp add: load64_def le64_at_def memcpy_from_def)

section \<open>Unsigned 32-bit arithmetic read on naturals\<close>

lemma u32_less [u32_arith]: "(a :: u32) < b \<longleftrightarrow> unat a < unat b"
  by (simp add: word_less_nat_alt)

lemma u32_le [u32_arith]: "(a :: u32) \<le> b \<longleftrightarrow> unat a \<le> unat b"
  by (simp add: word_le_nat_alt)

lemma u32_eq: "(a :: u32) = b \<longleftrightarrow> unat a = unat b"
  by (simp add: word_unat_eq_iff)

lemma u32_add: "unat a + unat b < 2 ^ 32 \<Longrightarrow> unat (a + b :: u32) = unat a + unat b"
  by (simp add: unat_word_ariths)

lemma u32_sub: "unat b \<le> unat a \<Longrightarrow> unat (a - b :: u32) = unat a - unat b"
  by (simp add: unat_sub word_le_nat_alt)

lemma u32_pred: "a \<noteq> 0 \<Longrightarrow> unat (a - 1 :: u32) = unat a - 1"
  by (rule unat_minus_one)

lemma u32_neq_0: "(a :: u32) \<noteq> 0 \<longleftrightarrow> 0 < unat a"
  using unat_eq_zero [of a] by auto

lemma u32_le_max: "unat (a :: u32) \<le> unat (- 1 :: u32)"
  using word_order.extremum [of a] by (simp only: u32_le)

lemma unat_u32_lt: "unat (a :: u32) < 2 ^ 32"
  using unsigned_less [of a, where 'a = nat] by simp

text \<open>Conversions between the 32-bit and the 64-bit type.\<close>

lemma unat_up [simp]: "unat (ucast (a :: u32) :: u64) = unat a"
  using unat_u32_lt [of a] by (simp add: unsigned_ucast_eq take_bit_eq_mod)

lemma unat_down: "unat (ucast (a :: u64) :: u32) = unat a mod 2 ^ 32"
  by (simp add: unsigned_ucast_eq take_bit_eq_mod)

lemma down_up [simp]: "(ucast (ucast (a :: u32) :: u64) :: u32) = a"
  using unat_u32_lt [of a] by (simp add: u32_eq unat_down)

lemma u64_add: "unat a + unat b < 2 ^ 64 \<Longrightarrow> unat (a + b :: u64) = unat a + unat b"
  by (simp add: unat_word_ariths)

lemma u64_sub: "unat b \<le> unat a \<Longrightarrow> unat (a - b :: u64) = unat a - unat b"
  by (simp add: unat_sub word_le_nat_alt)

lemma unat_of_nat_u32: "n < 2 ^ 32 \<Longrightarrow> unat (of_nat n :: u32) = n"
  by (simp add: unat_of_nat)

text \<open>A value below \<open>2^31\<close> is the same read as signed.\<close>

lemma sint_small: "unat (l :: u32) \<le> 2147483647 \<Longrightarrow> sint l = int (unat l)"
proof -
  assume "unat l \<le> 2147483647"
  then have "int (unat l) \<le> int 2147483647" by (simp only: of_nat_le_iff)
  then have "uint l \<le> 2147483647" by simp
  moreover have "- (2147483648::int) \<le> uint l"
    by (rule order_trans [of _ 0]) simp_all
  ultimately have "signed_take_bit 31 (uint l) = uint l"
    by (intro signed_take_bit_int_eq_self) simp_all
  then show ?thesis by (simp add: sint_uint)
qed

end
