(* ===== verification/Bson_Size.thy ===== *)
theory Bson_Size
  imports Prelude
begin

text \<open>
  Allocation sizes: the power-of-two helpers of \<^verbatim>\<open>bson-types.h\<close> and the memory
  functions of \<^verbatim>\<open>bson-memory.c\<close> as the growing buffers use them. Fresh memory has
  unspecified contents: they are given by a function of the index, an argument
  of the allocation, about which nothing is assumed.
\<close>

section \<open>Powers of two\<close>

definition smear :: "nat \<Rightarrow> u64 \<Rightarrow> u64" where
  "smear k v = v OR drop_bit k v"

definition bson_next_power_of_two :: "u64 \<Rightarrow> u64" where
  "bson_next_power_of_two v =
     (let v = v - 1; v = smear 1 v; v = smear 2 v; v = smear 4 v; v = smear 8 v;
          v = smear 16 v; v = smear 32 v
      in v + 1)"

definition bson_is_power_of_two :: "u32 \<Rightarrow> bool" where
  "bson_is_power_of_two v \<longleftrightarrow> v \<noteq> 0 \<and> v AND (v - 1) = 0"

section \<open>Memory\<close>

type_synonym fresh = "nat \<Rightarrow> u8"

definition bson_malloc :: "fresh \<Rightarrow> nat \<Rightarrow> bytes" where
  "bson_malloc fr n = map fr [0..<n]"

definition bson_realloc :: "fresh \<Rightarrow> bytes \<Rightarrow> nat \<Rightarrow> bytes" where
  "bson_realloc fr old n = take n old @ map fr [length old..<n]"

lemma length_malloc [simp]: "length (bson_malloc fr n) = n"
  by (simp add: bson_malloc_def)

lemma length_realloc [simp]: "length (bson_realloc fr old n) = n"
  by (simp add: bson_realloc_def)

lemma take_realloc: "k \<le> length old \<Longrightarrow> k \<le> n \<Longrightarrow> take k (bson_realloc fr old n) = take k old"
  by (simp add: bson_realloc_def min_def)

section \<open>The bit-smearing loop rounds up to a power of two\<close>

text \<open>After the shifts by 1, 2, ..., each bit is set iff a bit at most so far above it was.\<close>

definition smeared :: "nat \<Rightarrow> u64 \<Rightarrow> u64 \<Rightarrow> bool" where
  "smeared k x y \<longleftrightarrow> (\<forall>n. bit y n \<longleftrightarrow> (\<exists>j < k. bit x (n + j)))"

lemma smeared_one: "smeared 1 x x"
  by (simp add: smeared_def)

lemma smeared_step: "smeared k x y \<Longrightarrow> smeared (k + k) x (smear k y)"
proof (unfold smeared_def, intro allI)
  fix n
  assume y: "\<forall>n. bit y n \<longleftrightarrow> (\<exists>j < k. bit x (n + j))"
  have "bit (smear k y) n \<longleftrightarrow> bit y n \<or> bit y (n + k)"
    by (simp add: smear_def bit_simps add.commute)
  also have "\<dots> \<longleftrightarrow> (\<exists>j < k. bit x (n + j)) \<or> (\<exists>j < k. bit x (n + k + j))"
    using y by simp
  also have "\<dots> \<longleftrightarrow> (\<exists>j < k + k. bit x (n + j))"
  proof
    assume "\<exists>j < k + k. bit x (n + j)"
    then obtain j where j: "j < k + k" "bit x (n + j)" by blast
    then show "(\<exists>j < k. bit x (n + j)) \<or> (\<exists>j < k. bit x (n + k + j))"
    proof (cases "j < k")
      case False
      with j have "j - k < k" "bit x (n + k + (j - k))" by simp_all
      then show ?thesis by blast
    qed blast
  next
    assume "(\<exists>j < k. bit x (n + j)) \<or> (\<exists>j < k. bit x (n + k + j))"
    then show "\<exists>j < k + k. bit x (n + j)"
      by (metis add.assoc add_strict_left_mono trans_less_add1)
  qed
  finally show "bit (smear k y) n \<longleftrightarrow> (\<exists>j < k + k. bit x (n + j))" .
qed

lemma smeared_all:
  "smeared 64 x (smear 32 (smear 16 (smear 8 (smear 4 (smear 2 (smear 1 x))))))"
proof -
  have "smeared 2 x (smear 1 x)" using smeared_step [OF smeared_one, of x] by (simp only: one_add_one)
  from smeared_step [OF this] have "smeared 4 x (smear 2 (smear 1 x))" by simp
  from smeared_step [OF this] have "smeared 8 x (smear 4 (smear 2 (smear 1 x)))" by simp
  from smeared_step [OF this] have "smeared 16 x (smear 8 (smear 4 (smear 2 (smear 1 x))))" by simp
  from smeared_step [OF this] have "smeared 32 x (smear 16 (smear 8 (smear 4 (smear 2 (smear 1 x)))))"
    by simp
  from smeared_step [OF this] show ?thesis by simp
qed

lemma smeared_mask:
  assumes "smeared 64 x y" and "x \<noteq> 0"
  obtains m where "m < 64" and "bit x m" and "y = mask (Suc m)" and "\<forall>j. bit x j \<longrightarrow> j \<le> m"
proof -
  let ?S = "{j. bit x j}"
  have fin: "finite ?S" by (rule finite_subset [of _ "{..<64}"]) (auto dest: bit_imp_le_length)
  from assms(2) obtain j where "bit x j" by (auto simp: bit_eq_iff)
  with fin have top: "bit x (Max ?S)" "\<forall>j. bit x j \<longrightarrow> j \<le> Max ?S"
    using Max_in [of ?S] by auto
  then have lt: "Max ?S < 64" by (auto dest: bit_imp_le_length)
  have "y = mask (Suc (Max ?S))"
  proof (rule bit_word_eqI)
    fix n assume "n < LENGTH(64)"
    have "bit y n \<longleftrightarrow> n \<le> Max ?S"
    proof
      assume "bit y n"
      then obtain j where "bit x (n + j)" using assms(1) by (auto simp: smeared_def)
      with top(2) show "n \<le> Max ?S" by (metis add_leD1)
    next
      assume n: "n \<le> Max ?S"
      then show "bit y n"
        using assms(1) top(1) lt by (auto simp: smeared_def intro!: exI [of _ "Max ?S - n"])
    qed
    then show "bit y n = bit (mask (Suc (Max ?S)) :: u64) n"
      using \<open>n < LENGTH(64)\<close> by (auto simp: bit_mask_iff)
  qed
  with that lt top show thesis by blast
qed

lemma unat_top_bit:
  assumes "bit (x :: u64) m" and "\<forall>j. bit x j \<longrightarrow> j \<le> m"
  shows "2 ^ m \<le> unat x" and "unat x < 2 ^ Suc m"
proof -
  have "take_bit (Suc m) x = x"
    using assms(2) by (intro bit_word_eqI) (auto simp: bit_take_bit_iff less_Suc_eq_le)
  then have "take_bit (Suc m) (unat x) = unat x"
    by (metis unsigned_take_bit_eq)
  then show "unat x < 2 ^ Suc m" by (metis take_bit_nat_less_exp)
  have b: "bit (unat x) m" using assms(1) by (simp add: bit_unsigned_iff)
  show "2 ^ m \<le> unat x"
  proof (rule ccontr)
    assume "\<not> 2 ^ m \<le> unat x"
    then have "unat x div 2 ^ m = 0" by simp
    with b show False by (simp add: bit_iff_odd)
  qed
qed

lemma next_power_of_two:
  assumes "1 < unat v" and "unat v \<le> 2 ^ 63"
  obtains m where "unat (bson_next_power_of_two v) = 2 ^ m" and "unat v \<le> 2 ^ m" and "2 ^ m < 2 * unat v"
    and "m \<le> 63"
proof -
  have v1: "unat (v - 1) = unat v - 1"
    using assms(1) by (intro unat_minus_one) auto
  then have "v - 1 \<noteq> 0" using assms(1) by auto
  from smeared_mask [OF smeared_all this] obtain m where m: "m < 64" "bit (v - 1) m"
    "\<forall>j. bit (v - 1) j \<longrightarrow> j \<le> m"
    and y: "smear 32 (smear 16 (smear 8 (smear 4 (smear 2 (smear 1 (v - 1)))))) = mask (Suc m)"
    by blast
  from unat_top_bit [OF m(2,3)] v1 have b: "2 ^ m < unat v" "unat v \<le> 2 * 2 ^ m" by auto
  have "(2 :: nat) ^ m < 2 ^ 63" using b(1) assms(2) by simp
  then have m63: "m < 63" by (metis power_less_imp_less_exp one_less_numeral_iff semiring_norm(76))
  have "bson_next_power_of_two v = 2 ^ Suc m"
    using y by (simp add: bson_next_power_of_two_def Let_def mask_eq_exp_minus_1)
  moreover have "unat (2 ^ Suc m :: u64) = 2 ^ Suc m"
  proof -
    have "(2 :: nat) ^ Suc m < 2 ^ 64" by (rule power_strict_increasing) (use m63 in auto)
    then have "unat (of_nat (2 ^ Suc m) :: u64) = 2 ^ Suc m"
      by (simp only: unat_of_nat len_num1 len_bit0 len_bit1 mod_less) simp
    then show ?thesis by simp
  qed
  ultimately show thesis using that [of "Suc m"] b m63 by simp
qed

end
