(* ===== verification/Bson_String.thy ===== *)
theory Bson_String
  imports Bson_Size
begin

text \<open>
  \<^verbatim>\<open>bson-string.c\<close>: the growing string \<^verbatim>\<open>bson_string_t\<close> and the string helpers the
  other components use. The invariant \<open>string_wf\<close> says that the buffer has the
  recorded size, that the string and its terminator fit, and that the string has
  no embedded NUL; every operation keeps it and appends what it should, as long as
  the 32-bit size does not wrap.
\<close>

section \<open>bson\_string\_t\<close>

record bson_string_t =
  str_mem :: bytes
  str_len :: u32
  str_alloc :: u32

text \<open>\<^verbatim>\<open>if (!bson_is_power_of_two (alloc)) alloc = bson_next_power_of_two (alloc)\<close>, in three functions.\<close>

definition pow2_alloc :: "u32 \<Rightarrow> u32" where
  "pow2_alloc alloc =
     (if \<not> bson_is_power_of_two alloc then ucast (bson_next_power_of_two (ucast alloc)) else alloc)"

definition bson_string_new :: "fresh \<Rightarrow> bytes option \<Rightarrow> bson_string_t c" where
  "bson_string_new fr str =
     bindc (case str of None \<Rightarrow> Inr 0 | Some s \<Rightarrow> bindc (c_strlen s) (\<lambda>n. Inr (of_nat n))) (\<lambda>len.
       let alloc = pow2_alloc (len + 1)
       in bindc (c_assert (alloc \<ge> 1)) (\<lambda>_.
         let mem = bson_malloc fr (unat alloc)
         in bindc (case str of None \<Rightarrow> Inr mem
             | Some s \<Rightarrow> bindc (memcpy_from s 0 (unat len)) (\<lambda>b. memcpy_to mem 0 b)) (\<lambda>mem.
           bindc (memcpy_to mem (unat len) [0]) (\<lambda>mem.
             Inr \<lparr>str_mem = mem, str_len = len, str_alloc = alloc\<rparr>))))"

definition bson_string_append :: "fresh \<Rightarrow> bson_string_t \<Rightarrow> bytes \<Rightarrow> bson_string_t c" where
  "bson_string_append fr string str =
     bindc (c_strlen str) (\<lambda>n.
       let len = of_nat n;
           string = (if str_alloc string - str_len string - 1 < len
             then let alloc = pow2_alloc (str_alloc string + len)
               in string\<lparr>str_alloc := alloc, str_mem := bson_realloc fr (str_mem string) (unat alloc)\<rparr>
             else string)
       in bindc (memcpy_from str 0 (unat len)) (\<lambda>b.
         bindc (memcpy_to (str_mem string) (unat (str_len string)) b) (\<lambda>mem.
         bindc (memcpy_to mem (unat (str_len string + len)) [0]) (\<lambda>mem.
           Inr (string\<lparr>str_mem := mem, str_len := str_len string + len\<rparr>)))))"

definition bson_string_append_c :: "fresh \<Rightarrow> bson_string_t \<Rightarrow> u8 \<Rightarrow> bson_string_t c" where
  "bson_string_append_c fr string ch =
     (if str_alloc string = str_len string + 1 then bson_string_append fr string [ch, 0]
      else bindc (memcpy_to (str_mem string) (unat (str_len string)) [ch]) (\<lambda>mem.
        bindc (memcpy_to mem (unat (str_len string + 1)) [0]) (\<lambda>mem.
          Inr (string\<lparr>str_mem := mem, str_len := str_len string + 1\<rparr>))))"

definition bson_string_truncate :: "fresh \<Rightarrow> bson_string_t \<Rightarrow> u32 \<Rightarrow> bson_string_t c" where
  "bson_string_truncate fr string len =
     bindc (c_assert (len < of_nat INT_MAX)) (\<lambda>_.
       let alloc = pow2_alloc (if len + 1 < 16 then 16 else len + 1);
           mem = bson_realloc fr (str_mem string) (unat alloc)
       in bindc (memcpy_to mem (unat len) [0]) (\<lambda>mem.
         Inr \<lparr>str_mem = mem, str_len = len, str_alloc = alloc\<rparr>))"

text \<open>\<^verbatim>\<open>bson_strdup\<close>, \<^verbatim>\<open>bson_strndup\<close>, \<^verbatim>\<open>bson_strnlen\<close>, \<^verbatim>\<open>bson_strncpy\<close>: results as memory.\<close>

definition bson_strdup :: "bytes option \<Rightarrow> bytes option c" where
  "bson_strdup str =
     (case str of None \<Rightarrow> Inr None
      | Some s \<Rightarrow> bindc (c_strlen s) (\<lambda>len. bindc (memcpy_from s 0 (len + 1)) (\<lambda>out. Inr (Some out))))"

fun bson_strnlen :: "bytes \<Rightarrow> nat \<Rightarrow> nat c" where
  "bson_strnlen s 0 = Inr 0"
| "bson_strnlen [] (Suc n) = Inl OutOfBounds"
| "bson_strnlen (b # s) (Suc n) = (if b = 0 then Inr 0 else bindc (bson_strnlen s n) (\<lambda>k. Inr (Suc k)))"

section \<open>The invariant\<close>

definition string_contents :: "bson_string_t \<Rightarrow> bytes" where
  "string_contents s = take (unat (str_len s)) (str_mem s)"

definition string_wf :: "bson_string_t \<Rightarrow> bool" where
  "string_wf s \<longleftrightarrow>
     length (str_mem s) = unat (str_alloc s) \<and> unat (str_len s) < unat (str_alloc s) \<and>
     unat (str_alloc s) \<le> 2 ^ 31 \<and>
     str_mem s ! unat (str_len s) = 0 \<and> 0 \<notin> set (string_contents s)"

lemma pow2_alloc_ge:
  assumes "0 < unat a" and "unat a \<le> 2 ^ 31"
  shows "unat a \<le> unat (pow2_alloc a)" and "unat (pow2_alloc a) \<le> 2 ^ 31"
    and "unat (pow2_alloc a) \<le> 2 * unat a"
proof -
  have "unat a \<le> unat (pow2_alloc a) \<and> unat (pow2_alloc a) \<le> 2 ^ 31 \<and> unat (pow2_alloc a) \<le> 2 * unat a"
  proof (cases "bson_is_power_of_two a")
    case False
    have "a \<noteq> 1" using False by (auto simp: bson_is_power_of_two_def)
    then have "1 < unat (ucast a :: u64)" using assms(1) by (simp add: u32_eq)
    moreover have "unat (ucast a :: u64) \<le> 2 ^ 63" using assms(2) by simp
    ultimately obtain m where m: "unat (bson_next_power_of_two (ucast a)) = 2 ^ m"
      "unat a \<le> 2 ^ m" "2 ^ m < 2 * unat a"
      using next_power_of_two [of "ucast a"] by (metis unat_up)
    have "(2 :: nat) ^ m < 2 ^ 32" using m(3) assms(2) by simp
    then have "m < 32" by (metis power_less_imp_less_exp one_less_numeral_iff semiring_norm(76))
    then have m31: "(2 :: nat) ^ m \<le> 2 ^ 31" by (intro power_increasing) auto
    have "unat (ucast (bson_next_power_of_two (ucast a)) :: u32) = 2 ^ m"
      using m(1) m31 by (simp add: unat_down)
    with False m m31 show ?thesis by (simp add: pow2_alloc_def)
  qed (use assms in \<open>simp add: pow2_alloc_def\<close>)
  then show "unat a \<le> unat (pow2_alloc a)" "unat (pow2_alloc a) \<le> 2 ^ 31" "unat (pow2_alloc a) \<le> 2 * unat a"
    by auto
qed


text \<open>Writing a string and its terminator over a buffer.\<close>

lemma string_wfI:
  assumes "length mem = unat alloc" and "length (pre @ s) < unat alloc" and "unat alloc \<le> 2 ^ 31"
    and "take (length pre) mem = pre" and "0 \<notin> set (pre @ s)" and "unat len = length (pre @ s)"
  shows "wpc (bindc (memcpy_to mem (length pre) s) (\<lambda>mem. bindc (memcpy_to mem (length (pre @ s)) [0]) (\<lambda>mem.
      Inr \<lparr>str_mem = mem, str_len = len, str_alloc = alloc\<rparr>)))
    (\<lambda>r. string_wf r \<and> string_contents r = pre @ s \<and> str_alloc r = alloc)"
  using assms by (auto simp: wp string_wf_def string_contents_def nth_append)

lemma string_append:
  assumes wf: "string_wf string" and nz: "0 \<notin> set s" and room: "unat (str_alloc string) + length s \<le> 2 ^ 31"
  shows "wpc (bson_string_append fr string (s @ 0 # rest))
    (\<lambda>r. string_wf r \<and> string_contents r = string_contents string @ s \<and>
       unat (str_alloc r) \<le> 2 * (unat (str_alloc string) + length s))"
proof -
  let ?a = "unat (str_alloc string)" and ?l = "unat (str_len string)"
  let ?n = "of_nat (length s) :: u32"
  have wf': "length (str_mem string) = ?a" "?l < ?a" "0 \<notin> set (string_contents string)"
    using wf by (simp_all add: string_wf_def)
  have n: "unat ?n = length s" using room by (simp add: unat_of_nat_u32)
  have sum: "unat (str_len string + ?n) = ?l + length s" "unat (str_alloc string + ?n) = ?a + length s"
    using wf' room n by (simp_all add: u32_add)
  have free: "unat (str_alloc string - str_len string - 1) = ?a - ?l - 1"
    using wf' by (simp add: u32_sub)
  let ?new = "pow2_alloc (str_alloc string + ?n)"
  have big: "?a + length s \<le> unat ?new" "unat ?new \<le> 2 ^ 31" "unat ?new \<le> 2 * (?a + length s)"
    using pow2_alloc_ge [of "str_alloc string + ?n"] sum(2) room wf'(2) by simp_all
  let ?string = "if str_alloc string - str_len string - 1 < ?n
     then string\<lparr>str_alloc := ?new, str_mem := bson_realloc fr (str_mem string) (unat ?new)\<rparr> else string"
  let ?pre = "string_contents string"
  have lp: "length ?pre = ?l" using wf' by (simp add: string_contents_def)
  have str: "length (str_mem ?string) = unat (str_alloc ?string)" "?l + length s < unat (str_alloc ?string)"
    "unat (str_alloc ?string) \<le> 2 ^ 31" "unat (str_alloc ?string) \<le> 2 * (?a + length s)" "take ?l (str_mem ?string) = ?pre" "str_len ?string = str_len string"
    using wf wf' big free n by (auto simp: u32_less string_contents_def take_realloc string_wf_def)
  have "bson_string_append fr string (s @ 0 # rest) =
      bindc (memcpy_to (str_mem ?string) (length ?pre) s) (\<lambda>mem.
        bindc (memcpy_to mem (length (?pre @ s)) [0]) (\<lambda>mem.
          Inr \<lparr>str_mem = mem, str_len = str_len string + ?n, str_alloc = str_alloc ?string\<rparr>))"
    using nz n sum str(6) lp
    by (cases string) (simp add: bson_string_append_def c_strlen_def Let_def memcpy_from_def)
  with string_wfI [of "str_mem ?string" "str_alloc ?string" ?pre s "str_len string + ?n"] str wf'(3) nz lp sum
  show ?thesis by (auto elim!: wpc_mono)
qed


lemma string_append_c:
  assumes wf: "string_wf string" and nz: "ch \<noteq> 0" and room: "unat (str_alloc string) < 2 ^ 31"
  shows "wpc (bson_string_append_c fr string ch)
    (\<lambda>r. string_wf r \<and> string_contents r = string_contents string @ [ch] \<and>
       unat (str_alloc r) \<le> 2 * (unat (str_alloc string) + 1))"
proof (cases "str_alloc string = str_len string + 1")
  case True
  with string_append [OF wf, of "[ch]" fr "[]"] nz room show ?thesis
    by (simp add: bson_string_append_c_def)
next
  case False
  let ?l = "unat (str_len string)"
  have wf': "length (str_mem string) = unat (str_alloc string)" "?l < unat (str_alloc string)"
    "0 \<notin> set (string_contents string)" "length (string_contents string) = ?l"
    using wf by (auto simp: string_wf_def string_contents_def)
  have l1: "unat (str_len string + 1) = ?l + 1" using wf'(2) room by (simp add: u32_add)
  have lt: "?l + 1 < unat (str_alloc string)"
    using False wf'(2) l1 by (metis Suc_eq_plus1 Suc_lessI u32_eq)
  have "bson_string_append_c fr string ch =
      bindc (memcpy_to (str_mem string) (length (string_contents string)) [ch]) (\<lambda>mem.
        bindc (memcpy_to mem (length (string_contents string @ [ch])) [0]) (\<lambda>mem.
          Inr \<lparr>str_mem = mem, str_len = str_len string + 1, str_alloc = str_alloc string\<rparr>))"
    using False l1 wf'(4) by (cases string) (simp add: bson_string_append_c_def)
  with string_wfI [of "str_mem string" "str_alloc string" "string_contents string" "[ch]" "str_len string + 1"]
    wf' lt l1 nz room show ?thesis
    by (auto simp: string_contents_def elim!: wpc_mono)
qed

lemma string_new:
  assumes "0 \<notin> set s" and "length s < 2 ^ 31"
  shows "wpc (bson_string_new fr (Some (s @ 0 # rest))) (\<lambda>r. string_wf r \<and> string_contents r = s)"
    and "wpc (bson_string_new fr None) (\<lambda>r. string_wf r \<and> string_contents r = [] \<and> unat (str_alloc r) = 1)"
proof -
  let ?n = "of_nat (length s) :: u32"
  have n: "unat ?n = length s" "unat (?n + 1) = length s + 1"
    using assms(2) by (simp_all add: unat_of_nat_u32 u32_add)
  have al: "length s + 1 \<le> unat (pow2_alloc (?n + 1))" "unat (pow2_alloc (?n + 1)) \<le> 2 ^ 31"
    using pow2_alloc_ge [of "?n + 1"] assms(2) n(2) by simp_all
  let ?mem = "bson_malloc fr (unat (pow2_alloc (?n + 1)))"
  have "bson_string_new fr (Some (s @ 0 # rest)) =
      bindc (memcpy_to ?mem (length ([] :: bytes)) s) (\<lambda>mem. bindc (memcpy_to mem (length ([] @ s)) [0]) (\<lambda>mem.
        Inr \<lparr>str_mem = mem, str_len = ?n, str_alloc = pow2_alloc (?n + 1)\<rparr>))"
    using assms(1) n al by (simp add: bson_string_new_def c_strlen_def memcpy_from_def Let_def u32_le)
  with string_wfI [of ?mem "pow2_alloc (?n + 1)" "[]" s ?n] al n(1) assms(1)
  show "wpc (bson_string_new fr (Some (s @ 0 # rest))) (\<lambda>r. string_wf r \<and> string_contents r = s)"
    by (auto elim!: wpc_mono)
  have "pow2_alloc 1 = 1" by (simp add: pow2_alloc_def bson_is_power_of_two_def)
  then show "wpc (bson_string_new fr None) (\<lambda>r. string_wf r \<and> string_contents r = [] \<and> unat (str_alloc r) = 1)"
    by (simp add: bson_string_new_def Let_def wp string_wf_def string_contents_def)
qed

lemma string_truncate:
  assumes wf: "string_wf string" and len: "unat len \<le> unat (str_len string)" and small: "unat len < 2147483647"
  shows "wpc (bson_string_truncate fr string len)
    (\<lambda>r. string_wf r \<and> string_contents r = take (unat len) (string_contents string))"
proof -
  let ?want = "if len + 1 < 16 then 16 else len + 1" and ?l = "unat len"
  have l1: "unat (len + 1) = ?l + 1" using small by (simp add: u32_add)
  then have want: "?l + 1 \<le> unat ?want" "0 < unat ?want" "unat ?want \<le> 2 ^ 31"
    using small by (auto simp: u32_less)
  have al: "?l < unat (pow2_alloc ?want)" "unat (pow2_alloc ?want) \<le> 2 ^ 31"
    using pow2_alloc_ge [OF want(2,3)] want(1) by simp_all
  have pre: "take ?l (str_mem string) = take ?l (string_contents string)" "?l \<le> length (str_mem string)"
    using wf len by (simp_all add: string_wf_def string_contents_def min_def)
  have nz: "0 \<notin> set (take ?l (string_contents string))"
    using wf by (auto simp: string_wf_def dest: in_set_takeD)
  have lt: "len < of_nat INT_MAX" using small by (simp add: INT_MAX_def u32_less)
  define a where "a = pow2_alloc ?want"
  have tr: "take ?l (bson_realloc fr (str_mem string) (unat a)) = take ?l (string_contents string)"
    using al(1) pre by (simp add: a_def take_realloc)
  let ?mem = "take ?l (bson_realloc fr (str_mem string) (unat a)) @ [0] @
    drop (?l + 1) (bson_realloc fr (str_mem string) (unat a))"
  have "bson_string_truncate fr string len = Inr \<lparr>str_mem = ?mem, str_len = len, str_alloc = a\<rparr>"
    using lt al(1) by (simp add: bson_string_truncate_def Let_def a_def [symmetric] memcpy_to_def)
  moreover have "length ?mem = unat a" "?mem ! ?l = 0" "take ?l ?mem = take ?l (string_contents string)"
    using al(1) by (simp_all add: a_def [symmetric] nth_append tr [symmetric])
  ultimately show ?thesis
    using al nz by (simp only: wpc_Inr string_wf_def string_contents_def a_def [symmetric] bson_string_t.simps)
      (simp add: string_contents_def)
qed

end
