(* ===== verification/Bson_Types.thy ===== *)
theory Bson_Types
  imports Prelude
begin

text \<open>
  The types of \<^verbatim>\<open>bson-types.h\<close>: the element type codes, the binary subtypes,
  and the tagged union \<^verbatim>\<open>bson_value_t\<close>.
\<close>

section \<open>bson\_type\_t\<close>

text \<open>The type of an element is the byte found in the document; these are its known codes.\<close>

abbreviation (input) BSON_TYPE_EOD :: u8 where "BSON_TYPE_EOD \<equiv> 0x00"
abbreviation (input) BSON_TYPE_DOUBLE :: u8 where "BSON_TYPE_DOUBLE \<equiv> 0x01"
abbreviation (input) BSON_TYPE_UTF8 :: u8 where "BSON_TYPE_UTF8 \<equiv> 0x02"
abbreviation (input) BSON_TYPE_DOCUMENT :: u8 where "BSON_TYPE_DOCUMENT \<equiv> 0x03"
abbreviation (input) BSON_TYPE_ARRAY :: u8 where "BSON_TYPE_ARRAY \<equiv> 0x04"
abbreviation (input) BSON_TYPE_BINARY :: u8 where "BSON_TYPE_BINARY \<equiv> 0x05"
abbreviation (input) BSON_TYPE_UNDEFINED :: u8 where "BSON_TYPE_UNDEFINED \<equiv> 0x06"
abbreviation (input) BSON_TYPE_OID :: u8 where "BSON_TYPE_OID \<equiv> 0x07"
abbreviation (input) BSON_TYPE_BOOL :: u8 where "BSON_TYPE_BOOL \<equiv> 0x08"
abbreviation (input) BSON_TYPE_DATE_TIME :: u8 where "BSON_TYPE_DATE_TIME \<equiv> 0x09"
abbreviation (input) BSON_TYPE_NULL :: u8 where "BSON_TYPE_NULL \<equiv> 0x0A"
abbreviation (input) BSON_TYPE_REGEX :: u8 where "BSON_TYPE_REGEX \<equiv> 0x0B"
abbreviation (input) BSON_TYPE_DBPOINTER :: u8 where "BSON_TYPE_DBPOINTER \<equiv> 0x0C"
abbreviation (input) BSON_TYPE_CODE :: u8 where "BSON_TYPE_CODE \<equiv> 0x0D"
abbreviation (input) BSON_TYPE_SYMBOL :: u8 where "BSON_TYPE_SYMBOL \<equiv> 0x0E"
abbreviation (input) BSON_TYPE_CODEWSCOPE :: u8 where "BSON_TYPE_CODEWSCOPE \<equiv> 0x0F"
abbreviation (input) BSON_TYPE_INT32 :: u8 where "BSON_TYPE_INT32 \<equiv> 0x10"
abbreviation (input) BSON_TYPE_TIMESTAMP :: u8 where "BSON_TYPE_TIMESTAMP \<equiv> 0x11"
abbreviation (input) BSON_TYPE_INT64 :: u8 where "BSON_TYPE_INT64 \<equiv> 0x12"
abbreviation (input) BSON_TYPE_DECIMAL128 :: u8 where "BSON_TYPE_DECIMAL128 \<equiv> 0x13"
abbreviation (input) BSON_TYPE_MAXKEY :: u8 where "BSON_TYPE_MAXKEY \<equiv> 0x7F"
abbreviation (input) BSON_TYPE_MINKEY :: u8 where "BSON_TYPE_MINKEY \<equiv> 0xFF"

section \<open>bson\_subtype\_t\<close>

abbreviation (input) BSON_SUBTYPE_BINARY :: u8 where "BSON_SUBTYPE_BINARY \<equiv> 0x00"
abbreviation (input) BSON_SUBTYPE_BINARY_DEPRECATED :: u8 where "BSON_SUBTYPE_BINARY_DEPRECATED \<equiv> 0x02"

section \<open>bson\_decimal128\_t and bson\_value\_t\<close>

record bson_decimal128_t =
  dec_low :: u64
  dec_high :: u64

text \<open>
  The tagged union: one constructor per type code, with the members of the
  union's struct. A \<^verbatim>\<open>char *\<close> or \<^verbatim>\<open>uint8_t *\<close> member is the memory it points
  to; a double is its 64-bit pattern.
\<close>

datatype bson_value_t =
    V_DOUBLE u64
  | V_UTF8 bytes u32
  | V_DOCUMENT bytes u32
  | V_ARRAY bytes u32
  | V_BINARY u8 bytes u32
  | V_UNDEFINED
  | V_OID bytes
  | V_BOOL bool
  | V_DATE_TIME u64
  | V_NULL
  | V_REGEX bytes bytes
  | V_DBPOINTER bytes u32 bytes
  | V_CODE bytes u32
  | V_SYMBOL bytes u32
  | V_CODEWSCOPE bytes u32 bytes u32
  | V_INT32 u32
  | V_TIMESTAMP u32 u32
  | V_INT64 u64
  | V_DECIMAL128 bson_decimal128_t
  | V_MAXKEY
  | V_MINKEY

end
