(* ===== verification/Bson_Iter.thy ===== *)
theory Bson_Iter
  imports Bson_Types
begin

text \<open>
  \<^verbatim>\<open>bson-iter.c\<close>, first half: the iterator record, its initialisation, and
  \<^verbatim>\<open>_bson_iter_next_internal\<close>, which decodes one element of an untrusted buffer.
\<close>

section \<open>The iterator\<close>

text \<open>
  \<^verbatim>\<open>raw\<close> is a pointer (\<open>None\<close> for \<^verbatim>\<open>NULL\<close>): the bytes from there to the end of the
  object it points into. The member \<^verbatim>\<open>value\<close>, scratch space of
  \<^verbatim>\<open>bson_iter_value\<close>, is the result of that function in the model.
\<close>

record bson_iter_t =
  iter_raw :: "bytes option"
  iter_len :: u32
  iter_off :: u32
  iter_type :: u32
  iter_key :: u32
  iter_d1 :: u32
  iter_d2 :: u32
  iter_d3 :: u32
  iter_d4 :: u32
  iter_next_off :: u32
  iter_err_off :: u32

definition iter_zero :: bson_iter_t where
  "iter_zero = \<lparr>iter_raw = None, iter_len = 0, iter_off = 0, iter_type = 0, iter_key = 0,
     iter_d1 = 0, iter_d2 = 0, iter_d3 = 0, iter_d4 = 0, iter_next_off = 0, iter_err_off = 0\<rparr>"

definition iter_start :: "bytes \<Rightarrow> u32 \<Rightarrow> bson_iter_t" where
  "iter_start data len = \<lparr>iter_raw = Some data, iter_len = len, iter_off = 0, iter_type = 0,
     iter_key = 0, iter_d1 = 0, iter_d2 = 0, iter_d3 = 0, iter_d4 = 0, iter_next_off = 4,
     iter_err_off = 0\<rparr>"

text \<open>\<^verbatim>\<open>bson_iter_init\<close>: the document is given by its data pointer and its \<^verbatim>\<open>len\<close>.\<close>

definition bson_iter_init :: "bytes \<Rightarrow> u32 \<Rightarrow> bool \<times> bson_iter_t" where
  "bson_iter_init data len = (if len < 5 then (False, iter_zero) else (True, iter_start data len))"

definition bson_iter_init_from_data :: "bytes \<Rightarrow> u64 \<Rightarrow> (bool \<times> bson_iter_t) c" where
  "bson_iter_init_from_data data n =
     (if n < 5 \<or> n > of_nat INT_MAX then Inr (False, iter_zero)
      else bindc (load32 data 0) (\<lambda>len_le.
        if ucast len_le \<noteq> n then Inr (False, iter_zero)
        else bindc (load8 data (unat (n - 1))) (\<lambda>b.
          if b \<noteq> 0 then Inr (False, iter_zero)
          else Inr (True, iter_start data (ucast n)))))"

section \<open>Decoding one element\<close>

text \<open>The loop \<^verbatim>\<open>for (; o < len; o++) if (!data[o])\<close>: the index of the first NUL, if any.\<close>

function scan_nul :: "bytes \<Rightarrow> u32 \<Rightarrow> u32 \<Rightarrow> u32 option c" where
  "scan_nul data o' len =
     (if o' < len
      then bindc (load8 data (unat o')) (\<lambda>b. if b = 0 then Inr (Some o') else scan_nul data (o' + 1) len)
      else Inr None)"
  by pat_completeness auto
termination
proof (relation "measure (\<lambda>(data, o', len). unat len - unat o')")
  fix data :: bytes and o' len :: u32 and b :: u8
  assume "o' < len"
  then have "unat (o' + 1) = unat o' + 1"
    using unat_u32_lt [of len] by (simp add: u32_add u32_less)
  with \<open>o' < len\<close> show "((data, o' + 1, len), data, o', len) \<in> measure (\<lambda>(data, o', len). unat len - unat o')"
    by (simp add: u32_less)
qed simp

declare scan_nul.simps [simp del]

text \<open>
  The cases of the \<^verbatim>\<open>switch\<close>. Each returns the updated iterator, the offset \<^verbatim>\<open>o\<close>
  (which only the regular-expression case moves) and whether the code falls to
  the end of the switch; \<open>False\<close> is \<^verbatim>\<open>goto mark_invalid\<close>.
\<close>

type_synonym fill = "(bson_iter_t \<times> u32 \<times> bool) c"

definition iter_fail :: "bson_iter_t \<Rightarrow> u32 \<Rightarrow> u32 \<Rightarrow> fill" where
  "iter_fail it o' err = Inr (it\<lparr>iter_err_off := err\<rparr>, o', False)"

definition iter_fill_utf8 :: "bytes \<Rightarrow> u32 \<Rightarrow> u32 \<Rightarrow> bson_iter_t \<Rightarrow> fill" where
  "iter_fill_utf8 data len o' it =
     (if o' + 4 \<ge> len then iter_fail it o' o'
      else let it = it\<lparr>iter_d2 := o' + 4\<rparr>
      in bindc (load32 data (unat (iter_d1 it))) (\<lambda>l.
        if l > len - (o' + 4) then iter_fail it o' o'
        else let it = it\<lparr>iter_next_off := o' + 4 + l\<rparr>
        in if l = 0 \<or> iter_next_off it \<ge> len then iter_fail it o' o'
        else bindc (load8 data (unat (iter_d2 it) + unat (l - 1))) (\<lambda>b.
          if b \<noteq> 0 then iter_fail it o' (o' + 4 + l - 1)
          else Inr (it, o', True))))"

definition iter_fill_binary :: "bytes \<Rightarrow> u32 \<Rightarrow> u32 \<Rightarrow> bson_iter_t \<Rightarrow> fill" where
  "iter_fill_binary data len o' it =
     (if o' \<ge> len - 4 then iter_fail it o' o'
      else let it = it\<lparr>iter_d2 := o' + 4, iter_d3 := o' + 5\<rparr>
      in bindc (load32 data (unat (iter_d1 it))) (\<lambda>l.
        if l \<ge> len - o' then iter_fail it o' o'
        else bindc (load8 data (unat (iter_d2 it))) (\<lambda>subtype.
          if subtype = BSON_SUBTYPE_BINARY_DEPRECATED
          then if l < 4 then iter_fail it o' o'
            else bindc (load32 data (unat (iter_d3 it))) (\<lambda>binary_len.
              if binary_len + 4 \<noteq> l then iter_fail it o' (iter_d3 it)
              else Inr (it\<lparr>iter_next_off := o' + 5 + l\<rparr>, o', True))
          else Inr (it\<lparr>iter_next_off := o' + 5 + l\<rparr>, o', True))))"

definition iter_fill_document :: "bytes \<Rightarrow> u32 \<Rightarrow> u32 \<Rightarrow> bson_iter_t \<Rightarrow> fill" where
  "iter_fill_document data len o' it =
     (if o' \<ge> len - 4 then iter_fail it o' o'
      else bindc (load32 data (unat (iter_d1 it))) (\<lambda>l.
        if l > len \<or> l > len - o' then iter_fail it o' o'
        else Inr (it\<lparr>iter_next_off := o' + l\<rparr>, o', True)))"

definition iter_fill_bool :: "bytes \<Rightarrow> u32 \<Rightarrow> u32 \<Rightarrow> bson_iter_t \<Rightarrow> fill" where
  "iter_fill_bool data len o' it =
     (if iter_d1 it \<ge> len then iter_fail it o' o'
      else bindc (load8 data (unat (iter_d1 it))) (\<lambda>val.
        if val \<noteq> 0 \<and> val \<noteq> 1 then iter_fail it o' o'
        else Inr (it\<lparr>iter_next_off := o' + 1\<rparr>, o', True)))"

definition iter_fill_regex :: "bytes \<Rightarrow> u32 \<Rightarrow> u32 \<Rightarrow> bson_iter_t \<Rightarrow> fill" where
  "iter_fill_regex data len o' it =
     bindc (scan_nul data o' len) (\<lambda>eor.
       case eor of None \<Rightarrow> iter_fail it o' (iter_next_off it)
       | Some o1 \<Rightarrow>
         let o2 = o1 + 1; it = it\<lparr>iter_d2 := o2\<rparr>
         in bindc (scan_nul data o2 len) (\<lambda>eoo.
           case eoo of None \<Rightarrow> iter_fail it o2 (iter_next_off it)
           | Some o3 \<Rightarrow> Inr (it\<lparr>iter_next_off := o3 + 1\<rparr>, o3, True)))"

definition iter_fill_dbpointer :: "bytes \<Rightarrow> u32 \<Rightarrow> u32 \<Rightarrow> bson_iter_t \<Rightarrow> fill" where
  "iter_fill_dbpointer data len o' it =
     (if o' \<ge> len - 4 then iter_fail it o' o'
      else let it = it\<lparr>iter_d2 := o' + 4\<rparr>
      in bindc (load32 data (unat (iter_d1 it))) (\<lambda>l.
        if l = 0 \<or> l > len - o' - 4 then iter_fail it o' o'
        else bindc (load8 data (unat o' + unat l + 3)) (\<lambda>b.
          if b \<noteq> 0 then iter_fail it o' (o' + l + 3)
          else Inr (it\<lparr>iter_d3 := o' + 4 + l, iter_next_off := o' + 4 + l + 12\<rparr>, o', True))))"

definition iter_fill_codewscope :: "bytes \<Rightarrow> u32 \<Rightarrow> u32 \<Rightarrow> bson_iter_t \<Rightarrow> fill" where
  "iter_fill_codewscope data len o' it =
     (if len < 19 \<or> o' \<ge> len - 14 then iter_fail it o' o'
      else let it = it\<lparr>iter_d2 := o' + 4, iter_d3 := o' + 8\<rparr>
      in bindc (load32 data (unat (iter_d1 it))) (\<lambda>l.
        if l < 14 \<or> l \<ge> len - o' then iter_fail it o' o'
        else let it = it\<lparr>iter_next_off := o' + l\<rparr>
        in if iter_next_off it \<ge> len then iter_fail it o' o'
        else bindc (load32 data (unat (iter_d2 it))) (\<lambda>l.
          if l = 0 \<or> l \<ge> len - o' - 4 - 4 then iter_fail it o' o'
          else if o' + 4 + 4 + l + 4 \<ge> iter_next_off it then iter_fail it o' (o' + 4)
          else let it = it\<lparr>iter_d4 := o' + 4 + 4 + l\<rparr>
          in bindc (load32 data (unat (iter_d4 it))) (\<lambda>doclen.
            if o' + 4 + 4 + l + doclen \<noteq> iter_next_off it then iter_fail it o' (o' + 4 + 4 + l)
            else Inr (it, o', True)))))"

text \<open>The \<^verbatim>\<open>switch\<close>, and the type codes for which it sets \<^verbatim>\<open>*unsupported\<close>.\<close>

definition iter_fill :: "u8 \<Rightarrow> bytes \<Rightarrow> u32 \<Rightarrow> u32 \<Rightarrow> bson_iter_t \<Rightarrow> fill" where
  "iter_fill t data len o' it =
     (if t \<in> {BSON_TYPE_DATE_TIME, BSON_TYPE_DOUBLE, BSON_TYPE_INT64, BSON_TYPE_TIMESTAMP}
      then Inr (it\<lparr>iter_next_off := o' + 8\<rparr>, o', True)
      else if t \<in> {BSON_TYPE_CODE, BSON_TYPE_SYMBOL, BSON_TYPE_UTF8}
      then iter_fill_utf8 data len o' it
      else if t = BSON_TYPE_BINARY then iter_fill_binary data len o' it
      else if t \<in> {BSON_TYPE_ARRAY, BSON_TYPE_DOCUMENT} then iter_fill_document data len o' it
      else if t = BSON_TYPE_OID then Inr (it\<lparr>iter_next_off := o' + 12\<rparr>, o', True)
      else if t = BSON_TYPE_BOOL then iter_fill_bool data len o' it
      else if t = BSON_TYPE_REGEX then iter_fill_regex data len o' it
      else if t = BSON_TYPE_DBPOINTER then iter_fill_dbpointer data len o' it
      else if t = BSON_TYPE_CODEWSCOPE then iter_fill_codewscope data len o' it
      else if t = BSON_TYPE_INT32 then Inr (it\<lparr>iter_next_off := o' + 4\<rparr>, o', True)
      else if t = BSON_TYPE_DECIMAL128 then Inr (it\<lparr>iter_next_off := o' + 16\<rparr>, o', True)
      else if t \<in> {BSON_TYPE_MAXKEY, BSON_TYPE_MINKEY, BSON_TYPE_NULL, BSON_TYPE_UNDEFINED}
      then Inr (it\<lparr>iter_d1 := - 1, iter_next_off := o'\<rparr>, o', True)
      else iter_fail it o' o')"

definition iter_unsupported :: "u8 \<Rightarrow> bool" where
  "iter_unsupported t \<longleftrightarrow> \<not> (t \<le> BSON_TYPE_DECIMAL128 \<or> t = BSON_TYPE_MAXKEY \<or> t = BSON_TYPE_MINKEY)"

definition mark_invalid :: "bson_iter_t \<Rightarrow> bson_iter_t" where
  "mark_invalid it = it\<lparr>iter_raw := None, iter_len := 0, iter_next_off := 0\<rparr>"

text \<open>
  The results of \<^verbatim>\<open>_bson_iter_next_internal\<close>: its return value, the iterator, and
  the out-parameters; \<open>None\<close> for the key and type that the function leaves
  unassigned (or, for the key, sets to \<^verbatim>\<open>NULL\<close>).
\<close>

record iter_step =
  step_ok :: bool
  step_iter :: bson_iter_t
  step_key :: "bytes option"
  step_type :: "u8 option"
  step_unsupported :: bool

definition iter_enter :: "bson_iter_t \<Rightarrow> bson_iter_t" where
  "iter_enter it = it\<lparr>iter_off := iter_next_off it, iter_type := iter_next_off it,
     iter_key := iter_next_off it + 1, iter_d1 := 0, iter_d2 := 0, iter_d3 := 0, iter_d4 := 0\<rparr>"

text \<open>From the end of the \<^verbatim>\<open>switch\<close> to the end of the function.\<close>

definition iter_finish :: "u8 \<Rightarrow> bytes \<Rightarrow> u32 \<Rightarrow> bson_iter_t \<times> u32 \<times> bool \<Rightarrow> iter_step" where
  "iter_finish t key len r =
     (case r of (it, o', ok) \<Rightarrow>
        if ok \<and> \<not> iter_next_off it \<ge> len
        then \<lparr>step_ok = True, step_iter = it\<lparr>iter_err_off := 0\<rparr>, step_key = Some key,
               step_type = Some t, step_unsupported = False\<rparr>
        else \<lparr>step_ok = False,
               step_iter = mark_invalid (if ok then it\<lparr>iter_err_off := o'\<rparr> else it),
               step_key = Some key, step_type = Some t, step_unsupported = iter_unsupported t\<rparr>)"

definition bson_iter_next_internal :: "bson_iter_t \<Rightarrow> iter_step c" where
  "bson_iter_next_internal it =
     (case iter_raw it of
        None \<Rightarrow> Inr \<lparr>step_ok = False, step_iter = it, step_key = None,
                 step_type = Some BSON_TYPE_EOD, step_unsupported = False\<rparr>
      | Some data \<Rightarrow>
        let len = iter_len it; it = iter_enter it
        in bindc (scan_nul data (iter_off it + 1) len) (\<lambda>r.
          case r of
            None \<Rightarrow> Inr \<lparr>step_ok = False, step_iter = mark_invalid it, step_key = None,
                     step_type = None, step_unsupported = False\<rparr>
          | Some k \<Rightarrow>
            let o' = k + 1; it = it\<lparr>iter_d1 := o'\<rparr>; key = drop (unat (iter_key it)) data
            in bindc (load8 data (unat (iter_type it))) (\<lambda>t.
              bindc (iter_fill t data len o' it) (\<lambda>r. Inr (iter_finish t key len r)))))"

definition bson_iter_next :: "bson_iter_t \<Rightarrow> (bool \<times> bson_iter_t) c" where
  "bson_iter_next it = bindc (bson_iter_next_internal it) (\<lambda>s. Inr (step_ok s, step_iter s))"

section \<open>Where a decoded element lies\<close>

text \<open>
  The facts about the data offsets that a successful \<^verbatim>\<open>_bson_iter_next_internal\<close>
  establishes for each type code; the accessors rest on them.
\<close>

definition elem_ok :: "u8 \<Rightarrow> bytes \<Rightarrow> bson_iter_t \<Rightarrow> bool" where
  "elem_ok t data it \<longleftrightarrow>
     (let d1 = unat (iter_d1 it); d2 = unat (iter_d2 it); d3 = unat (iter_d3 it);
          d4 = unat (iter_d4 it); n = unat (iter_next_off it); l = le32_at data d1
      in if t \<in> {BSON_TYPE_DATE_TIME, BSON_TYPE_DOUBLE, BSON_TYPE_INT64, BSON_TYPE_TIMESTAMP}
      then n = d1 + 8
      else if t \<in> {BSON_TYPE_CODE, BSON_TYPE_SYMBOL, BSON_TYPE_UTF8}
      then d2 = d1 + 4 \<and> l \<noteq> 0 \<and> n = d2 + unat l \<and> data ! (n - 1) = 0
      else if t = BSON_TYPE_BINARY
      then d2 = d1 + 4 \<and> d3 = d1 + 5 \<and> n = d3 + unat l \<and>
           (data ! d2 = BSON_SUBTYPE_BINARY_DEPRECATED \<longrightarrow> 4 \<le> unat l \<and> le32_at data d3 + 4 = l)
      else if t \<in> {BSON_TYPE_ARRAY, BSON_TYPE_DOCUMENT}
      then d1 + 4 < unat (iter_len it) \<and> n = d1 + unat l
      else if t = BSON_TYPE_OID then n = d1 + 12
      else if t = BSON_TYPE_BOOL then n = d1 + 1 \<and> data ! d1 \<in> {0, 1}
      else if t = BSON_TYPE_REGEX
      then d1 < d2 \<and> d2 < n \<and> data ! (d2 - 1) = 0 \<and> data ! (n - 1) = 0
      else if t = BSON_TYPE_DBPOINTER
      then d2 = d1 + 4 \<and> l \<noteq> 0 \<and> d3 = d2 + unat l \<and> data ! (d3 - 1) = 0 \<and> n = d3 + 12
      else if t = BSON_TYPE_CODEWSCOPE
      then d2 = d1 + 4 \<and> d3 = d1 + 8 \<and> le32_at data d2 \<noteq> 0 \<and> d4 = d3 + unat (le32_at data d2) \<and>
           d4 + 4 < n \<and> n = d1 + unat l \<and> n = d4 + unat (le32_at data d4)
      else if t = BSON_TYPE_INT32 then n = d1 + 4
      else if t = BSON_TYPE_DECIMAL128 then n = d1 + 16
      else t \<in> {BSON_TYPE_MAXKEY, BSON_TYPE_MINKEY, BSON_TYPE_NULL, BSON_TYPE_UNDEFINED} \<and> iter_d1 it = - 1)"

text \<open>What a case of the switch leaves of the iterator, and what it establishes on success.\<close>

definition fill_post :: "u8 \<Rightarrow> bytes \<Rightarrow> u32 \<Rightarrow> bson_iter_t \<Rightarrow> bson_iter_t \<times> u32 \<times> bool \<Rightarrow> bool" where
  "fill_post t data p it r \<longleftrightarrow>
     (case r of (it', _, ok) \<Rightarrow>
        iter_raw it' = iter_raw it \<and> iter_len it' = iter_len it \<and> iter_off it' = iter_off it \<and>
        iter_type it' = iter_type it \<and> iter_key it' = iter_key it \<and>
        (ok \<longrightarrow> elem_ok t data it' \<and> unat p \<le> unat (iter_next_off it') \<and> unat p \<le> unat (iter_d1 it')))"

text \<open>
  The one element on which the decoder reads past the end of the buffer: a
  binary of the deprecated subtype whose outer length passes the check
  \<^verbatim>\<open>l >= (len - o)\<close> although fewer than nine bytes are left for it.
\<close>

definition binary_overread :: "bytes \<Rightarrow> u32 \<Rightarrow> nat \<Rightarrow> bool" where
  "binary_overread data len p \<longleftrightarrow>
     p + 4 < unat len \<and> unat (le32_at data p) < unat len - p \<and> 4 \<le> unat (le32_at data p) \<and>
     data ! (p + 4) = BSON_SUBTYPE_BINARY_DEPRECATED \<and> length data < p + 9"

section \<open>Lemmas\<close>


lemma scan_nul_total:
  "unat len \<le> length data \<Longrightarrow> \<exists>r. scan_nul data p len = Inr r"
proof (induction data p len rule: scan_nul.induct)
  case (1 data p len)
  show ?case
  proof (cases "p < len")
    case True
    then have "unat p < length data" using "1.prems" by (simp add: u32_less)
    with True "1.IH" [OF True] "1.prems" show ?thesis
      by (subst scan_nul.simps) (simp add: mem_simps)
  qed (subst scan_nul.simps, simp)
qed

lemma scan_nul_Some:
  "scan_nul data p len = Inr (Some k) \<Longrightarrow>
   p \<le> k \<and> k < len \<and> unat k < length data \<and> data ! unat k = 0 \<and> (\<forall>j. unat p \<le> j \<and> j < unat k \<longrightarrow> data ! j \<noteq> 0)"
proof (induction data p len rule: scan_nul.induct)
  case (1 data p len)
  have lt: "p < len" and b: "unat p < length data"
    using "1.prems" by (subst (asm) scan_nul.simps, auto simp: bindc_eq_Inr load8_Inr split: if_splits)+
  have suc: "unat (p + 1) = unat p + 1"
    using lt unat_u32_lt [of len] by (simp add: u32_add u32_less)
  show ?case
  proof (cases "data ! unat p = 0")
    case True
    with "1.prems" lt b have "k = p"
      by (subst (asm) scan_nul.simps) (simp add: mem_simps)
    with True lt b show ?thesis by auto
  next
    case False
    with "1.prems" lt b have rec: "scan_nul data (p + 1) len = Inr (Some k)"
      by (subst (asm) scan_nul.simps) (simp add: mem_simps)
    from "1.IH" [OF lt False rec]
    have ih: "unat p + 1 \<le> unat k" "k < len" "unat k < length data" "data ! unat k = 0"
      "\<And>j. unat p + 1 \<le> j \<Longrightarrow> j < unat k \<Longrightarrow> data ! j \<noteq> 0"
      by (auto simp: u32_le suc)
    have "data ! j \<noteq> 0" if "unat p \<le> j" "j < unat k" for j
      using that ih(5) [of j] False by (cases "j = unat p") auto
    with ih show ?thesis by (auto simp: u32_le)
  qed
qed


text \<open>
  The situation in which the switch is reached: the key's terminator was found
  below \<^verbatim>\<open>len\<close>, \<open>p\<close> is the offset after it, and the buffer is at least \<^verbatim>\<open>len\<close> long.
\<close>

definition fill_pre :: "bytes \<Rightarrow> u32 \<Rightarrow> u32 \<Rightarrow> bson_iter_t \<Rightarrow> bool" where
  "fill_pre data len p it \<longleftrightarrow>
     unat len \<le> length data \<and> unat len \<le> 2147483647 \<and> 5 \<le> unat p \<and> unat p \<le> unat len \<and>
     iter_d1 it = p \<and> iter_len it = len"

lemmas fill_simps = iter_fail_def Let_def u32_arith u32_add u32_sub u32_pred u32_neq_0 wp
  not_le not_less fill_post_def elem_ok_def fill_pre_def

lemma fill_utf8:
  assumes "fill_pre data len p it" and "t \<in> {BSON_TYPE_CODE, BSON_TYPE_SYMBOL, BSON_TYPE_UTF8}"
  shows "wpc (iter_fill_utf8 data len p it) (fill_post t data p it)"
  using assms by (auto simp: iter_fill_utf8_def fill_simps)

lemma fill_document:
  assumes "fill_pre data len p it" and "t \<in> {BSON_TYPE_ARRAY, BSON_TYPE_DOCUMENT}"
  shows "wpc (iter_fill_document data len p it) (fill_post t data p it)"
  using assms by (auto simp: iter_fill_document_def fill_simps)

lemma fill_bool:
  assumes "fill_pre data len p it"
  shows "wpc (iter_fill_bool data len p it) (fill_post BSON_TYPE_BOOL data p it)"
  using assms by (auto simp: iter_fill_bool_def fill_simps)

lemma fill_dbpointer:
  assumes "fill_pre data len p it"
  shows "wpc (iter_fill_dbpointer data len p it) (fill_post BSON_TYPE_DBPOINTER data p it)"
  using assms by (auto simp: iter_fill_dbpointer_def fill_simps) (simp add: add.commute)

text \<open>The sum of lengths compared with \<^verbatim>\<open>next_off\<close> is exact, although computed modulo \<open>2^32\<close>.\<close>

lemma codewscope_lengths:
  assumes "8 + (a + d) = (l :: u32)" and "12 + unat a < unat l"
  shows "unat l = 8 + (unat a + unat d)"
proof -
  have "unat (8 :: u32) \<le> unat l" and "unat a \<le> unat (l - 8)"
    using assms(2) by (simp_all add: u32_sub)
  then have "unat (l - 8 - a) = unat l - 8 - unat a"
    by (simp add: u32_sub)
  moreover have "l - 8 - a = d"
    using assms(1) by (auto simp: algebra_simps)
  ultimately show ?thesis
    using assms(2) by simp
qed

lemma fill_codewscope:
  assumes "fill_pre data len p it"
  shows "wpc (iter_fill_codewscope data len p it) (fill_post BSON_TYPE_CODEWSCOPE data p it)"
  using assms by (auto simp: iter_fill_codewscope_def fill_simps) (rule codewscope_lengths)

lemma fill_binary:
  assumes "fill_pre data len p it" and "\<not> binary_overread data len (unat p)"
  shows "wpc (iter_fill_binary data len p it) (fill_post BSON_TYPE_BINARY data p it)"
  using assms by (auto simp: iter_fill_binary_def binary_overread_def fill_simps)

lemma fill_binary_overread:
  assumes "fill_pre data len p it" and "binary_overread data len (unat p)"
  shows "iter_fill_binary data len p it = Inl OutOfBounds"
  using assms by (auto simp: iter_fill_binary_def binary_overread_def iter_fail_def Let_def
      u32_arith u32_add u32_sub load32_cases load8_def fill_pre_def)

lemma fill_regex:
  assumes "fill_pre data len p it"
  shows "wpc (iter_fill_regex data len p it) (fill_post BSON_TYPE_REGEX data p it)"
proof -
  have len: "unat len \<le> length data" "unat len \<le> 2147483647" "iter_d1 it = p"
    using assms by (simp_all add: fill_pre_def)
  obtain r where r: "scan_nul data p len = Inr r"
    using scan_nul_total [OF len(1)] by blast
  show ?thesis
  proof (cases r)
    case None
    then show ?thesis
      by (simp add: iter_fill_regex_def r iter_fail_def fill_post_def)
  next
    case (Some k)
    obtain q where q: "scan_nul data (k + 1) len = Inr q"
      using scan_nul_total [OF len(1)] by blast
    have k: "p \<le> k" "k < len" "data ! unat k = 0" and k1: "unat (k + 1) = unat k + 1"
      using scan_nul_Some [OF r [unfolded Some]] len(2) by (auto simp: u32_add u32_arith)
    show ?thesis
    proof (cases q)
      case None
      with r q Some show ?thesis
        by (simp add: iter_fill_regex_def iter_fail_def fill_post_def Let_def)
    next
      case (Some e)
      have e: "k + 1 \<le> e" "e < len" "data ! unat e = 0" and e1: "unat (e + 1) = unat e + 1"
        using scan_nul_Some [OF q [unfolded Some]] len(2) by (auto simp: u32_add u32_arith)
      from r q \<open>r = Some k\<close> Some k e k1 e1 len(3) show ?thesis
        by (auto simp: iter_fill_regex_def fill_post_def Let_def elem_ok_def u32_arith)
    qed
  qed
qed

lemma fill_any:
  assumes "fill_pre data len p it" and "t = BSON_TYPE_BINARY \<Longrightarrow> \<not> binary_overread data len (unat p)"
  shows "wpc (iter_fill t data len p it) (fill_post t data p it)"
  using assms fill_utf8 [OF assms(1), of t] fill_document [OF assms(1), of t] fill_bool [OF assms(1)]
    fill_dbpointer [OF assms(1)] fill_codewscope [OF assms(1)] fill_regex [OF assms(1)]
    fill_binary [OF assms(1)]
  by (auto simp: iter_fill_def iter_fail_def fill_post_def fill_pre_def elem_ok_def Let_def u32_add
      u32_le_max split: if_splits)

section \<open>The iterator invariant\<close>

text \<open>
  \<open>iter_wf\<close>: the buffer holds at least \<^verbatim>\<open>len\<close> bytes, \<^verbatim>\<open>len\<close> is at most \<^verbatim>\<open>INT_MAX\<close>, and
  the next element starts inside it. \<open>iter_on\<close>: the iterator stands on a
  decoded element of type \<open>t\<close>.
\<close>

definition iter_wf :: "bson_iter_t \<Rightarrow> bool" where
  "iter_wf it \<longleftrightarrow>
     (case iter_raw it of None \<Rightarrow> True
      | Some data \<Rightarrow> unat (iter_len it) \<le> length data \<and> unat (iter_len it) \<le> INT_MAX \<and>
          4 \<le> unat (iter_next_off it) \<and> unat (iter_next_off it) \<le> max 4 (unat (iter_len it)))"

definition iter_on :: "u8 \<Rightarrow> bytes \<Rightarrow> bson_iter_t \<Rightarrow> bool" where
  "iter_on t data it \<longleftrightarrow>
     iter_raw it = Some data \<and> unat (iter_len it) \<le> length data \<and> unat (iter_len it) \<le> INT_MAX \<and>
     data ! unat (iter_type it) = t \<and> iter_off it = iter_type it \<and>
     unat (iter_key it) = unat (iter_type it) + 1 \<and> 4 \<le> unat (iter_type it) \<and>
     unat (iter_type it) + 2 \<le> unat (iter_next_off it) \<and>
     iter_next_off it < iter_len it \<and> elem_ok t data it \<and>
     (\<exists>k. unat (iter_key it) \<le> k \<and> k < unat (iter_next_off it) \<and> data ! k = 0 \<and> k < unat (iter_d1 it))"

definition next_post :: "bson_iter_t \<Rightarrow> bytes \<Rightarrow> iter_step \<Rightarrow> bool" where
  "next_post it data s \<longleftrightarrow>
     (if step_ok s
      then (\<exists>t. step_type s = Some t \<and> iter_on t data (step_iter s)) \<and>
        iter_len (step_iter s) = iter_len it \<and> iter_type (step_iter s) = iter_next_off it \<and>
        iter_err_off (step_iter s) = 0 \<and>
        step_key s = Some (drop (unat (iter_key (step_iter s))) data)
      else iter_raw (step_iter s) = None)"

text \<open>The element the iterator moves to next is the one on which the decoder reads too far.\<close>

definition next_overreads :: "bson_iter_t \<Rightarrow> bool" where
  "next_overreads it \<longleftrightarrow>
     (\<exists>data k. iter_raw it = Some data \<and>
        scan_nul data (iter_next_off it + 1) (iter_len it) = Inr (Some k) \<and>
        data ! unat (iter_next_off it) = BSON_TYPE_BINARY \<and>
        binary_overread data (iter_len it) (unat k + 1))"

lemma iter_wf_start: "unat len \<le> length data \<Longrightarrow> unat len \<le> INT_MAX \<Longrightarrow> iter_wf (iter_start data len)"
  by (simp add: iter_wf_def iter_start_def)

lemma iter_wf_zero [simp]: "iter_wf iter_zero"
  by (simp add: iter_wf_def iter_zero_def)

lemma iter_on_wf: "iter_on t data it \<Longrightarrow> iter_wf it"
  by (auto simp: iter_on_def iter_wf_def u32_less)

lemma iter_on_raw: "iter_on t data it \<Longrightarrow> iter_raw it = Some data"
  by (simp add: iter_on_def)

lemma iter_enter_sel [simp]:
  "iter_raw (iter_enter it) = iter_raw it" "iter_len (iter_enter it) = iter_len it"
  "iter_off (iter_enter it) = iter_next_off it" "iter_type (iter_enter it) = iter_next_off it"
  "iter_key (iter_enter it) = iter_next_off it + 1" "iter_next_off (iter_enter it) = iter_next_off it"
  by (simp_all add: iter_enter_def)

lemma next_None: "iter_raw it = None \<Longrightarrow>
    wpc (bson_iter_next_internal it) (\<lambda>s. \<not> step_ok s \<and> step_iter s = it)"
  by (simp add: bson_iter_next_internal_def)

lemma next_scan:
  assumes "iter_wf it" and "iter_raw it = Some data"
  obtains r where "scan_nul data (iter_next_off it + 1) (iter_len it) = Inr r"
    and "unat (iter_next_off it + 1) = unat (iter_next_off it) + 1"
proof -
  from assms have "unat (iter_len it) \<le> length data" and "unat (iter_next_off it) \<le> max 4 INT_MAX"
    by (auto simp: iter_wf_def)
  with scan_nul_total [of "iter_len it" data] show ?thesis
    using that by (auto simp: INT_MAX_def u32_add)
qed

lemma next_found:
  assumes wf: "iter_wf it" and raw: "iter_raw it = Some data"
    and k: "scan_nul data (iter_next_off it + 1) (iter_len it) = Inr (Some k)"
  shows "unat (iter_next_off it) < unat k" and "unat k < unat (iter_len it)" and "data ! unat k = 0"
    and "unat (k + 1) = unat k + 1" and "unat (iter_next_off it) < length data"
    and "fill_pre data (iter_len it) (k + 1)
      ((iter_enter it)\<lparr>iter_d1 := k + 1\<rparr>)"
proof -
  obtain suc: "unat (iter_next_off it + 1) = unat (iter_next_off it) + 1"
    using next_scan [OF wf raw] .
  from wf raw have len: "unat (iter_len it) \<le> length data" "unat (iter_len it) \<le> 2147483647"
    "4 \<le> unat (iter_next_off it)"
    by (auto simp: iter_wf_def INT_MAX_def)
  from scan_nul_Some [OF k] show no: "unat (iter_next_off it) < unat k" and kl: "unat k < unat (iter_len it)"
    and "data ! unat k = 0"
    by (auto simp: u32_arith suc)
  show k1: "unat (k + 1) = unat k + 1"
    using kl len by (simp add: u32_add)
  show "unat (iter_next_off it) < length data"
    using no kl len by simp
  show "fill_pre data (iter_len it) (k + 1)
      ((iter_enter it)\<lparr>iter_d1 := k + 1\<rparr>)"
    using no kl len k1 by (simp add: fill_pre_def)
qed

lemma next_internal_post:
  assumes wf: "iter_wf it" and raw: "iter_raw it = Some data" and safe: "\<not> next_overreads it"
  shows "wpc (bson_iter_next_internal it) (next_post it data)"
proof -
  obtain r where r: "scan_nul data (iter_next_off it + 1) (iter_len it) = Inr r"
    and suc: "unat (iter_next_off it + 1) = unat (iter_next_off it) + 1"
    using next_scan [OF wf raw] .
  show ?thesis
  proof (cases r)
    case None
    with raw r show ?thesis
      by (simp add: bson_iter_next_internal_def Let_def next_post_def mark_invalid_def)
  next
    case (Some k)
    let ?it = "(iter_enter it)\<lparr>iter_d1 := k + 1\<rparr>"
    let ?t = "data ! unat (iter_next_off it)"
    note found = next_found [OF wf raw r [unfolded Some]]
    have "?t = BSON_TYPE_BINARY \<Longrightarrow> \<not> binary_overread data (iter_len it) (unat (k + 1))"
      using safe raw r Some by (auto simp: next_overreads_def found(4))
    then have fill: "wpc (iter_fill ?t data (iter_len it) (k + 1) ?it) (fill_post ?t data (k + 1) ?it)"
      by (rule fill_any [OF found(6)])
    have post: "iter_on ?t data it'"
      if "fill_post ?t data (k + 1) ?it (it', p', True)" and "unat (iter_next_off it') < unat (iter_len it)"
      for it' p'
      using that found wf raw suc
      by (auto simp: fill_post_def iter_on_def iter_wf_def u32_less intro!: exI [of _ "unat k"])
    have err: "elem_ok t data (it'\<lparr>iter_err_off := e\<rparr>) = elem_ok t data it'" for t it' e
      by (simp add: elem_ok_def Let_def)
    have on_err: "iter_on t data (it'\<lparr>iter_err_off := e\<rparr>) = iter_on t data it'" for t it' e
      by (simp add: iter_on_def err)
    have "bson_iter_next_internal it = bindc (iter_fill ?t data (iter_len it) (k + 1) ?it)
        (\<lambda>r. Inr (iter_finish ?t (drop (unat (iter_next_off it + 1)) data) (iter_len it) r))"
      using raw r Some found(5) by (simp add: bson_iter_next_internal_def Let_def load8_in)
    then show ?thesis
      by (auto intro!: wpc_mono [OF fill] post simp: wpc_bindc next_post_def mark_invalid_def on_err
          iter_finish_def fill_post_def u32_less u32_le not_le)
  qed
qed

lemma next_internal_overread:
  assumes wf: "iter_wf it" and over: "next_overreads it"
  shows "bson_iter_next_internal it = Inl OutOfBounds"
proof -
  from over obtain data k where raw: "iter_raw it = Some data"
    and k: "scan_nul data (iter_next_off it + 1) (iter_len it) = Inr (Some k)"
    and t: "data ! unat (iter_next_off it) = BSON_TYPE_BINARY"
    and bin: "binary_overread data (iter_len it) (unat k + 1)"
    by (auto simp: next_overreads_def)
  note found = next_found [OF wf raw k]
  have "iter_fill_binary data (iter_len it) (k + 1)
     ((iter_enter it)\<lparr>iter_d1 := k + 1\<rparr>) = Inl OutOfBounds"
    using bin by (intro fill_binary_overread [OF found(6)]) (simp add: found(4))
  with raw k t found(5) show ?thesis
    by (simp add: bson_iter_next_internal_def Let_def load8_in iter_fill_def)
qed

end
