(* ===== verification/C_Double.thy ===== *)
theory C_Double
  imports Prelude
begin

text \<open>
  The C type \<^verbatim>\<open>double\<close> as its IEEE 754 binary64 pattern, and the operations the
  sources apply to it: comparison with zero, classification, and the conversions
  to and from 64-bit integers.
\<close>

definition dbl_sign :: "u64 \<Rightarrow> bool" where
  "dbl_sign d = bit d 63"

definition dbl_exp :: "u64 \<Rightarrow> int" where
  "dbl_exp d = uint d div 2 ^ 52 mod 2048"

definition dbl_frac :: "u64 \<Rightarrow> int" where
  "dbl_frac d = uint d mod 2 ^ 52"

text \<open>\<^verbatim>\<open>d == 0.0\<close>: both signed zeros.\<close>

definition dbl_is_zero :: "u64 \<Rightarrow> bool" where
  "dbl_is_zero d \<longleftrightarrow> uint d mod 2 ^ 63 = 0"

definition dbl_is_nan :: "u64 \<Rightarrow> bool" where
  "dbl_is_nan d \<longleftrightarrow> dbl_exp d = 2047 \<and> dbl_frac d \<noteq> 0"

definition dbl_is_inf :: "u64 \<Rightarrow> bool" where
  "dbl_is_inf d \<longleftrightarrow> dbl_exp d = 2047 \<and> dbl_frac d = 0"

text \<open>
  \<^verbatim>\<open>(double) n\<close> for an integer: exact up to 53 bits, otherwise rounded to the
  nearest representable value, ties to the even significand.
\<close>

function int_bits :: "int \<Rightarrow> nat" where
  "int_bits n = (if n \<le> 0 then 0 else Suc (int_bits (n div 2)))"
  by pat_completeness auto
termination
  by (relation "measure nat") auto

declare int_bits.simps [simp del]

definition dbl_pack :: "bool \<Rightarrow> int \<Rightarrow> int \<Rightarrow> u64" where
  "dbl_pack s e f = of_int ((if s then 2 ^ 63 else 0) + e * 2 ^ 52 + f)"

definition round_even :: "int \<Rightarrow> nat \<Rightarrow> int" where
  "round_even m k =
     (let q = m div 2 ^ k; r = 2 * (m mod 2 ^ k)
      in if r < 2 ^ k \<or> (r = 2 ^ k \<and> even q) then q else q + 1)"

definition dbl_of_int :: "int \<Rightarrow> u64" where
  "dbl_of_int n =
     (let m = \<bar>n\<bar>; b = int_bits m
      in if m = 0 then 0
      else if b \<le> 53 then dbl_pack (n < 0) (1022 + int b) (m * 2 ^ (53 - b) - 2 ^ 52)
      else dbl_pack (n < 0) (1022 + int b) (round_even m (b - 53) - 2 ^ 52))"

text \<open>\<^verbatim>\<open>(int64_t) d\<close>: truncation towards zero, defined when the result fits.\<close>

definition dbl_trunc :: "u64 \<Rightarrow> int" where
  "dbl_trunc d =
     (if dbl_exp d < 1023 then 0
      else if dbl_exp d < 1075 then (2 ^ 52 + dbl_frac d) div 2 ^ nat (1075 - dbl_exp d)
      else (2 ^ 52 + dbl_frac d) * 2 ^ nat (dbl_exp d - 1075))"

definition dbl_to_int64 :: "u64 \<Rightarrow> u64 c" where
  "dbl_to_int64 d =
     (let m = dbl_trunc d; v = (if dbl_sign d then - m else m)
      in if dbl_exp d = 2047 \<or> \<not> (- (2 ^ 63) \<le> v \<and> v < 2 ^ 63) then Inl BadConversion
      else Inr (of_int v))"

end
