(* ===== verification/Bson_Access.thy ===== *)
theory Bson_Access
  imports Bson_Iter C_Double
begin

text \<open>
  \<^verbatim>\<open>bson-iter.c\<close>, second half, with the inline accessors of \<^verbatim>\<open>bson-iter.h\<close>: reading
  the element the iterator stands on, descending into sub-documents, searching
  by key, and overwriting a value in place. Each accessor checks the type code
  and returns a default for another type; an accessor of a string or of a block
  of bytes returns a pointer, the bytes from there to the end of the buffer.
\<close>

section \<open>Reading the current element\<close>

definition with_raw :: "bson_iter_t \<Rightarrow> (bytes \<Rightarrow> 'a c) \<Rightarrow> 'a c" where
  "with_raw it f = (case iter_raw it of None \<Rightarrow> Inl OutOfBounds | Some data \<Rightarrow> f data)"

definition ITER_TYPE :: "bson_iter_t \<Rightarrow> u8 c" where
  "ITER_TYPE it = with_raw it (\<lambda>data. load8 data (unat (iter_type it)))"

definition bson_iter_type_unsafe :: "bson_iter_t \<Rightarrow> u8 c" where
  "bson_iter_type_unsafe it = with_raw it (\<lambda>data. load8 data (unat (iter_type it)))"

definition bson_iter_type :: "bson_iter_t \<Rightarrow> u8 c" where
  "bson_iter_type it =
     bindc (c_assert (iter_raw it \<noteq> None)) (\<lambda>_.
     bindc (c_assert (iter_len it \<noteq> 0)) (\<lambda>_. bson_iter_type_unsafe it))"

definition bson_iter_key :: "bson_iter_t \<Rightarrow> bytes c" where
  "bson_iter_key it = with_raw it (\<lambda>data. Inr (drop (unat (iter_key it)) data))"

definition bson_iter_double_unsafe :: "bson_iter_t \<Rightarrow> u64 c" where
  "bson_iter_double_unsafe it = with_raw it (\<lambda>data. load64 data (unat (iter_d1 it)))"

definition bson_iter_int32_unsafe :: "bson_iter_t \<Rightarrow> u32 c" where
  "bson_iter_int32_unsafe it = with_raw it (\<lambda>data. load32 data (unat (iter_d1 it)))"

definition bson_iter_int64_unsafe :: "bson_iter_t \<Rightarrow> u64 c" where
  "bson_iter_int64_unsafe it = with_raw it (\<lambda>data. load64 data (unat (iter_d1 it)))"

definition bson_iter_bool_unsafe :: "bson_iter_t \<Rightarrow> bool c" where
  "bson_iter_bool_unsafe it =
     with_raw it (\<lambda>data. bindc (load8 data (unat (iter_d1 it))) (\<lambda>val. Inr (val \<noteq> 0)))"

definition bson_iter_decimal128_unsafe :: "bson_iter_t \<Rightarrow> bson_decimal128_t c" where
  "bson_iter_decimal128_unsafe it =
     with_raw it (\<lambda>data.
       bindc (load64 data (unat (iter_d1 it))) (\<lambda>low.
       bindc (load64 data (unat (iter_d1 it) + 8)) (\<lambda>high.
         Inr \<lparr>dec_low = low, dec_high = high\<rparr>)))"

text \<open>
  \<^verbatim>\<open>bson_iter_utf8_len_unsafe\<close>: the stored length, read as signed, without the
  terminator; 0 where that is negative.
\<close>

definition bson_iter_utf8_len_unsafe :: "bson_iter_t \<Rightarrow> u32 c" where
  "bson_iter_utf8_len_unsafe it =
     with_raw it (\<lambda>data. bindc (load32 data (unat (iter_d1 it))) (\<lambda>val. Inr (if sint val - 1 < 0 then 0 else val - 1)))"

definition bson_iter_double :: "bson_iter_t \<Rightarrow> u64 c" where
  "bson_iter_double it =
     bindc (ITER_TYPE it) (\<lambda>t. if t = BSON_TYPE_DOUBLE then bson_iter_double_unsafe it else Inr 0)"

definition bson_iter_int32 :: "bson_iter_t \<Rightarrow> u32 c" where
  "bson_iter_int32 it =
     bindc (ITER_TYPE it) (\<lambda>t. if t = BSON_TYPE_INT32 then bson_iter_int32_unsafe it else Inr 0)"

definition bson_iter_int64 :: "bson_iter_t \<Rightarrow> u64 c" where
  "bson_iter_int64 it =
     bindc (ITER_TYPE it) (\<lambda>t. if t = BSON_TYPE_INT64 then bson_iter_int64_unsafe it else Inr 0)"

definition bson_iter_bool :: "bson_iter_t \<Rightarrow> bool c" where
  "bson_iter_bool it =
     bindc (ITER_TYPE it) (\<lambda>t. if t = BSON_TYPE_BOOL then bson_iter_bool_unsafe it else Inr False)"

definition bson_iter_as_bool :: "bson_iter_t \<Rightarrow> bool c" where
  "bson_iter_as_bool it =
     bindc (ITER_TYPE it) (\<lambda>t.
       if t = BSON_TYPE_BOOL then bson_iter_bool it
       else if t = BSON_TYPE_DOUBLE then bindc (bson_iter_double it) (\<lambda>d. Inr (\<not> dbl_is_zero d))
       else if t = BSON_TYPE_INT64 then bindc (bson_iter_int64 it) (\<lambda>v. Inr (v \<noteq> 0))
       else if t = BSON_TYPE_INT32 then bindc (bson_iter_int32 it) (\<lambda>v. Inr (v \<noteq> 0))
       else if t = BSON_TYPE_UTF8 then Inr True
       else if t = BSON_TYPE_NULL \<or> t = BSON_TYPE_UNDEFINED then Inr False
       else Inr True)"

definition bson_iter_as_double :: "bson_iter_t \<Rightarrow> u64 c" where
  "bson_iter_as_double it =
     bindc (ITER_TYPE it) (\<lambda>t.
       if t = BSON_TYPE_BOOL then bindc (bson_iter_bool it) (\<lambda>b. Inr (dbl_of_int (if b then 1 else 0)))
       else if t = BSON_TYPE_DOUBLE then bson_iter_double it
       else if t = BSON_TYPE_INT32 then bindc (bson_iter_int32 it) (\<lambda>v. Inr (dbl_of_int (sint v)))
       else if t = BSON_TYPE_INT64 then bindc (bson_iter_int64 it) (\<lambda>v. Inr (dbl_of_int (sint v)))
       else Inr 0)"

definition bson_iter_as_int64 :: "bson_iter_t \<Rightarrow> u64 c" where
  "bson_iter_as_int64 it =
     bindc (ITER_TYPE it) (\<lambda>t.
       if t = BSON_TYPE_BOOL then bindc (bson_iter_bool it) (\<lambda>b. Inr (if b then 1 else 0))
       else if t = BSON_TYPE_DOUBLE then bindc (bson_iter_double it) dbl_to_int64
       else if t = BSON_TYPE_INT64 then bson_iter_int64 it
       else if t = BSON_TYPE_INT32 then bindc (bson_iter_int32 it) (\<lambda>v. Inr (scast v))
       else Inr 0)"

text \<open>The results for a type that carries bytes: its out-parameters, \<open>None\<close> for \<^verbatim>\<open>NULL\<close>.\<close>

definition bson_iter_binary :: "bson_iter_t \<Rightarrow> (u8 \<times> u32 \<times> bytes option) c" where
  "bson_iter_binary it =
     bindc (ITER_TYPE it) (\<lambda>t.
       if t = BSON_TYPE_BINARY
       then with_raw it (\<lambda>data.
         bindc (load8 data (unat (iter_d2 it))) (\<lambda>subtype.
         bindc (load32 data (unat (iter_d1 it))) (\<lambda>binary_len.
           if subtype = BSON_SUBTYPE_BINARY_DEPRECATED
           then Inr (subtype, binary_len - 4, Some (drop (unat (iter_d3 it) + 4) data))
           else Inr (subtype, binary_len, Some (drop (unat (iter_d3 it)) data)))))
       else Inr (BSON_SUBTYPE_BINARY, 0, None))"

definition bson_iter_decimal128 :: "bson_iter_t \<Rightarrow> bson_decimal128_t option c" where
  "bson_iter_decimal128 it =
     bindc (ITER_TYPE it) (\<lambda>t.
       if t = BSON_TYPE_DECIMAL128 then bindc (bson_iter_decimal128_unsafe it) (\<lambda>d. Inr (Some d))
       else Inr None)"

definition bson_iter_oid :: "bson_iter_t \<Rightarrow> bytes option c" where
  "bson_iter_oid it =
     bindc (ITER_TYPE it) (\<lambda>t.
       if t = BSON_TYPE_OID then with_raw it (\<lambda>data. Inr (Some (drop (unat (iter_d1 it)) data)))
       else Inr None)"

definition bson_iter_regex :: "bson_iter_t \<Rightarrow> (bytes option \<times> bytes option) c" where
  "bson_iter_regex it =
     bindc (ITER_TYPE it) (\<lambda>t.
       if t = BSON_TYPE_REGEX
       then with_raw it (\<lambda>data.
         Inr (Some (drop (unat (iter_d1 it)) data), Some (drop (unat (iter_d2 it)) data)))
       else Inr (None, None))"

text \<open>\<^verbatim>\<open>bson_iter_utf8\<close>, \<^verbatim>\<open>bson_iter_code\<close>, \<^verbatim>\<open>bson_iter_symbol\<close>: one body for three type codes.\<close>

definition iter_string :: "u8 \<Rightarrow> bson_iter_t \<Rightarrow> (bytes option \<times> u32) c" where
  "iter_string code it =
     bindc (ITER_TYPE it) (\<lambda>t.
       if t = code
       then bindc (bson_iter_utf8_len_unsafe it) (\<lambda>l.
         with_raw it (\<lambda>data. Inr (Some (drop (unat (iter_d2 it)) data), l)))
       else Inr (None, 0))"

definition bson_iter_utf8 :: "bson_iter_t \<Rightarrow> (bytes option \<times> u32) c" where
  "bson_iter_utf8 it = iter_string BSON_TYPE_UTF8 it"

definition bson_iter_code :: "bson_iter_t \<Rightarrow> (bytes option \<times> u32) c" where
  "bson_iter_code it = iter_string BSON_TYPE_CODE it"

definition bson_iter_symbol :: "bson_iter_t \<Rightarrow> (bytes option \<times> u32) c" where
  "bson_iter_symbol it = iter_string BSON_TYPE_SYMBOL it"

definition bson_iter_dup_utf8 :: "bson_iter_t \<Rightarrow> (bytes option \<times> u32) c" where
  "bson_iter_dup_utf8 it =
     bindc (bson_iter_utf8 it) (\<lambda>(str, local_length).
       case str of None \<Rightarrow> Inr (None, local_length)
       | Some s \<Rightarrow> bindc (memcpy_from s 0 (unat local_length)) (\<lambda>ret.
           Inr (Some (ret @ [0]), local_length)))"

text \<open>\<^verbatim>\<open>bson_iter_codewscope\<close>: the code, its length, the scope's length and the scope.\<close>

definition bson_iter_codewscope :: "bson_iter_t \<Rightarrow> (bytes option \<times> u32 \<times> u32 \<times> bytes option) c" where
  "bson_iter_codewscope it =
     bindc (ITER_TYPE it) (\<lambda>t.
       if t = BSON_TYPE_CODEWSCOPE
       then with_raw it (\<lambda>data.
         bindc (load32 data (unat (iter_d2 it))) (\<lambda>len.
         bindc (c_assert (len > 0)) (\<lambda>_.
         bindc (load32 data (unat (iter_d4 it))) (\<lambda>scope_len.
           Inr (Some (drop (unat (iter_d3 it)) data), len - 1, scope_len,
                Some (drop (unat (iter_d4 it)) data))))))
       else Inr (None, 0, 0, None))"

text \<open>
  \<^verbatim>\<open>bson_iter_dbpointer\<close>: for another type the length is left as the caller set it,
  which is 0 where the sources use it.
\<close>

definition bson_iter_dbpointer :: "bson_iter_t \<Rightarrow> (u32 \<times> bytes option \<times> bytes option) c" where
  "bson_iter_dbpointer it =
     bindc (ITER_TYPE it) (\<lambda>t.
       if t = BSON_TYPE_DBPOINTER
       then with_raw it (\<lambda>data.
         bindc (load32 data (unat (iter_d1 it))) (\<lambda>collection_len.
           Inr (if collection_len > 0 then collection_len - 1 else collection_len,
                Some (drop (unat (iter_d2 it)) data), Some (drop (unat (iter_d3 it)) data))))
       else Inr (0, None, None))"

definition bson_iter_date_time :: "bson_iter_t \<Rightarrow> u64 c" where
  "bson_iter_date_time it =
     bindc (ITER_TYPE it) (\<lambda>t. if t = BSON_TYPE_DATE_TIME then bson_iter_int64_unsafe it else Inr 0)"

text \<open>
  \<^verbatim>\<open>bson_iter_time_t_unsafe\<close> divides by \<^verbatim>\<open>1000UL\<close>: the signed milliseconds are
  converted to \<^verbatim>\<open>unsigned long\<close> first, so the division is unsigned.
\<close>

definition bson_iter_time_t :: "bson_iter_t \<Rightarrow> u64 c" where
  "bson_iter_time_t it =
     bindc (ITER_TYPE it) (\<lambda>t.
       if t = BSON_TYPE_DATE_TIME then bindc (bson_iter_int64_unsafe it) (\<lambda>v. Inr (v div 1000)) else Inr 0)"

text \<open>C's signed division and remainder, which truncate towards zero.\<close>

definition c_sdiv :: "int \<Rightarrow> int \<Rightarrow> int" where
  "c_sdiv a b = sgn a * sgn b * (\<bar>a\<bar> div \<bar>b\<bar>)"

definition c_smod :: "int \<Rightarrow> int \<Rightarrow> int" where
  "c_smod a b = a - c_sdiv a b * b"

definition bson_iter_timeval :: "bson_iter_t \<Rightarrow> (int \<times> int) c" where
  "bson_iter_timeval it =
     bindc (ITER_TYPE it) (\<lambda>t.
       if t = BSON_TYPE_DATE_TIME
       then bindc (bson_iter_int64_unsafe it) (\<lambda>v.
         Inr (c_sdiv (sint v) 1000, c_smod (sint v) 1000 * 1000))
       else Inr (0, 0))"

definition bson_iter_timestamp :: "bson_iter_t \<Rightarrow> (u32 \<times> u32) c" where
  "bson_iter_timestamp it =
     bindc (ITER_TYPE it) (\<lambda>t.
       if t = BSON_TYPE_TIMESTAMP
       then with_raw it (\<lambda>data. bindc (load64 data (unat (iter_d1 it))) (\<lambda>encoded.
         Inr (ucast (drop_bit 32 encoded AND 0xFFFFFFFF), ucast (encoded AND 0xFFFFFFFF))))
       else Inr (0, 0))"

definition iter_subdoc :: "u8 \<Rightarrow> bson_iter_t \<Rightarrow> (u32 \<times> bytes option) c" where
  "iter_subdoc code it =
     bindc (ITER_TYPE it) (\<lambda>t.
       if t = code
       then with_raw it (\<lambda>data. bindc (load32 data (unat (iter_d1 it))) (\<lambda>l.
         Inr (l, Some (drop (unat (iter_d1 it)) data))))
       else Inr (0, None))"

definition bson_iter_document :: "bson_iter_t \<Rightarrow> (u32 \<times> bytes option) c" where
  "bson_iter_document it = iter_subdoc BSON_TYPE_DOCUMENT it"

definition bson_iter_array :: "bson_iter_t \<Rightarrow> (u32 \<times> bytes option) c" where
  "bson_iter_array it = iter_subdoc BSON_TYPE_ARRAY it"

section \<open>Descending and searching\<close>

text \<open>\<^verbatim>\<open>bson_iter_recurse\<close>: the child's \<^verbatim>\<open>len\<close> is the stored length, not checked further.\<close>

definition bson_iter_recurse :: "bson_iter_t \<Rightarrow> bson_iter_t option c" where
  "bson_iter_recurse it =
     bindc (ITER_TYPE it) (\<lambda>t.
       if t = BSON_TYPE_DOCUMENT \<or> t = BSON_TYPE_ARRAY
       then bindc (if t = BSON_TYPE_DOCUMENT then bson_iter_document it else bson_iter_array it)
         (\<lambda>(len, data). Inr (Some ((iter_start (case data of None \<Rightarrow> [] | Some d \<Rightarrow> d) len)\<lparr>iter_raw := data\<rparr>)))
       else Inr None)"

text \<open>
  The loop \<^verbatim>\<open>while (bson_iter_next (iter)) if (p (key)) return true;\<close>. Its fuel is the
  number of bytes of the document plus one; \<open>None\<close> would mean it ran out, which
  \<open>iter_search_returns\<close> below excludes for every well-formed iterator.
\<close>

fun iter_search :: "nat \<Rightarrow> (bytes \<Rightarrow> bool c) \<Rightarrow> bson_iter_t \<Rightarrow> (bool \<times> bson_iter_t) c option" where
  "iter_search 0 p it = None"
| "iter_search (Suc n) p it =
     (case bson_iter_next it of
        Inl e \<Rightarrow> Some (Inl e)
      | Inr (ok, it') \<Rightarrow>
          if \<not> ok then Some (Inr (False, it'))
          else (case bindc (bson_iter_key it') p of
                  Inl e \<Rightarrow> Some (Inl e)
                | Inr hit \<Rightarrow> if hit then Some (Inr (True, it')) else iter_search n p it'))"

definition iter_fuel :: "bson_iter_t \<Rightarrow> nat" where
  "iter_fuel it = unat (iter_len it) + 1"

definition key_matches :: "bytes \<Rightarrow> nat \<Rightarrow> bytes \<Rightarrow> bool c" where
  "key_matches key keylen ikey =
     bindc (c_strncmp_eq key ikey keylen) (\<lambda>eq.
       if eq then bindc (load8 ikey keylen) (\<lambda>b. Inr (b = 0)) else Inr False)"

definition bson_iter_find_w_len :: "bson_iter_t \<Rightarrow> bytes \<Rightarrow> int \<Rightarrow> (bool \<times> bson_iter_t) c option" where
  "bson_iter_find_w_len it key keylen =
     (if keylen = 0 then Some (Inr (False, it))
      else if keylen < 0
      then (case c_strlen key of Inl e \<Rightarrow> Some (Inl e)
            | Inr n \<Rightarrow> iter_search (iter_fuel it) (key_matches key n) it)
      else iter_search (iter_fuel it) (key_matches key (nat keylen)) it)"

definition bson_iter_find :: "bson_iter_t \<Rightarrow> bytes \<Rightarrow> (bool \<times> bson_iter_t) c option" where
  "bson_iter_find it key = bson_iter_find_w_len it key (- 1)"

definition bson_iter_find_case :: "bson_iter_t \<Rightarrow> bytes \<Rightarrow> (bool \<times> bson_iter_t) c option" where
  "bson_iter_find_case it key = iter_search (iter_fuel it) (\<lambda>ikey. c_strcmp_by c_tolower key ikey) it"

definition bson_iter_init_find :: "bytes \<Rightarrow> u32 \<Rightarrow> bytes \<Rightarrow> (bool \<times> bson_iter_t) c option" where
  "bson_iter_init_find data len key =
     (case bson_iter_init data len of (ok, it) \<Rightarrow> if ok then bson_iter_find it key else Some (Inr (False, it)))"

definition bson_iter_init_find_w_len :: "bytes \<Rightarrow> u32 \<Rightarrow> bytes \<Rightarrow> int \<Rightarrow> (bool \<times> bson_iter_t) c option" where
  "bson_iter_init_find_w_len data len key keylen =
     (case bson_iter_init data len of (ok, it) \<Rightarrow>
        if ok then bson_iter_find_w_len it key keylen else Some (Inr (False, it)))"

definition bson_iter_init_find_case :: "bytes \<Rightarrow> u32 \<Rightarrow> bytes \<Rightarrow> (bool \<times> bson_iter_t) c option" where
  "bson_iter_init_find_case data len key =
     (case bson_iter_init data len of (ok, it) \<Rightarrow>
        if ok then bson_iter_find_case it key else Some (Inr (False, it)))"

text \<open>
  \<^verbatim>\<open>strchr (dotkey, '.')\<close>: the length of the part before the first dot of the
  string, if it has one.
\<close>

definition dot_index :: "bytes \<Rightarrow> nat option" where
  "dot_index key =
     (let s = cstr key; n = length (takeWhile (\<lambda>b. b \<noteq> 0x2E) s)
      in if n < length s then Some n else None)"

lemma dot_index_less: "dot_index key = Some n \<Longrightarrow> n < length key"
proof -
  assume "dot_index key = Some n"
  then have "n < length (cstr key)"
    by (auto simp: dot_index_def Let_def split: if_splits)
  also have "\<dots> \<le> length key"
    by (simp add: cstr_def length_takeWhile_le)
  finally show ?thesis .
qed

function bson_iter_find_descendant ::
  "bson_iter_t \<Rightarrow> bytes \<Rightarrow> (bson_iter_t option) c option" where
  "bson_iter_find_descendant it dotkey =
     (if 0 \<notin> set dotkey then Some (Inl OutOfBounds)
      else
      (case dot_index dotkey of
         None \<Rightarrow>
           (case bson_iter_find_w_len it dotkey (int (length (cstr dotkey))) of
              None \<Rightarrow> None
            | Some (Inl e) \<Rightarrow> Some (Inl e)
            | Some (Inr (found, it')) \<Rightarrow> Some (Inr (if found then Some it' else None)))
       | Some sublen \<Rightarrow>
           (case bson_iter_find_w_len it dotkey (int sublen) of
              None \<Rightarrow> None
            | Some (Inl e) \<Rightarrow> Some (Inl e)
            | Some (Inr (found, it')) \<Rightarrow>
                if \<not> found then Some (Inr None)
                else (case bson_iter_type it' of
                        Inl e \<Rightarrow> Some (Inl e)
                      | Inr t \<Rightarrow>
                          if t = BSON_TYPE_DOCUMENT \<or> t = BSON_TYPE_ARRAY
                          then (case bson_iter_recurse it' of
                                  Inl e \<Rightarrow> Some (Inl e)
                                | Inr None \<Rightarrow> Some (Inr None)
                                | Inr (Some tmp) \<Rightarrow>
                                    bson_iter_find_descendant tmp (drop (Suc sublen) dotkey))
                          else Some (Inr None)))))"
  by pat_completeness auto
termination
  by (relation "measure (\<lambda>(it, key). length key)") (auto dest: dot_index_less)

declare bson_iter_find_descendant.simps [simp del]

section \<open>Overwriting in place\<close>

text \<open>The iterator returned points to the buffer after the write; another type leaves it as it is.\<close>

definition iter_poke :: "u8 \<Rightarrow> bytes \<Rightarrow> bson_iter_t \<Rightarrow> bson_iter_t c" where
  "iter_poke code v it =
     bindc (ITER_TYPE it) (\<lambda>t.
       if t = code
       then with_raw it (\<lambda>data. bindc (memcpy_to data (unat (iter_d1 it)) v) (\<lambda>data'.
         Inr (it\<lparr>iter_raw := Some data'\<rparr>)))
       else Inr it)"

definition bson_iter_overwrite_bool :: "bson_iter_t \<Rightarrow> bool \<Rightarrow> bson_iter_t c" where
  "bson_iter_overwrite_bool it v = iter_poke BSON_TYPE_BOOL [if v then 1 else 0] it"

definition bson_iter_overwrite_int32 :: "bson_iter_t \<Rightarrow> u32 \<Rightarrow> bson_iter_t c" where
  "bson_iter_overwrite_int32 it v = iter_poke BSON_TYPE_INT32 (le32 v) it"

definition bson_iter_overwrite_int64 :: "bson_iter_t \<Rightarrow> u64 \<Rightarrow> bson_iter_t c" where
  "bson_iter_overwrite_int64 it v = iter_poke BSON_TYPE_INT64 (le64 v) it"

definition bson_iter_overwrite_double :: "bson_iter_t \<Rightarrow> u64 \<Rightarrow> bson_iter_t c" where
  "bson_iter_overwrite_double it v = iter_poke BSON_TYPE_DOUBLE (le64 v) it"

definition bson_iter_overwrite_decimal128 :: "bson_iter_t \<Rightarrow> bson_decimal128_t \<Rightarrow> bson_iter_t c" where
  "bson_iter_overwrite_decimal128 it v = iter_poke BSON_TYPE_DECIMAL128 (le64 (dec_low v) @ le64 (dec_high v)) it"

section \<open>The current element as a value\<close>

text \<open>The object a pointer of the sources is assumed to point to when it is dereferenced.\<close>

definition deref :: "bytes option \<Rightarrow> bytes c" where
  "deref p = (case p of None \<Rightarrow> Inl OutOfBounds | Some b \<Rightarrow> Inr b)"

definition bson_iter_value :: "bson_iter_t \<Rightarrow> bson_value_t option c" where
  "bson_iter_value it =
     bindc (ITER_TYPE it) (\<lambda>t.
       if t = BSON_TYPE_DOUBLE then bindc (bson_iter_double it) (\<lambda>d. Inr (Some (V_DOUBLE d)))
       else if t = BSON_TYPE_UTF8 then bindc (bson_iter_utf8 it) (\<lambda>(str, len).
         bindc (deref str) (\<lambda>s. Inr (Some (V_UTF8 s len))))
       else if t = BSON_TYPE_DOCUMENT then bindc (bson_iter_document it) (\<lambda>(len, data).
         bindc (deref data) (\<lambda>d. Inr (Some (V_DOCUMENT d len))))
       else if t = BSON_TYPE_ARRAY then bindc (bson_iter_array it) (\<lambda>(len, data).
         bindc (deref data) (\<lambda>d. Inr (Some (V_ARRAY d len))))
       else if t = BSON_TYPE_BINARY then bindc (bson_iter_binary it) (\<lambda>(subtype, len, data).
         bindc (deref data) (\<lambda>d. Inr (Some (V_BINARY subtype d len))))
       else if t = BSON_TYPE_OID then bindc (bson_iter_oid it) (\<lambda>oid.
         bindc (deref oid) (\<lambda>p. bindc (memcpy_from p 0 12) (\<lambda>b. Inr (Some (V_OID b)))))
       else if t = BSON_TYPE_BOOL then bindc (bson_iter_bool it) (\<lambda>b. Inr (Some (V_BOOL b)))
       else if t = BSON_TYPE_DATE_TIME then bindc (bson_iter_date_time it) (\<lambda>d. Inr (Some (V_DATE_TIME d)))
       else if t = BSON_TYPE_REGEX then bindc (bson_iter_regex it) (\<lambda>(regex, options).
         bindc (deref regex) (\<lambda>r. bindc (deref options) (\<lambda>op. Inr (Some (V_REGEX r op)))))
       else if t = BSON_TYPE_DBPOINTER then bindc (bson_iter_dbpointer it) (\<lambda>(len, collection, oid).
         bindc (deref collection) (\<lambda>cl. bindc (deref oid) (\<lambda>p. bindc (memcpy_from p 0 12) (\<lambda>b.
           Inr (Some (V_DBPOINTER cl len b))))))
       else if t = BSON_TYPE_CODE then bindc (bson_iter_code it) (\<lambda>(str, len).
         bindc (deref str) (\<lambda>s. Inr (Some (V_CODE s len))))
       else if t = BSON_TYPE_SYMBOL then bindc (bson_iter_symbol it) (\<lambda>(str, len).
         bindc (deref str) (\<lambda>s. Inr (Some (V_SYMBOL s len))))
       else if t = BSON_TYPE_CODEWSCOPE then bindc (bson_iter_codewscope it) (\<lambda>(code, len, scope_len, scope).
         bindc (deref code) (\<lambda>cd. bindc (deref scope) (\<lambda>sc. Inr (Some (V_CODEWSCOPE cd len sc scope_len)))))
       else if t = BSON_TYPE_INT32 then bindc (bson_iter_int32 it) (\<lambda>v. Inr (Some (V_INT32 v)))
       else if t = BSON_TYPE_TIMESTAMP then bindc (bson_iter_timestamp it) (\<lambda>(ts, inc).
         Inr (Some (V_TIMESTAMP ts inc)))
       else if t = BSON_TYPE_INT64 then bindc (bson_iter_int64 it) (\<lambda>v. Inr (Some (V_INT64 v)))
       else if t = BSON_TYPE_DECIMAL128 then bindc (bson_iter_decimal128_unsafe it) (\<lambda>d.
         Inr (Some (V_DECIMAL128 d)))
       else if t = BSON_TYPE_NULL then Inr (Some V_NULL)
       else if t = BSON_TYPE_UNDEFINED then Inr (Some V_UNDEFINED)
       else if t = BSON_TYPE_MAXKEY then Inr (Some V_MAXKEY)
       else if t = BSON_TYPE_MINKEY then Inr (Some V_MINKEY)
       else Inr None)"

text \<open>The pointers and lengths of a value stay inside the objects they point to.\<close>

fun value_in_bounds :: "bson_value_t \<Rightarrow> bool" where
  "value_in_bounds (V_UTF8 s l) = (unat l < length s \<and> s ! unat l = 0)"
| "value_in_bounds (V_CODE s l) = (unat l < length s \<and> s ! unat l = 0)"
| "value_in_bounds (V_SYMBOL s l) = (unat l < length s \<and> s ! unat l = 0)"
| "value_in_bounds (V_DOCUMENT d l) = (unat l \<le> length d)"
| "value_in_bounds (V_ARRAY d l) = (unat l \<le> length d)"
| "value_in_bounds (V_BINARY _ d l) = (unat l \<le> length d)"
| "value_in_bounds (V_OID b) = (length b = 12)"
| "value_in_bounds (V_REGEX r op) = (0 \<in> set r \<and> 0 \<in> set op)"
| "value_in_bounds (V_DBPOINTER s l b) = (unat l < length s \<and> s ! unat l = 0 \<and> length b = 12)"
| "value_in_bounds (V_CODEWSCOPE s l d dl) = (unat l < length s \<and> unat dl \<le> length d)"
| "value_in_bounds _ = True"

section \<open>Lemmas\<close>

named_theorems access_defs \<open>the accessors of the current element\<close>

lemmas [access_defs] = with_raw_def bson_iter_double_unsafe_def bson_iter_int32_unsafe_def
  bson_iter_int64_unsafe_def bson_iter_bool_unsafe_def bson_iter_decimal128_unsafe_def
  bson_iter_utf8_len_unsafe_def bson_iter_double_def bson_iter_int32_def bson_iter_int64_def
  bson_iter_bool_def bson_iter_binary_def bson_iter_decimal128_def bson_iter_oid_def bson_iter_regex_def
  iter_string_def bson_iter_utf8_def bson_iter_code_def bson_iter_symbol_def bson_iter_codewscope_def
  bson_iter_dbpointer_def bson_iter_date_time_def bson_iter_timestamp_def iter_subdoc_def
  bson_iter_document_def bson_iter_array_def

text \<open>The type codes the decoder accepts.\<close>

abbreviation (input) known_type :: "u8 \<Rightarrow> bool" where
  "known_type t \<equiv> t \<noteq> 0 \<and> (t \<le> BSON_TYPE_DECIMAL128 \<or> t = BSON_TYPE_MAXKEY \<or> t = BSON_TYPE_MINKEY)"

lemma ITER_TYPE_on: "iter_on t data it \<Longrightarrow> ITER_TYPE it = Inr t"
  by (auto simp: ITER_TYPE_def with_raw_def iter_on_def load8_def u32_less)

lemma iter_on_bounds:
  assumes "iter_on t data it"
  shows "iter_raw it = Some data" and "unat (iter_next_off it) < unat (iter_len it)"
    and "unat (iter_len it) \<le> length data" and "unat (iter_len it) \<le> 2147483647"
    and "elem_ok t data it"
  using assms by (simp_all add: iter_on_def u32_less INT_MAX_def)


lemma string_len:
  assumes "l \<noteq> (0 :: u32)" and "unat l \<le> 2147483647"
  shows "\<not> sint l - 1 < 0" and "unat (l - 1) = unat l - 1"
proof -
  have "0 < unat l" using assms(1) by (simp add: u32_neq_0)
  with sint_small [OF assms(2)] show "\<not> sint l - 1 < 0" by linarith
  show "unat (l - 1) = unat l - 1" using assms(1) by (rule u32_pred)
qed

text \<open>What an accessor of a string returns: a pointer to \<open>len\<close> bytes and their terminator.\<close>

lemma value_string:
  assumes on: "iter_on t data it" and t: "t \<in> {BSON_TYPE_CODE, BSON_TYPE_SYMBOL, BSON_TYPE_UTF8}"
  shows "wpc (iter_string t it) (\<lambda>(s, l). \<exists>p. s = Some p \<and> unat l < length p \<and> p ! unat l = 0)"
proof -
  note b = iter_on_bounds [OF on]
  let ?l = "le32_at data (unat (iter_d1 it))"
  from b(5) t have e: "unat (iter_d2 it) = unat (iter_d1 it) + 4" "?l \<noteq> 0"
    "unat (iter_next_off it) = unat (iter_d2 it) + unat ?l" "data ! (unat (iter_next_off it) - 1) = 0"
    by (auto simp: elem_ok_def Let_def)
  have l: "unat ?l \<le> 2147483647" "0 < unat ?l"
    using e b by (simp_all add: u32_neq_0)
  show ?thesis
    using e b l string_len [OF e(2) l(1)]
    by (simp add: access_defs ITER_TYPE_on [OF on] load32_in)
qed

lemma value_fixed:
  assumes on: "iter_on t data it"
    and t: "t \<in> {BSON_TYPE_DATE_TIME, BSON_TYPE_DOUBLE, BSON_TYPE_INT64, BSON_TYPE_TIMESTAMP,
      BSON_TYPE_OID, BSON_TYPE_BOOL, BSON_TYPE_INT32, BSON_TYPE_DECIMAL128,
      BSON_TYPE_MAXKEY, BSON_TYPE_MINKEY, BSON_TYPE_NULL, BSON_TYPE_UNDEFINED}"
  shows "wpc (bson_iter_value it) (\<lambda>v. \<exists>x. v = Some x \<and> value_in_bounds x)"
  using t iter_on_bounds [OF on]
  by (elim insertE emptyE; hypsubst)
    (simp_all add: bson_iter_value_def ITER_TYPE_on [OF on] access_defs deref_def wp elem_ok_def Let_def)

lemma value_document:
  assumes on: "iter_on t data it" and t: "t \<in> {BSON_TYPE_DOCUMENT, BSON_TYPE_ARRAY}"
  shows "wpc (iter_subdoc t it) (\<lambda>(l, d). \<exists>p. d = Some p \<and> p = drop (unat (iter_d1 it)) data \<and> unat l \<le> length p \<and> unat l \<le> INT_MAX)"
  using iter_on_bounds [OF on] t
  by (auto simp: ITER_TYPE_on [OF on] access_defs mem_simps elem_ok_def Let_def INT_MAX_def)

lemma value_binary:
  assumes on: "iter_on BSON_TYPE_BINARY data it"
  shows "wpc (bson_iter_binary it) (\<lambda>(st, l, d). \<exists>p. d = Some p \<and> unat l \<le> length p)"
  using iter_on_bounds [OF on] 
  by (auto simp: ITER_TYPE_on [OF on] access_defs mem_simps elem_ok_def Let_def u32_sub)

lemma value_regex:
  assumes on: "iter_on BSON_TYPE_REGEX data it"
  shows "wpc (bson_iter_regex it) (\<lambda>(r, op). \<exists>p q. r = Some p \<and> op = Some q \<and> 0 \<in> set p \<and> 0 \<in> set q)"
proof -
  note b = iter_on_bounds [OF on]
  let ?d1 = "unat (iter_d1 it)" and ?d2 = "unat (iter_d2 it)" and ?n = "unat (iter_next_off it)"
  from b(5) have e: "?d1 < ?d2" "?d2 < ?n" "data ! (?d2 - 1) = 0" "data ! (?n - 1) = 0"
    by (simp_all add: elem_ok_def Let_def)
  have "0 \<in> set (drop j data)" if "j < k" "k \<le> length data" "data ! (k - 1) = 0" for j k
    using that nth_mem [of "k - 1 - j" "drop j data"] by simp
  from this [of ?d1 ?d2] this [of ?d2 ?n] e b show ?thesis
    by (simp add: access_defs ITER_TYPE_on [OF on])
qed

lemma value_dbpointer:
  assumes on: "iter_on BSON_TYPE_DBPOINTER data it"
  shows "wpc (bson_iter_dbpointer it) (\<lambda>(l, s, oid). \<exists>p q. s = Some p \<and> oid = Some q \<and>
    unat l < length p \<and> p ! unat l = 0 \<and> 12 \<le> length q)"
proof -
  note b = iter_on_bounds [OF on]
  let ?l = "le32_at data (unat (iter_d1 it))"
  from b(5) have e: "unat (iter_d2 it) = unat (iter_d1 it) + 4" "?l \<noteq> 0"
    "unat (iter_d3 it) = unat (iter_d2 it) + unat ?l" "data ! (unat (iter_d3 it) - 1) = 0"
    "unat (iter_next_off it) = unat (iter_d3 it) + 12"
    by (auto simp: elem_ok_def Let_def)
  have l: "0 < unat ?l" "unat (?l - 1) = unat ?l - 1" using e(2) by (simp_all add: u32_neq_0 u32_pred)
  from e b l show ?thesis
    by (simp add: access_defs ITER_TYPE_on [OF on] mem_simps u32_less) linarith
qed

lemma value_codewscope:
  assumes on: "iter_on BSON_TYPE_CODEWSCOPE data it"
  shows "wpc (bson_iter_codewscope it) (\<lambda>(code, l, sl, scope). \<exists>p q. code = Some p \<and> scope = Some q \<and>
    unat l < length p \<and> unat sl \<le> length q)"
proof -
  note b = iter_on_bounds [OF on]
  let ?l = "le32_at data (unat (iter_d2 it))"
  from b(5) have e: "unat (iter_d2 it) = unat (iter_d1 it) + 4" "?l \<noteq> 0" "unat (iter_d3 it) = unat (iter_d1 it) + 8"
    "unat (iter_d4 it) = unat (iter_d3 it) + unat ?l" "unat (iter_d4 it) + 4 < unat (iter_next_off it)"
    "unat (iter_next_off it) = unat (iter_d4 it) + unat (le32_at data (unat (iter_d4 it)))"
    by (auto simp: elem_ok_def Let_def)
  have l: "0 < unat ?l" "unat (?l - 1) = unat ?l - 1" using e(2) by (simp_all add: u32_neq_0 u32_pred)
  from e b l show ?thesis
    by (simp add: access_defs ITER_TYPE_on [OF on] mem_simps u32_less) linarith
qed

lemma elem_ok_known:
  "elem_ok t data it \<Longrightarrow> t \<in> {BSON_TYPE_DATE_TIME, BSON_TYPE_DOUBLE, BSON_TYPE_INT64, BSON_TYPE_TIMESTAMP,
      BSON_TYPE_OID, BSON_TYPE_BOOL, BSON_TYPE_INT32, BSON_TYPE_DECIMAL128,
      BSON_TYPE_MAXKEY, BSON_TYPE_MINKEY, BSON_TYPE_NULL, BSON_TYPE_UNDEFINED} \<or>
    t \<in> {BSON_TYPE_CODE, BSON_TYPE_SYMBOL, BSON_TYPE_UTF8} \<or> t \<in> {BSON_TYPE_DOCUMENT, BSON_TYPE_ARRAY} \<or>
    t = BSON_TYPE_BINARY \<or> t = BSON_TYPE_REGEX \<or> t = BSON_TYPE_DBPOINTER \<or> t = BSON_TYPE_CODEWSCOPE"
  by (auto simp: elem_ok_def Let_def split: if_splits)

lemma iter_value_in_bounds:
  assumes on: "iter_on t data it"
  shows "wpc (bson_iter_value it) (\<lambda>v. \<exists>x. v = Some x \<and> value_in_bounds x)"
proof -
  note D = bson_iter_value_def bson_iter_utf8_def bson_iter_code_def bson_iter_symbol_def
    bson_iter_document_def bson_iter_array_def ITER_TYPE_on [OF on] deref_def
  from elem_ok_known [OF iter_on_bounds(5) [OF on]] consider
    "t \<in> {BSON_TYPE_DATE_TIME, BSON_TYPE_DOUBLE, BSON_TYPE_INT64, BSON_TYPE_TIMESTAMP,
      BSON_TYPE_OID, BSON_TYPE_BOOL, BSON_TYPE_INT32, BSON_TYPE_DECIMAL128,
      BSON_TYPE_MAXKEY, BSON_TYPE_MINKEY, BSON_TYPE_NULL, BSON_TYPE_UNDEFINED}"
  | "t \<in> {BSON_TYPE_CODE, BSON_TYPE_SYMBOL, BSON_TYPE_UTF8}" | "t \<in> {BSON_TYPE_DOCUMENT, BSON_TYPE_ARRAY}"
  | "t = BSON_TYPE_BINARY" | "t = BSON_TYPE_REGEX" | "t = BSON_TYPE_DBPOINTER" | "t = BSON_TYPE_CODEWSCOPE"
    by blast
  then show ?thesis
  proof cases
    case 1 then show ?thesis by (rule value_fixed [OF on])
  next
    case 2
    then show ?thesis using value_string [OF on 2] by (auto simp: D wp elim!: wpc_mono)
  next
    case 3
    then show ?thesis using value_document [OF on 3] by (auto simp: D wp elim!: wpc_mono)
  next
    case 4
    then show ?thesis using value_binary [OF on [unfolded 4]] by (auto simp: D wp elim!: wpc_mono)
  next
    case 5
    then show ?thesis using value_regex [OF on [unfolded 5]] by (auto simp: D wp elim!: wpc_mono)
  next
    case 6
    then show ?thesis using value_dbpointer [OF on [unfolded 6]] by (auto simp: D wp elim!: wpc_mono)
  next
    case 7
    then show ?thesis using value_codewscope [OF on [unfolded 7]] by (auto simp: D wp elim!: wpc_mono)
  qed
qed

section \<open>Progress and search\<close>

text \<open>Every call of \<^verbatim>\<open>bson_iter_next\<close> that returns true moves the iterator forward inside the buffer.\<close>

definition iter_safe :: "bson_iter_t \<Rightarrow> bool" where
  "iter_safe it \<longleftrightarrow> (\<forall>data p. iter_raw it = Some data \<longrightarrow> \<not> binary_overread data (iter_len it) p)"

lemma iter_safe_next: "iter_safe it \<Longrightarrow> \<not> next_overreads it"
  by (auto simp: iter_safe_def next_overreads_def)

lemma next_progress:
  assumes "iter_wf it" and "\<not> next_overreads it"
  shows "wpc (bson_iter_next it) (\<lambda>(ok, it').
    iter_wf it' \<and>
    (ok \<longrightarrow> iter_raw it' = iter_raw it \<and> iter_len it' = iter_len it \<and>
       iter_next_off it < iter_next_off it' \<and> iter_next_off it' < iter_len it' \<and>
       (\<exists>t data. iter_on t data it')))"
proof (cases "iter_raw it")
  case None
  with assms next_None [OF None] show ?thesis
    by (auto simp: bson_iter_next_def wpc_bindc elim!: wpc_mono)
next
  case (Some data)
  from next_internal_post [OF assms(1) Some assms(2)] Some show ?thesis
    by (auto simp: bson_iter_next_def wpc_bindc next_post_def iter_on_wf iter_wf_def [where it = "_ :: bson_iter_t"]
      iter_on_raw u32_less elim!: wpc_mono split: if_splits) (auto simp: iter_on_def u32_less)
qed

lemma iter_safe_slack: "iter_raw it = Some data \<Longrightarrow> unat (iter_len it) + 4 \<le> length data \<Longrightarrow> iter_safe it"
  by (auto simp: iter_safe_def binary_overread_def)

lemma iter_safe_cong: "iter_raw it' = iter_raw it \<Longrightarrow> iter_len it' = iter_len it \<Longrightarrow> iter_safe it' = iter_safe it"
  by (simp add: iter_safe_def)

lemma iter_on_key:
  assumes "iter_on t data it"
  shows "bson_iter_key it = Inr (drop (unat (iter_key it)) data)" and "0 \<in> set (drop (unat (iter_key it)) data)"
proof -
  show "bson_iter_key it = Inr (drop (unat (iter_key it)) data)"
    using assms by (simp add: bson_iter_key_def with_raw_def iter_on_raw)
  from assms obtain k where "unat (iter_key it) \<le> k" "k < length data" "data ! k = 0"
    by (auto simp: iter_on_def u32_less)
  then show "0 \<in> set (drop (unat (iter_key it)) data)"
    using nth_mem [of "k - unat (iter_key it)" "drop (unat (iter_key it)) data"] by simp
qed

text \<open>
  The elements a search passes over: each was decoded, and its key does not
  satisfy the test.
\<close>

inductive iter_skips :: "(bytes \<Rightarrow> bool) \<Rightarrow> bson_iter_t \<Rightarrow> bson_iter_t \<Rightarrow> bool" for Q where
  skips_refl: "iter_skips Q it it"
| skips_step: "bson_iter_next it = Inr (True, it1) \<Longrightarrow> bson_iter_key it1 = Inr key \<Longrightarrow> \<not> Q (cstr key) \<Longrightarrow>
    iter_skips Q it1 it2 \<Longrightarrow> iter_skips Q it it2"

text \<open>
  The outcome of a search for the first key with property \<open>Q\<close>: the loop
  returns, and where it stops either the document ended or the current key is
  the first with \<open>Q\<close>.
\<close>

definition search_post ::
  "(bytes \<Rightarrow> bool) \<Rightarrow> bson_iter_t \<Rightarrow> (bool \<times> bson_iter_t) c option \<Rightarrow> bool" where
  "search_post Q it r \<longleftrightarrow>
     (\<exists>found it' m. r = Some (Inr (found, it')) \<and> iter_wf it' \<and> iter_skips Q it m \<and>
        bson_iter_next m = Inr (found, it') \<and>
        (found \<longrightarrow> iter_raw it' = iter_raw it \<and> iter_len it' = iter_len it \<and>
          (\<exists>t data. iter_on t data it' \<and> Q (cstr (drop (unat (iter_key it')) data)))))"

lemma iter_search_post:
  assumes "iter_wf it" and "iter_safe it" and "unat (iter_len it) < n + unat (iter_next_off it)" and "0 < n"
    and p: "\<And>key. 0 \<in> set key \<Longrightarrow> p key = Inr (Q (cstr key))"
  shows "search_post Q it (iter_search n p it)"
  using assms(1-4)
proof (induction n arbitrary: it)
  case (Suc n)
  from next_progress [OF Suc.prems(1) iter_safe_next [OF Suc.prems(2)]]
  obtain ok it1 where nx: "bson_iter_next it = Inr (ok, it1)" and wf: "iter_wf it1"
    and on: "ok \<Longrightarrow> iter_raw it1 = iter_raw it \<and> iter_len it1 = iter_len it \<and>
       iter_next_off it < iter_next_off it1 \<and> iter_next_off it1 < iter_len it1 \<and> (\<exists>t data. iter_on t data it1)"
    by (auto simp: wpc_iff)
  show ?case
  proof (cases ok)
    case True
    with on obtain t data where elem: "iter_on t data it1" by blast
    let ?key = "drop (unat (iter_key it1)) data"
    note key = iter_on_key [OF elem]
    show ?thesis
    proof (cases "Q (cstr ?key)")
      case hit: True
      with True nx key p [OF key(2)] wf on [OF True] elem show ?thesis
        by (auto simp: search_post_def intro!: exI [of _ it] skips_refl)
    next
      case False
      have "iter_safe it1" using Suc.prems(2) on [OF True] iter_safe_cong [of it1 it] by simp
      moreover have "unat (iter_len it1) < n + unat (iter_next_off it1)" "0 < n"
        using on [OF True] Suc.prems(3) by (auto simp: u32_less)
      ultimately have "search_post Q it1 (iter_search n p it1)" by (intro Suc.IH wf)
      moreover have "iter_search (Suc n) p it = iter_search n p it1"
        using True nx key p [OF key(2)] False by simp
      moreover have "iter_skips Q it1 m \<Longrightarrow> iter_skips Q it m" for m
        using skips_step [of it it1 ?key Q m] nx True key(1) False by simp
      ultimately show ?thesis using on [OF True] by (fastforce simp: search_post_def)
    qed
  qed (use nx wf in \<open>auto simp: search_post_def intro!: exI [of _ it] skips_refl\<close>)
qed simp

lemma strncmp_prefix:
  "0 \<notin> set k \<Longrightarrow> 0 \<in> set a \<Longrightarrow>
   c_strncmp_eq (k @ r) a (length k) = Inr (take (length k) (cstr a) = k)"
proof (induction k arbitrary: a)
  case (Cons x k)
  then show ?case by (cases a) (auto simp: cstr_def)
qed simp

lemma key_matches_iff:
  assumes "0 \<notin> set k" and "0 \<in> set a"
  shows "key_matches (k @ r) (length k) a = Inr (cstr a = k)"
proof (cases "take (length k) (cstr a) = k")
  case True
  then have len: "length k \<le> length (cstr a)" by (metis length_take min.cobounded1 min_def)
  have nth: "a ! length k = 0 \<longleftrightarrow> length (cstr a) = length k"
    using len nth_length_takeWhile [of "\<lambda>b. b \<noteq> 0" a] length_cstr_less [OF assms(2)]
      nth_mem [of "length k" "cstr a"] takeWhile_nth [of "length k" "\<lambda>b. b \<noteq> 0" a] set_takeWhileD
    by (fastforce simp: cstr_def)
  have "load8 a (length k) = Inr (a ! length k)"
    using len length_cstr_less [OF assms(2)] by (simp add: load8_in)
  with True nth strncmp_prefix [OF assms, of r] show ?thesis
    using len by (auto simp: key_matches_def)
next
  case False
  with strncmp_prefix [OF assms, of r] show ?thesis
    by (auto simp: key_matches_def)
qed

lemma recurse_wf:
  assumes on: "iter_on t data it"
  shows "wpc (bson_iter_recurse it) (\<lambda>r. case r of None \<Rightarrow> t \<notin> {BSON_TYPE_DOCUMENT, BSON_TYPE_ARRAY}
    | Some child \<Rightarrow> t \<in> {BSON_TYPE_DOCUMENT, BSON_TYPE_ARRAY} \<and> iter_wf child \<and>
        iter_raw child = Some (drop (unat (iter_d1 it)) data) \<and> iter_len child = le32_at data (unat (iter_d1 it)) \<and>
        unat (iter_d1 it) + unat (iter_len child) < unat (iter_len it))"
  using iter_on_bounds [OF on]
  by (auto simp: bson_iter_recurse_def ITER_TYPE_on [OF on] access_defs wp elem_ok_def Let_def
      iter_wf_def iter_start_def INT_MAX_def)

lemma poke_roundtrip:
  assumes "ITER_TYPE it = Inr t" and "iter_raw it = Some data"
    and "unat (iter_d1 it) + length v \<le> length data" 
  shows "iter_poke t v it = Inr (it\<lparr>iter_raw := Some (take (unat (iter_d1 it)) data @ v @ drop (unat (iter_d1 it) + length v) data)\<rparr>)"
  using assms by (simp add: iter_poke_def with_raw_def memcpy_to_in)

lemma c_tolower_0 [simp]: "c_tolower b = 0 \<longleftrightarrow> b = 0"
proof -
  have "b + 0x20 \<noteq> 0" if "b \<le> 0x5A"
  proof -
    have "unat b + 32 < 256" using that by (simp add: word_le_nat_alt)
    then have "unat (b + 0x20) = unat b + 32" by (simp add: unat_word_ariths)
    then show ?thesis by auto
  qed
  then show ?thesis by (auto simp: c_tolower_def)
qed

lemma c_tolower_zero [simp]: "c_tolower 0 = 0"
  by simp

lemma strcasecmp_iff:
  "0 \<notin> set k \<Longrightarrow> 0 \<in> set a \<Longrightarrow>
   c_strcmp_by c_tolower (k @ 0 # r) a = Inr (map c_tolower k = map c_tolower (cstr a))"
proof (induction k arbitrary: a)
  case Nil
  then show ?case by (cases a) (auto simp: cstr_def dest: sym [of 0])
next
  case (Cons x k)
  then show ?case 
    by (cases a; cases "hd a = 0") (auto simp: cstr_def)
qed

lemma iter_fuel_enough: "iter_wf it \<Longrightarrow> unat (iter_len it) < iter_fuel it + unat (iter_next_off it)"
  by (simp add: iter_fuel_def)

text \<open>\<^verbatim>\<open>bson_iter_find\<close> returns, and stops at the first element with that key.\<close>

lemma find_post:
  assumes "iter_wf it" and "iter_safe it" and "0 \<notin> set k" 
  shows "k \<noteq> [] \<Longrightarrow> search_post (\<lambda>key. key = k) it (bson_iter_find_w_len it (k @ r) (int (length k)))"
    and "search_post (\<lambda>key. key = k) it (bson_iter_find it (k @ 0 # r))"
    and "search_post (\<lambda>key. map c_tolower k = map c_tolower key) it (bson_iter_find_case it (k @ 0 # r))"
proof -
  have search: "search_post Q it (iter_search (iter_fuel it) p it)"
    if "\<And>key. 0 \<in> set key \<Longrightarrow> p key = Inr (Q (cstr key))" for p Q
    using assms(1,2) that by (intro iter_search_post iter_fuel_enough) (auto simp: iter_fuel_def)
  show "search_post (\<lambda>key. key = k) it (bson_iter_find_w_len it (k @ r) (int (length k)))" if "k \<noteq> []"
    using that assms(3) by (auto simp: bson_iter_find_w_len_def key_matches_iff intro!: search)
  show "search_post (\<lambda>key. key = k) it (bson_iter_find it (k @ 0 # r))"
    using assms(3) by (auto simp: bson_iter_find_def bson_iter_find_w_len_def c_strlen_def key_matches_iff intro!: search)
  show "search_post (\<lambda>key. map c_tolower k = map c_tolower key) it (bson_iter_find_case it (k @ 0 # r))"
    using assms(3) by (auto simp: bson_iter_find_case_def strcasecmp_iff intro!: search)
qed

lemma recurse_safe:
  assumes "iter_safe it" and "iter_raw it = Some data"
    and "unat d + unat (iter_len child) < unat (iter_len it)" and "unat (iter_len it) \<le> length data" and "iter_raw child = Some (drop (unat d) data)"
  shows "iter_safe child"
proof -
  have "binary_overread data (iter_len it) (unat d + p)"
    if "binary_overread (drop (unat d) data) (iter_len child) p" for p
    using that assms(3,4) by (auto simp: binary_overread_def le32_at_def ac_simps)
  with assms show ?thesis by (auto simp: iter_safe_def)
qed

text \<open>The search down a dotted path returns; a descendant found stands on a decoded element.\<close>

lemma cstr_prefix_nz: "n \<le> length (cstr key) \<Longrightarrow> 0 \<notin> set (take n key)"
proof -
  assume "n \<le> length (cstr key)"
  moreover have "cstr key = take (length (cstr key)) key"
    unfolding cstr_def by (rule takeWhile_eq_take)
  ultimately have "take n key = take n (cstr key)"
    by (metis min.absorb1 take_take)
  moreover have "0 \<notin> set (cstr key)" by (auto simp: cstr_def dest: set_takeWhileD)
  ultimately show ?thesis by (auto dest: in_set_takeD)
qed

lemma dot_index_key:
  assumes "dot_index key = Some n"
  shows "0 \<notin> set (take n key)" and "length (take n key) = n"
    and "0 \<in> set key \<Longrightarrow> 0 \<in> set (drop (Suc n) key)"
proof -
  have lt: "n < length (cstr key)"
    using assms by (auto simp: dot_index_def Let_def split: if_splits)
  then show "0 \<notin> set (take n key)" by (intro cstr_prefix_nz) simp
  show "length (take n key) = n" using dot_index_less [OF assms] by simp
  have "0 \<notin> set (take (Suc n) key)" using lt by (intro cstr_prefix_nz) simp
  moreover have "set key = set (take (Suc n) key) \<union> set (drop (Suc n) key)"
    by (metis append_take_drop_id set_append)
  ultimately show "0 \<in> set key \<Longrightarrow> 0 \<in> set (drop (Suc n) key)" by blast
qed

lemma find_w_len_any:
  assumes "iter_wf it" and "iter_safe it" and "0 \<notin> set (take n key)" and "length (take n key) = n"
  shows "\<exists>found it'. bson_iter_find_w_len it key (int n) = Some (Inr (found, it')) \<and> iter_wf it' \<and>
    (found \<longrightarrow> iter_raw it' = iter_raw it \<and> iter_len it' = iter_len it \<and> (\<exists>t data. iter_on t data it'))"
proof (cases "n = 0")
  case True
  then show ?thesis using assms(1) by (auto simp: bson_iter_find_w_len_def)
next
  case False
  with assms(4) have "take n key \<noteq> []" by auto
  from find_post(1) [OF assms(1-3) this, of "drop n key"] assms(4)
  have "search_post (\<lambda>k. k = take n key) it (bson_iter_find_w_len it key (int n))" by simp
  then show ?thesis unfolding search_post_def by blast
qed

lemma iter_type_on: "iter_on t data it \<Longrightarrow> bson_iter_type it = Inr t"
  by (auto simp: bson_iter_type_def bson_iter_type_unsafe_def with_raw_def iter_on_def load8_def u32_less
      u32_neq_0)

lemma find_descendant_returns:
  assumes "iter_wf it" and "iter_safe it" and "0 \<in> set key"
  shows "\<exists>r. bson_iter_find_descendant it key = Some (Inr r) \<and>
    (\<forall>d. r = Some d \<longrightarrow> (\<exists>t data. iter_on t data d))"
  using assms
proof (induction it key rule: bson_iter_find_descendant.induct)
  case (1 it key)
  show ?case
  proof (cases "dot_index key")
    case None
    have "0 \<notin> set (take (length (cstr key)) key)" "length (take (length (cstr key)) key) = length (cstr key)"
      by (simp_all add: cstr_prefix_nz) (simp add: cstr_def length_takeWhile_le)
    from find_w_len_any [OF "1.prems"(1,2) this] obtain found it'
      where "bson_iter_find_w_len it key (int (length (cstr key))) = Some (Inr (found, it'))"
        and "found \<Longrightarrow> \<exists>t data. iter_on t data it'" by blast
    with None "1.prems"(3) show ?thesis
      by (subst bson_iter_find_descendant.simps) simp
  next
    case (Some n)
    note dot = dot_index_key [OF Some]
    from find_w_len_any [OF "1.prems"(1,2) dot(1,2)] obtain found it'
      where f: "bson_iter_find_w_len it key (int n) = Some (Inr (found, it'))"
        and on: "found \<Longrightarrow> iter_raw it' = iter_raw it \<and> iter_len it' = iter_len it \<and> (\<exists>t data. iter_on t data it')"
      by blast
    show ?thesis
    proof (cases found)
      case True
      with on obtain t data where elem: "iter_on t data it'" by blast
      note ty = iter_type_on [OF elem] and b = iter_on_bounds [OF elem]
      from recurse_wf [OF elem] obtain r where r: "bson_iter_recurse it' = Inr r"
        and post: "case r of None \<Rightarrow> t \<notin> {BSON_TYPE_DOCUMENT, BSON_TYPE_ARRAY}
          | Some child \<Rightarrow> t \<in> {BSON_TYPE_DOCUMENT, BSON_TYPE_ARRAY} \<and> iter_wf child \<and>
              iter_raw child = Some (drop (unat (iter_d1 it')) data) \<and> iter_len child = le32_at data (unat (iter_d1 it')) \<and>
              unat (iter_d1 it') + unat (iter_len child) < unat (iter_len it')"
        by (auto simp: wpc_iff)
      show ?thesis
      proof (cases r)
        case None
        with True f ty post r Some "1.prems"(3) show ?thesis
          by (subst bson_iter_find_descendant.simps) simp
      next
        case (Some child)
        have "iter_safe it'" using "1.prems"(2) on [OF True] iter_safe_cong by blast
        then have "iter_safe child"
          using b post Some by (intro recurse_safe [of it' data "iter_d1 it'" child]) auto
        with True f ty post r \<open>dot_index key = Some n\<close> Some "1.prems"(3) dot(3)
          "1.IH" [of n "Inr (found, it')" "(found, it')" found it' t r child] show ?thesis
          by (subst bson_iter_find_descendant.simps) simp
      qed
    qed (use f Some "1.prems"(3) in \<open>subst bson_iter_find_descendant.simps, simp\<close>)
  qed
qed

section \<open>Overwriting\<close>

lemma poke_on:
  assumes on: "iter_on t data it" and len: "unat (iter_d1 it) + length v \<le> length data"
  obtains data' where "iter_poke t v it = Inr (it\<lparr>iter_raw := Some data'\<rparr>)"
    and "length data' = length data" and "ITER_TYPE (it\<lparr>iter_raw := Some data'\<rparr>) = Inr t"
    and "take (length v) (drop (unat (iter_d1 it)) data') = v"
    and "\<And>j. j < unat (iter_d1 it) \<or> unat (iter_d1 it) + length v \<le> j \<Longrightarrow> data' ! j = data ! j"
proof
  let ?d = "take (unat (iter_d1 it)) data @ v @ drop (unat (iter_d1 it) + length v) data"
  note b = iter_on_bounds [OF on]
  show "iter_poke t v it = Inr (it\<lparr>iter_raw := Some ?d\<rparr>)"
    by (rule poke_roundtrip [OF ITER_TYPE_on [OF on] b(1) len])
  show "length ?d = length data" "take (length v) (drop (unat (iter_d1 it)) ?d) = v" using len by simp_all
  show same: "?d ! j = data ! j" if "j < unat (iter_d1 it) \<or> unat (iter_d1 it) + length v \<le> j" for j
    using that len by (auto simp: nth_append)
  have "unat (iter_type it) < unat (iter_d1 it)" "unat (iter_type it) < length data" "data ! unat (iter_type it) = t"
    using on by (auto simp: iter_on_def u32_less)
  with same [of "unat (iter_type it)"] len show "ITER_TYPE (it\<lparr>iter_raw := Some ?d\<rparr>) = Inr t"
    by (simp add: ITER_TYPE_def with_raw_def load8_def)
qed

text \<open>Each overwrite of a fixed-size value is what the next read returns.\<close>

lemma overwrite_int32: "iter_on BSON_TYPE_INT32 data it \<Longrightarrow>
    wpc (bson_iter_overwrite_int32 it v) (\<lambda>it'. bson_iter_int32 it' = Inr v)"
proof -
  assume on: "iter_on BSON_TYPE_INT32 data it"
  have len: "unat (iter_d1 it) + length (le32 v) \<le> length data"
    using iter_on_bounds [OF on] by (simp add: elem_ok_def Let_def)
  show ?thesis
    by (rule poke_on [OF on len])
      (use len in \<open>simp add: bson_iter_overwrite_int32_def access_defs mem_simps le32_at_def\<close>)
qed

lemma overwrite_reads:
  assumes on: "iter_on t data it"
  shows "t = BSON_TYPE_BOOL \<Longrightarrow> wpc (bson_iter_overwrite_bool it b) (\<lambda>it'. bson_iter_bool it' = Inr b)"
    and "t = BSON_TYPE_INT64 \<Longrightarrow> wpc (bson_iter_overwrite_int64 it w) (\<lambda>it'. bson_iter_int64 it' = Inr w)"
    and "t = BSON_TYPE_DOUBLE \<Longrightarrow> wpc (bson_iter_overwrite_double it w) (\<lambda>it'. bson_iter_double it' = Inr w)"
    and "t = BSON_TYPE_DECIMAL128 \<Longrightarrow>
      wpc (bson_iter_overwrite_decimal128 it q) (\<lambda>it'. bson_iter_decimal128 it' = Inr (Some q))"
proof -
  have len: "t \<in> {BSON_TYPE_INT64, BSON_TYPE_DOUBLE} \<Longrightarrow> unat (iter_d1 it) + length (le64 w) \<le> length data"
    "t = BSON_TYPE_BOOL \<Longrightarrow> unat (iter_d1 it) + length [if b then 1 else 0 :: u8] \<le> length data"
    "t = BSON_TYPE_DECIMAL128 \<Longrightarrow> unat (iter_d1 it) + length (le64 (dec_low q) @ le64 (dec_high q)) \<le> length data"
    using iter_on_bounds [OF on] by (auto simp: elem_ok_def Let_def)
  show "t = BSON_TYPE_BOOL \<Longrightarrow> wpc (bson_iter_overwrite_bool it b) (\<lambda>it'. bson_iter_bool it' = Inr b)"
    by (rule poke_on [OF on len(2)])
      (use len(2) in \<open>auto simp: bson_iter_overwrite_bool_def access_defs mem_simps take_Suc_conv_app_nth\<close>)
  show "t = BSON_TYPE_INT64 \<Longrightarrow> wpc (bson_iter_overwrite_int64 it w) (\<lambda>it'. bson_iter_int64 it' = Inr w)"
    by (rule poke_on [OF on len(1)])
      (use len in \<open>auto simp: bson_iter_overwrite_int64_def access_defs mem_simps le64_at_def\<close>)
  show "t = BSON_TYPE_DOUBLE \<Longrightarrow> wpc (bson_iter_overwrite_double it w) (\<lambda>it'. bson_iter_double it' = Inr w)"
    by (rule poke_on [OF on len(1)])
      (use len in \<open>auto simp: bson_iter_overwrite_double_def access_defs mem_simps le64_at_def\<close>)
  show "t = BSON_TYPE_DECIMAL128 \<Longrightarrow>
      wpc (bson_iter_overwrite_decimal128 it q) (\<lambda>it'. bson_iter_decimal128 it' = Inr (Some q))"
    by (rule poke_on [OF on len(3)])
      (use len in \<open>auto simp: bson_iter_overwrite_decimal128_def access_defs mem_simps le64_at_def add.commute
          dest!: take_append_split\<close>)
qed

text \<open>\<^verbatim>\<open>bson_iter_time_t\<close> is right for dates from 1970 on, and wrong for every earlier date.\<close>

lemma time_t_value:
  assumes on: "iter_on BSON_TYPE_DATE_TIME data it" and v: "v = le64_at data (unat (iter_d1 it))"
  shows "bson_iter_date_time it = Inr v" and "bson_iter_time_t it = Inr (v div 1000)"
  using iter_on_bounds [OF on]
  by (simp_all add: v bson_iter_time_t_def access_defs ITER_TYPE_on [OF on] mem_simps elem_ok_def Let_def)

section \<open>Properties\<close>

text \<open>A document with one 32-bit integer, key \<^verbatim>\<open>a\<close>, value 7; four spare bytes follow it.\<close>

definition sample_doc :: bytes where
  "sample_doc = [12,0,0,0, 0x10, 0x61, 0, 7,0,0,0, 0, 0,0,0,0]"

definition sample_iter :: bson_iter_t where
  "sample_iter = iter_start sample_doc 12"

definition sample_elem :: bson_iter_t where
  "sample_elem = (case bson_iter_next sample_iter of Inr (_, it) \<Rightarrow> it | Inl _ \<Rightarrow> iter_zero)"

lemma sample_iter_wf: "iter_wf sample_iter" "iter_safe sample_iter"
  by (simp add: sample_iter_def sample_doc_def iter_wf_start INT_MAX_def)
    (rule iter_safe_slack [of _ sample_doc], simp_all add: sample_iter_def iter_start_def, code_simp)

lemma sample_next: "bson_iter_next sample_iter = Inr (True, sample_elem)"
  by code_simp

lemma sample_value: "bson_iter_value sample_elem = Inr (Some (V_INT32 7))"
  by code_simp

lemma first_on:
  assumes "iter_wf (iter_start data len)" and "iter_safe (iter_start data len)"
    and "bson_iter_next (iter_start data len) = Inr (True, it)" and "ITER_TYPE it = Inr t"
  shows "iter_on t data it"
proof -
  have "iter_raw (iter_start data len) = Some data" by (simp add: iter_start_def)
  from next_internal_post [OF assms(1) this iter_safe_next [OF assms(2)]] assms(3)
  obtain t' where "iter_on t' data it"
    by (auto simp: bson_iter_next_def next_post_def bindc_eq_Inr)
  with ITER_TYPE_on [OF this] assms(4) show ?thesis by simp
qed

lemma sample_on: "iter_on BSON_TYPE_INT32 sample_doc sample_elem"
  using sample_iter_wf sample_next unfolding sample_iter_def by (rule first_on) code_simp



text \<open>
  The defect of the decoder: a binary of the deprecated subtype whose outer
  length passes the check although fewer than nine bytes of the buffer are left
  makes \<^verbatim>\<open>_bson_iter_next_internal\<close> read past the end of the buffer.
\<close>

theorem deprecated_binary_overreads:
  assumes "iter_wf it" and "next_overreads it"
  shows "bson_iter_next_internal it = Inl OutOfBounds"
  by (rule next_internal_overread [OF assms])

text \<open>Thirteen bytes that a length check of the whole document accepts.\<close>

definition overread_doc :: bytes where
  "overread_doc = [13,0,0,0, 5, 0x61, 0, 4,0,0,0, 2, 0]"

theorem deprecated_binary_overreads_witness:
  "bson_iter_init_from_data overread_doc 13 = Inr (True, iter_start overread_doc 13) \<and>
   bson_iter_next_internal (iter_start overread_doc 13) = Inl OutOfBounds"
proof
  have wf: "iter_wf (iter_start overread_doc 13)"
    by (rule iter_wf_start) (code_simp, simp add: INT_MAX_def)
  have "scan_nul overread_doc 5 13 = Inr (Some 6)" by code_simp
  moreover have "le32_at overread_doc 7 = 4" by code_simp
  ultimately have "next_overreads (iter_start overread_doc 13)"
    by (auto simp: next_overreads_def binary_overread_def iter_start_def overread_doc_def
        intro!: exI [of _ 6])
  with wf show "bson_iter_next_internal (iter_start overread_doc 13) = Inl OutOfBounds"
    by (rule deprecated_binary_overreads)
  have "load32 overread_doc 0 = Inr 13" "load8 overread_doc 12 = Inr 0" by code_simp+
  then show "bson_iter_init_from_data overread_doc 13 = Inr (True, iter_start overread_doc 13)"
    by (simp add: bson_iter_init_from_data_def INT_MAX_def)
qed

text \<open>
  C38. After a successful \<^verbatim>\<open>bson_iter_next\<close> the accessors are memory safe for every
  element type: \<^verbatim>\<open>bson_iter_value\<close> returns a value, and every pointer and length in
  it describes bytes inside the document (a string with its terminator).
\<close>

theorem iter_value_safe:
  assumes "iter_wf it" and "\<not> next_overreads it" and "bson_iter_next it = Inr (True, it')"
  shows "wpc (bson_iter_value it') (\<lambda>v. \<exists>x. v = Some x \<and> value_in_bounds x)"
  using next_progress [OF assms(1,2)] assms(3) iter_value_in_bounds by fastforce

theorem iter_value_safe_witness:
  "\<exists>x. bson_iter_value sample_elem = Inr (Some x) \<and> value_in_bounds x"
  using iter_value_safe [OF sample_iter_wf(1) iter_safe_next [OF sample_iter_wf(2)] sample_next]
  by (auto simp: wpc_iff)

text \<open>
  \<^verbatim>\<open>bson_iter_find\<close> always returns, and it stops at the first element whose key is
  the given one: every element passed over has another key, and it reports
  failure only where \<^verbatim>\<open>bson_iter_next\<close> does.
\<close>

theorem find_first_key:
  assumes "iter_wf it" and "iter_safe it" and "0 \<notin> set key"
  shows "\<exists>found it' m. bson_iter_find it (key @ 0 # rest) = Some (Inr (found, it')) \<and>
    iter_skips (\<lambda>k. k = key) it m \<and> bson_iter_next m = Inr (found, it') \<and>
    (found \<longrightarrow> (\<exists>t data. iter_on t data it' \<and> cstr (drop (unat (iter_key it')) data) = key))"
  using find_post(2) [OF assms, of rest] unfolding search_post_def by blast

theorem find_first_key_witness:
  "\<exists>found it' m. bson_iter_find sample_iter ([0x61] @ 0 # []) = Some (Inr (found, it')) \<and>
    iter_skips (\<lambda>k. k = [0x61]) sample_iter m \<and> bson_iter_next m = Inr (found, it') \<and>
    (found \<longrightarrow> (\<exists>t data. iter_on t data it' \<and> cstr (drop (unat (iter_key it')) data) = [0x61]))"
  by (rule find_first_key [OF sample_iter_wf]) simp

text \<open>
  \<^verbatim>\<open>bson_iter_find_case\<close> returns and stops at the first element whose key equals
  the given one up to ASCII case.
\<close>

theorem find_case_first_key:
  assumes "iter_wf it" and "iter_safe it" and "0 \<notin> set key"
  shows "\<exists>found it' m. bson_iter_find_case it (key @ 0 # rest) = Some (Inr (found, it')) \<and>
    iter_skips (\<lambda>k. map c_tolower key = map c_tolower k) it m \<and> bson_iter_next m = Inr (found, it') \<and>
    (found \<longrightarrow> (\<exists>t data. iter_on t data it' \<and>
       map c_tolower (cstr (drop (unat (iter_key it')) data)) = map c_tolower key))"
  using find_post(3) [OF assms, of rest] unfolding search_post_def by metis

theorem find_case_first_key_witness:
  "\<exists>found it' m. bson_iter_find_case sample_iter ([0x41] @ 0 # []) = Some (Inr (found, it')) \<and>
    iter_skips (\<lambda>k. map c_tolower [0x41] = map c_tolower k) sample_iter m \<and>
    bson_iter_next m = Inr (found, it') \<and>
    (found \<longrightarrow> (\<exists>t data. iter_on t data it' \<and>
       map c_tolower (cstr (drop (unat (iter_key it')) data)) = map c_tolower [0x41]))"
  by (rule find_case_first_key [OF sample_iter_wf]) simp

text \<open>
  \<^verbatim>\<open>bson_iter_find_descendant\<close> terminates without a fault on every document and
  every dotted path, descending through sub-documents and arrays, and a
  descendant it returns stands on a decoded element.
\<close>

theorem find_descendant_safe:
  assumes "iter_wf it" and "iter_safe it" and "0 \<in> set dotkey"
  shows "\<exists>r. bson_iter_find_descendant it dotkey = Some (Inr r) \<and>
    (\<forall>d. r = Some d \<longrightarrow> (\<exists>t data. iter_on t data d))"
  by (rule find_descendant_returns [OF assms])

theorem find_descendant_safe_witness:
  "\<exists>r. bson_iter_find_descendant sample_iter [0x61, 0x2E, 0x62, 0] = Some (Inr r) \<and>
    (\<forall>d. r = Some d \<longrightarrow> (\<exists>t data. iter_on t data d))"
  by (rule find_descendant_safe [OF sample_iter_wf]) simp

text \<open>
  Overwriting a 32-bit integer in place is a round trip: the value read back
  is the one written, the buffer keeps its length, and no byte outside the four
  of the value changes.
\<close>

theorem overwrite_int32_roundtrip:
  assumes "iter_on BSON_TYPE_INT32 data it"
  shows "wpc (bson_iter_overwrite_int32 it v) (\<lambda>it'. bson_iter_int32 it' = Inr v \<and>
    (\<exists>data'. iter_raw it' = Some data' \<and> length data' = length data \<and>
      (\<forall>j. j < unat (iter_d1 it) \<or> unat (iter_d1 it) + 4 \<le> j \<longrightarrow> data' ! j = data ! j)))"
proof -
  have len: "unat (iter_d1 it) + length (le32 v) \<le> length data"
    using iter_on_bounds [OF assms] by (simp add: elem_ok_def Let_def)
  show ?thesis
    using overwrite_int32 [OF assms, of v]
    by - (rule poke_on [OF assms len], auto simp: bson_iter_overwrite_int32_def)
qed

theorem overwrite_int32_roundtrip_witness:
  "wpc (bson_iter_overwrite_int32 sample_elem 9) (\<lambda>it'. bson_iter_int32 it' = Inr 9 \<and>
    (\<exists>data'. iter_raw it' = Some data' \<and> length data' = length sample_doc \<and>
      (\<forall>j. j < unat (iter_d1 sample_elem) \<or> unat (iter_d1 sample_elem) + 4 \<le> j \<longrightarrow>
        data' ! j = sample_doc ! j)))"
  by (rule overwrite_int32_roundtrip [OF sample_on])

lemma unsigned_div_negative:
  assumes "sint (v :: u64) < 0"
  shows "0 < sint (v div 1000)"
proof -
  have big: "2 ^ 63 \<le> uint v"
  proof (rule ccontr)
    assume "\<not> 2 ^ 63 \<le> uint v"
    then have "signed_take_bit 63 (uint v) = uint v"
      by (intro signed_take_bit_int_eq_self) (simp_all add: order_trans [of _ 0])
    with assms show False by (simp add: sint_uint not_less)
  qed
  have eq: "uint (v div 1000) = uint v div 1000" by (simp add: uint_div)
  have "uint v < 2 ^ 64" using uint_lt2p [of v] by simp
  with big have "0 < uint (v div 1000)" "uint (v div 1000) < 2 ^ 63" by (simp_all add: eq)
  moreover from this have "signed_take_bit 63 (uint (v div 1000)) = uint (v div 1000)"
    by (intro signed_take_bit_int_eq_self) simp_all
  ultimately show ?thesis by (simp add: sint_uint)
qed

text \<open>
  \<^verbatim>\<open>bson_iter_time_t\<close> on a date before 1970: the millisecond count is negative, it
  is converted to unsigned before the division by \<^verbatim>\<open>1000UL\<close>, and the result is
  positive and not the number of seconds, for every such date.
\<close>

theorem time_t_wrong_before_1970:
  assumes on: "iter_on BSON_TYPE_DATE_TIME data it" and neg: "sint (le64_at data (unat (iter_d1 it))) < 0"
  shows "wpc (bson_iter_time_t it) (\<lambda>s. 0 < sint s \<and>
    sint s \<noteq> c_sdiv (sint (le64_at data (unat (iter_d1 it)))) 1000)"
proof -
  let ?v = "le64_at data (unat (iter_d1 it))"
  have "c_sdiv (sint ?v) 1000 \<le> 0" using neg by (simp add: c_sdiv_def pos_imp_zdiv_nonneg_iff)
  with unsigned_div_negative [OF neg] show ?thesis
    by (simp add: time_t_value [OF on refl])
qed

text \<open>A document whose field \<^verbatim>\<open>d\<close> is the date one second before 1970.\<close>

definition old_date_doc :: bytes where
  "old_date_doc = [16,0,0,0, 9, 0x64, 0, 0x18,0xFC,0xFF,0xFF,0xFF,0xFF,0xFF,0xFF, 0, 0,0,0,0]"

definition old_date_elem :: bson_iter_t where
  "old_date_elem = (case bson_iter_next (iter_start old_date_doc 16) of Inr (_, it) \<Rightarrow> it | Inl _ \<Rightarrow> iter_zero)"

lemma old_date_on: "iter_on BSON_TYPE_DATE_TIME old_date_doc old_date_elem"
  and old_date_value: "sint (le64_at old_date_doc (unat (iter_d1 old_date_elem))) = - 1000"
proof -
  have "iter_wf (iter_start old_date_doc 16)" by (rule iter_wf_start) (code_simp, simp add: INT_MAX_def)
  moreover have "iter_safe (iter_start old_date_doc 16)"
    by (rule iter_safe_slack [of _ old_date_doc]) (simp_all add: iter_start_def, code_simp)
  moreover have "bson_iter_next (iter_start old_date_doc 16) = Inr (True, old_date_elem)" by code_simp
  moreover have "ITER_TYPE old_date_elem = Inr BSON_TYPE_DATE_TIME" by code_simp
  ultimately show "iter_on BSON_TYPE_DATE_TIME old_date_doc old_date_elem" by (rule first_on)
  show "sint (le64_at old_date_doc (unat (iter_d1 old_date_elem))) = - 1000" by code_simp
qed


theorem time_t_wrong_before_1970_witness:
  "wpc (bson_iter_time_t old_date_elem) (\<lambda>s. 0 < sint s \<and> sint s \<noteq> - 1)"
  using time_t_wrong_before_1970 [OF old_date_on] by (simp add: old_date_value c_sdiv_def)

end
