(* ===== verification/Bson_Doc.thy ===== *)
theory Bson_Doc
  imports Bson_String Bson_Access
begin

text \<open>
  \<^verbatim>\<open>bson.c\<close>, first part: the document \<^verbatim>\<open>bson_t\<close> with its two layouts (the bytes
  inline in the structure, or in a separate buffer), the growth of both, and
  \<^verbatim>\<open>_bson_append\<close>, through which every field is added. A child document under
  construction shares its parent's buffer, so the buffers live in a store.
\<close>

section \<open>The store of buffers\<close>

text \<open>
  A cell is a pair of a buffer pointer and a buffer length that documents refer to
  by the members \<^verbatim>\<open>buf\<close> and \<^verbatim>\<open>buflen\<close>: the memory pointed to (\<open>None\<close> for \<^verbatim>\<open>NULL\<close> and for
  memory that has been freed) and the recorded length. \<open>st_fresh\<close> gives the contents of
  the memory of each allocation.
\<close>

record bson_cell =
  cell_mem :: "bytes option"
  cell_buflen :: u64

record bson_store =
  st_cells :: "nat \<Rightarrow> bson_cell"
  st_next :: nat
  st_fresh :: "nat \<Rightarrow> fresh"

definition st_set :: "nat \<Rightarrow> bson_cell \<Rightarrow> bson_store \<Rightarrow> bson_store" where
  "st_set i c st = st\<lparr>st_cells := (st_cells st)(i := c)\<rparr>"

text \<open>A fresh cell whose memory was allocated with \<open>n\<close> bytes.\<close>

definition st_malloc :: "u64 \<Rightarrow> bson_store \<Rightarrow> bytes" where
  "st_malloc n st = bson_malloc (st_fresh st (st_next st)) (unat n)"

definition st_new :: "bson_cell \<Rightarrow> bson_store \<Rightarrow> nat \<times> bson_store" where
  "st_new c st = (st_next st, (st_set (st_next st) c st)\<lparr>st_next := st_next st + 1\<rparr>)"

section \<open>bson\_t\<close>

datatype bson_flag = BSON_FLAG_INLINE | BSON_FLAG_STATIC | BSON_FLAG_RDONLY | BSON_FLAG_CHILD
  | BSON_FLAG_IN_CHILD | BSON_FLAG_NO_FREE

abbreviation (input) BSON_INLINE_DATA_SIZE :: nat where "BSON_INLINE_DATA_SIZE \<equiv> 120"

text \<open>
  Both layouts in one record: \<open>bson_data\<close> is meaningful when \<^verbatim>\<open>BSON_FLAG_INLINE\<close> is set,
  the rest when it is not. \<open>bson_buf\<close> is the cell \<^verbatim>\<open>buf\<close> and \<^verbatim>\<open>buflen\<close> point to, \<open>bson_alloc\<close>
  the cell of the document's own members \<^verbatim>\<open>alloc\<close> and \<^verbatim>\<open>alloclen\<close> (\<open>None\<close> when they are
  \<^verbatim>\<open>NULL\<close> and 0), and \<open>bson_realloc_fn\<close> says
  that \<^verbatim>\<open>realloc\<close> is not \<^verbatim>\<open>NULL\<close>. The member \<^verbatim>\<open>parent\<close> is written and never read.
\<close>

record bson_t =
  bson_flags :: "bson_flag set"
  bson_len :: u32
  bson_data :: bytes
  bson_depth :: u32
  bson_buf :: nat
  bson_alloc :: "nat option"
  bson_offset :: u64
  bson_realloc_fn :: bool

definition is_inline :: "bson_t \<Rightarrow> bool" where
  "is_inline b \<longleftrightarrow> BSON_FLAG_INLINE \<in> bson_flags b"

definition INT32_MAX :: u64 where
  "INT32_MAX = 2147483647"

definition BSON_MAX_SIZE :: u64 where
  "BSON_MAX_SIZE = 2147483647"

section \<open>Growing\<close>

definition bson_impl_inline_grow :: "bson_t \<Rightarrow> bson_store \<Rightarrow> u64 \<Rightarrow> (bool \<times> bson_t \<times> bson_store) c" where
  "bson_impl_inline_grow b st sz =
     (if ucast (bson_len b) + sz \<le> of_nat BSON_INLINE_DATA_SIZE then Inr (True, b, st)
      else let req = bson_next_power_of_two (ucast (bson_len b) + sz)
      in if req \<le> INT32_MAX
      then bindc (memcpy_from (bson_data b) 0 (unat (bson_len b))) (\<lambda>old.
        bindc (memcpy_to (st_malloc req st) 0 old) (\<lambda>data.
          case st_new \<lparr>cell_mem = Some data, cell_buflen = req\<rparr> st of (i, st') \<Rightarrow>
            Inr (True, b\<lparr>bson_flags := bson_flags b - {BSON_FLAG_INLINE}, bson_data := [], bson_depth := 0,
              bson_buf := i, bson_alloc := Some i, bson_offset := 0, bson_realloc_fn := True\<rparr>, st')))
      else Inr (False, b, st))"

definition bson_impl_alloc_grow :: "bson_t \<Rightarrow> bson_store \<Rightarrow> u64 \<Rightarrow> (bool \<times> bson_t \<times> bson_store) c" where
  "bson_impl_alloc_grow b st sz =
     (let req = bson_offset b + ucast (bson_len b) + sz + ucast (bson_depth b);
          cell = st_cells st (bson_buf b)
      in if req \<le> cell_buflen cell then Inr (True, b, st)
      else let req = bson_next_power_of_two req
      in if req \<le> INT32_MAX \<and> bson_realloc_fn b
      then let mem = bson_realloc (st_fresh st (st_next st))
                 (case cell_mem cell of None \<Rightarrow> [] | Some m \<Rightarrow> m) (unat req)
        in Inr (True, b, (st_set (bson_buf b) \<lparr>cell_mem = Some mem, cell_buflen = req\<rparr> st)
                 \<lparr>st_next := st_next st + 1\<rparr>)
      else Inr (False, b, st))"

definition bson_grow :: "bson_t \<Rightarrow> bson_store \<Rightarrow> u32 \<Rightarrow> (bool \<times> bson_t \<times> bson_store) c" where
  "bson_grow b st sz =
     (if is_inline b then bson_impl_inline_grow b st (ucast sz)
      else bson_impl_alloc_grow b st (ucast sz))"

text \<open>\<^verbatim>\<open>_bson_data\<close>: the pointer to the document's first byte.\<close>

definition bson_get_data :: "bson_t \<Rightarrow> bson_store \<Rightarrow> bytes c" where
  "bson_get_data b st =
     (if is_inline b then Inr (bson_data b)
      else (case cell_mem (st_cells st (bson_buf b)) of
              None \<Rightarrow> Inl OutOfBounds
            | Some m \<Rightarrow> Inr (drop (unat (bson_offset b)) m)))"

text \<open>\<^verbatim>\<open>memcpy (_bson_data (bson) + i, src, ...)\<close>.\<close>

definition doc_write :: "bson_t \<Rightarrow> bson_store \<Rightarrow> nat \<Rightarrow> bytes \<Rightarrow> (bson_t \<times> bson_store) c" where
  "doc_write b st i src =
     (if is_inline b
      then bindc (memcpy_to (bson_data b) i src) (\<lambda>d. Inr (b\<lparr>bson_data := d\<rparr>, st))
      else (case cell_mem (st_cells st (bson_buf b)) of
              None \<Rightarrow> Inl OutOfBounds
            | Some m \<Rightarrow> bindc (memcpy_to m (unat (bson_offset b) + i) src) (\<lambda>m'.
                Inr (b, st_set (bson_buf b) ((st_cells st (bson_buf b))\<lparr>cell_mem := Some m'\<rparr>) st))))"

definition bson_encode_length :: "bson_t \<Rightarrow> bson_store \<Rightarrow> (bson_t \<times> bson_store) c" where
  "bson_encode_length b st = doc_write b st 0 (le32 (bson_len b))"

section \<open>Appending\<close>

text \<open>
  The loop over the pairs of a length and a pointer: each piece is copied to the
  position \<^verbatim>\<open>buf\<close>, an index into the document, and \<^verbatim>\<open>len\<close> grows by its length.
\<close>

fun append_pairs :: "bson_t \<Rightarrow> bson_store \<Rightarrow> nat \<Rightarrow> (u32 \<times> bytes) list \<Rightarrow> (nat \<times> bson_t \<times> bson_store) c" where
  "append_pairs b st buf [] = Inr (buf, b, st)"
| "append_pairs b st buf ((data_len, data) # pairs) =
     bindc (memcpy_from data 0 (unat data_len)) (\<lambda>src.
     bindc (doc_write b st buf src) (\<lambda>(b, st).
       append_pairs (b\<lparr>bson_len := bson_len b + data_len\<rparr>) st (buf + unat data_len) pairs))"

definition bson_append_va ::
  "bson_t \<Rightarrow> bson_store \<Rightarrow> u32 \<Rightarrow> (u32 \<times> bytes) list \<Rightarrow> (bool \<times> bson_t \<times> bson_store) c" where
  "bson_append_va b st n_bytes pairs =
     bindc (c_assert (BSON_FLAG_IN_CHILD \<notin> bson_flags b)) (\<lambda>_.
     bindc (c_assert (BSON_FLAG_RDONLY \<notin> bson_flags b)) (\<lambda>_.
     bindc (bson_grow b st n_bytes) (\<lambda>(ok, b, st).
       if \<not> ok then Inr (False, b, st)
       else bindc (append_pairs b st (unat (bson_len b) - 1) pairs) (\<lambda>(buf, b, st).
         bindc (bson_encode_length b st) (\<lambda>(b, st).
         bindc (doc_write b st buf [0]) (\<lambda>(b, st). Inr (True, b, st)))))))"

definition bson_append ::
  "bson_t \<Rightarrow> bson_store \<Rightarrow> u32 \<Rightarrow> (u32 \<times> bytes) list \<Rightarrow> (bool \<times> bson_t \<times> bson_store) c" where
  "bson_append b st n_bytes pairs =
     bindc (c_assert (pairs \<noteq> [])) (\<lambda>_.
     bindc (c_assert (fst (hd pairs) \<noteq> 0)) (\<lambda>_.
       if ucast n_bytes > BSON_MAX_SIZE - ucast (bson_len b) then Inr (False, b, st)
       else bson_append_va b st n_bytes pairs))"

section \<open>Sub-documents\<close>

text \<open>\<^verbatim>\<open>if (key_length < 0) key_length = (int) strlen (key);\<close> of every append function.\<close>

definition key_len :: "bytes \<Rightarrow> u32 \<Rightarrow> u32 c" where
  "key_len key key_length =
     (if sint key_length < 0 then bindc (c_strlen key) (\<lambda>n. Inr (of_nat n)) else Inr key_length)"

definition bson_append_bson_begin ::
  "bson_t \<Rightarrow> bson_store \<Rightarrow> bytes \<Rightarrow> u32 \<Rightarrow> u8 \<Rightarrow> (bool \<times> bson_t \<times> bson_store \<times> bson_t option) c" where
  "bson_append_bson_begin b st key key_length child_type =
     bindc (c_assert (BSON_FLAG_RDONLY \<notin> bson_flags b)) (\<lambda>_.
     bindc (c_assert (BSON_FLAG_IN_CHILD \<notin> bson_flags b)) (\<lambda>_.
     bindc (c_assert (child_type = BSON_TYPE_DOCUMENT \<or> child_type = BSON_TYPE_ARRAY)) (\<lambda>_.
     bindc (key_len key key_length) (\<lambda>key_length.
     bindc (if is_inline b
            then bindc (c_assert (bson_len b \<le> 120)) (\<lambda>_.
              bindc (bson_grow b st (128 - bson_len b)) (\<lambda>(ok, b, st).
                if \<not> ok then Inr (False, b, st)
                else bindc (c_assert (\<not> is_inline b)) (\<lambda>_. Inr (True, b, st))))
            else Inr (True, b, st)) (\<lambda>(ok, b, st).
       if \<not> ok then Inr (False, b, st, None)
       else bindc (bson_append b st (1 + key_length + 1 + 5)
           [(1, [child_type]), (key_length, key), (1, [0]), (5, [5, 0, 0, 0, 0])]) (\<lambda>(ok, b, st).
         if \<not> ok then Inr (False, b, st, None)
         else let b = b\<lparr>bson_flags := bson_flags b \<union> {BSON_FLAG_IN_CHILD}\<rparr>;
                  child = \<lparr>bson_flags = {BSON_FLAG_CHILD, BSON_FLAG_NO_FREE, BSON_FLAG_STATIC},
                    bson_len = 5, bson_data = [],
                    bson_depth = (if BSON_FLAG_CHILD \<in> bson_flags b then bson_depth b + 1 else 1),
                    bson_buf = bson_buf b, bson_alloc = None,
                    bson_offset = bson_offset b + ucast (bson_len b) - 1 - 5,
                    bson_realloc_fn = bson_realloc_fn b\<rparr>
           in Inr (True, b, st, Some child)))))))"

definition bson_append_bson_end ::
  "bson_t \<Rightarrow> bson_store \<Rightarrow> bson_t \<Rightarrow> (bool \<times> bson_t \<times> bson_store) c" where
  "bson_append_bson_end b st child =
     bindc (c_assert (BSON_FLAG_IN_CHILD \<in> bson_flags b)) (\<lambda>_.
     bindc (c_assert (BSON_FLAG_IN_CHILD \<notin> bson_flags child)) (\<lambda>_.
       let b = b\<lparr>bson_flags := bson_flags b - {BSON_FLAG_IN_CHILD},
                 bson_len := bson_len b + bson_len child - 5\<rparr>
       in bindc (doc_write b st (unat (bson_len b - 1)) [0]) (\<lambda>(b, st).
         bindc (bson_encode_length b st) (\<lambda>(b, st). Inr (True, b, st)))))"

section \<open>The representation of a document\<close>

text \<open>
  \<open>doc_space b st n\<close>: the layout is sound and has room for a document of \<open>n\<close> bytes, with
  one trailing byte for each enclosing document. \<open>doc_rep b st body\<close>: the bytes of the
  document are its length, the elements \<open>body\<close>, and a NUL.
\<close>

definition cell_bytes :: "bson_store \<Rightarrow> nat \<Rightarrow> bytes" where
  "cell_bytes st i = (case cell_mem (st_cells st i) of None \<Rightarrow> [] | Some m \<Rightarrow> m)"

definition doc_space :: "bson_t \<Rightarrow> bson_store \<Rightarrow> nat \<Rightarrow> bool" where
  "doc_space b st n \<longleftrightarrow>
     (if is_inline b then length (bson_data b) = BSON_INLINE_DATA_SIZE \<and> n \<le> BSON_INLINE_DATA_SIZE
      else bson_buf b < st_next st \<and> cell_mem (st_cells st (bson_buf b)) \<noteq> None \<and>
        unat (bson_offset b) + n + unat (bson_depth b) \<le> unat (cell_buflen (st_cells st (bson_buf b))) \<and>
        unat (cell_buflen (st_cells st (bson_buf b))) \<le> length (cell_bytes st (bson_buf b)) \<and>
        unat (cell_buflen (st_cells st (bson_buf b))) \<le> 2147483647)"

definition doc_ptr :: "bson_t \<Rightarrow> bson_store \<Rightarrow> bytes" where
  "doc_ptr b st = (if is_inline b then bson_data b else drop (unat (bson_offset b)) (cell_bytes st (bson_buf b)))"

definition doc_rep :: "bson_t \<Rightarrow> bson_store \<Rightarrow> bytes \<Rightarrow> bool" where
  "doc_rep b st body \<longleftrightarrow>
     unat (bson_len b) = length body + 5 \<and> length body + 5 \<le> 2147483647 \<and> doc_space b st (length body + 5) \<and>
     take (length body + 5) (doc_ptr b st) = le32 (bson_len b) @ body @ [0]"

text \<open>
  What an operation on a document leaves alone: other cells, the flags other than the
  layout, and, for a document in a buffer, everything before its offset.
\<close>

definition doc_frame :: "bson_t \<Rightarrow> bson_store \<Rightarrow> bson_t \<Rightarrow> bson_store \<Rightarrow> bool" where
  "doc_frame b st b' st' \<longleftrightarrow>
     st_next st \<le> st_next st' \<and>
     (\<forall>i < st_next st. (is_inline b \<or> i \<noteq> bson_buf b) \<longrightarrow> st_cells st' i = st_cells st i) \<and>
     (is_inline b \<and> \<not> is_inline b' \<longrightarrow> st_next st \<le> bson_buf b' \<and> bson_offset b' = 0 \<and> bson_depth b' = 0 \<and>
        bson_realloc_fn b') \<and>
     bson_flags b' - {BSON_FLAG_INLINE} = bson_flags b - {BSON_FLAG_INLINE} \<and>
     (\<not> is_inline b \<longrightarrow> \<not> is_inline b' \<and> bson_buf b' = bson_buf b \<and> bson_alloc b' = bson_alloc b \<and>
        bson_offset b' = bson_offset b \<and> bson_depth b' = bson_depth b \<and>
        bson_realloc_fn b' = bson_realloc_fn b \<and>
        take (unat (bson_offset b)) (cell_bytes st' (bson_buf b)) =
          take (unat (bson_offset b)) (cell_bytes st (bson_buf b)))"

lemma doc_frame_refl [simp]: "doc_frame b st b st"
  by (simp add: doc_frame_def)

lemma doc_frame_trans:
  "doc_frame b st b' st' \<Longrightarrow> doc_frame b' st' b'' st'' \<Longrightarrow> doc_frame b st b'' st''"
  unfolding doc_frame_def
  by (cases "is_inline b"; cases "is_inline b'"; cases "is_inline b''") auto

lemma doc_frame_len [simp]:
  "doc_frame b st (b'\<lparr>bson_len := l\<rparr>) st' = doc_frame b st b' st'"
  "doc_frame (b\<lparr>bson_len := l\<rparr>) st b' st' = doc_frame b st b' st'"
  by (simp_all add: doc_frame_def is_inline_def)

lemma doc_space_len [simp]: "doc_space (b\<lparr>bson_len := l\<rparr>) st n = doc_space b st n"
  "doc_ptr (b\<lparr>bson_len := l\<rparr>) st = doc_ptr b st"
  by (simp_all add: doc_space_def doc_ptr_def is_inline_def)

lemma doc_space_mono: "doc_space b st n \<Longrightarrow> k \<le> n \<Longrightarrow> doc_space b st k"
  by (auto simp: doc_space_def split: if_splits)

lemma doc_space_data:
  assumes "doc_space b st n"
  shows "bson_get_data b st = Inr (doc_ptr b st)" and "n \<le> length (doc_ptr b st)"
  using assms by (auto simp: doc_space_def bson_get_data_def doc_ptr_def cell_bytes_def split: if_splits)

lemma doc_write_in:
  assumes space: "doc_space b st n" and i: "i + length src \<le> n"
  shows "wpc (doc_write b st i src) (\<lambda>(b', st'). doc_frame b st b' st' \<and> doc_space b' st' n \<and>
    bson_len b' = bson_len b \<and> bson_flags b' = bson_flags b \<and>
    doc_ptr b' st' = take i (doc_ptr b st) @ src @ drop (i + length src) (doc_ptr b st))"
proof (cases "is_inline b")
  case True
  with assms show ?thesis
    by (simp add: doc_write_def doc_space_def wp doc_frame_def doc_ptr_def is_inline_def)
next
  case False
  let ?c = "st_cells st (bson_buf b)" and ?o = "unat (bson_offset b)"
  from False space obtain m where m: "cell_mem ?c = Some m" "?o + n \<le> length m"
    "cell_bytes st (bson_buf b) = m"
    by (auto simp: doc_space_def cell_bytes_def)
  let ?m = "take (?o + i) m @ src @ drop (?o + i + length src) m"
  have "doc_write b st i src = Inr (b, st_set (bson_buf b) (?c\<lparr>cell_mem := Some ?m\<rparr>) st)"
    using False m i by (simp add: doc_write_def memcpy_to_def add.assoc)
  moreover have "drop ?o ?m = take i (drop ?o m) @ src @ drop (i + length src) (drop ?o m)"
    using m i by (simp add: take_drop add.commute add.left_commute)
  ultimately show ?thesis
    using False m i space
    by (simp add: doc_frame_def doc_space_def doc_ptr_def cell_bytes_def st_set_def)
qed


lemma doc_writeE:
  assumes "doc_space b st n" and "i + length src \<le> n"
  obtains b' st' where "doc_write b st i src = Inr (b', st')" and "doc_frame b st b' st'"
    and "doc_space b' st' n" and "bson_len b' = bson_len b" and "bson_flags b' = bson_flags b"
    and "doc_ptr b' st' = take i (doc_ptr b st) @ src @ drop (i + length src) (doc_ptr b st)"
  using doc_write_in [OF assms] that by (auto simp: wpc_iff)

section \<open>Growing\<close>

text \<open>
  What a successful growth by \<open>k\<close> bytes gives: the room asked for, and the same bytes.
  Growth cannot fail while the buffer stays within \<open>2^30\<close> bytes.
\<close>

definition doc_fits :: "bson_t \<Rightarrow> nat \<Rightarrow> bool" where
  "doc_fits b k \<longleftrightarrow>
     (if is_inline b then unat (bson_len b) + k \<le> 2 ^ 30
      else bson_realloc_fn b \<and>
        unat (bson_offset b) + unat (bson_len b) + k + unat (bson_depth b) \<le> 2 ^ 30)"

lemma next_power_fits:
  assumes "1 < unat v" and "unat v \<le> 2 ^ 30"
  shows "bson_next_power_of_two v \<le> INT32_MAX"
proof -
  obtain m where m: "unat (bson_next_power_of_two v) = 2 ^ m" "2 ^ m < 2 * unat v"
    using next_power_of_two [OF assms(1)] assms(2) by force
  then have "(2 :: nat) ^ m < 2 ^ 31" using assms(2) by simp
  then show ?thesis using m(1) by (simp add: INT32_MAX_def word_le_nat_alt)
qed

definition grow_post :: "bson_t \<Rightarrow> bson_store \<Rightarrow> nat \<Rightarrow> bool \<times> bson_t \<times> bson_store \<Rightarrow> bool" where
  "grow_post b st k r \<longleftrightarrow>
     (case r of (ok, b', st') \<Rightarrow>
        if ok then doc_frame b st b' st' \<and> doc_space b' st' (unat (bson_len b) + k) \<and>
          bson_len b' = bson_len b \<and>
          take (unat (bson_len b)) (doc_ptr b' st') = take (unat (bson_len b)) (doc_ptr b st)
        else b' = b \<and> st' = st \<and> \<not> doc_fits b k)"

lemma inline_grow:
  assumes "is_inline b" and "doc_space b st (unat (bson_len b))" and "0 < unat k" and "unat k < 2 ^ 32"
  shows "wpc (bson_impl_inline_grow b st k) (grow_post b st (unat k))"
proof -
  let ?l = "unat (bson_len b)" and ?sum = "ucast (bson_len b) + k" and ?d = "bson_data b"
  have len: "length ?d = 120" "?l \<le> 120" using assms(1,2) by (simp_all add: doc_space_def)
  have sum: "unat ?sum = ?l + unat k" using len(2) assms(4) by (simp add: u64_add)
  show ?thesis
  proof (cases "?l + unat k \<le> 120")
    case True
    with assms(1) len sum show ?thesis
      by (simp add: bson_impl_inline_grow_def word_le_nat_alt grow_post_def doc_space_def)
  next
    case False
    have "1 < unat ?sum" "unat ?sum \<le> 2 ^ 63" using False sum len assms(4) by simp_all
    then obtain m where m: "unat (bson_next_power_of_two ?sum) = 2 ^ m" "unat ?sum \<le> 2 ^ m"
      using next_power_of_two by metis
    let ?req = "bson_next_power_of_two ?sum"
    have fresh: "?l \<le> length (st_malloc ?req st)" using m sum by (simp add: st_malloc_def)
    show ?thesis
    proof (cases "?req \<le> INT32_MAX")
      case True
      let ?m = "take ?l ?d @ drop ?l (st_malloc ?req st)"
      have "bson_impl_inline_grow b st k =
          Inr (True, b\<lparr>bson_flags := bson_flags b - {BSON_FLAG_INLINE}, bson_data := [], bson_depth := 0,
              bson_buf := st_next st, bson_alloc := Some (st_next st), bson_offset := 0,
              bson_realloc_fn := True\<rparr>,
            (st_set (st_next st) \<lparr>cell_mem = Some ?m, cell_buflen = ?req\<rparr> st)\<lparr>st_next := st_next st + 1\<rparr>)"
        using True False len fresh sum
        by (simp add: bson_impl_inline_grow_def word_le_nat_alt st_new_def memcpy_from_def memcpy_to_def Let_def)
      moreover have "length ?m = unat ?req" "take ?l ?m = take ?l ?d"
        using fresh len by (simp_all add: st_malloc_def)
      moreover have "unat ?req \<le> 2147483647" using True by (simp add: INT32_MAX_def word_le_nat_alt)
      ultimately show ?thesis
        using assms(1) len m sum
        by (simp add: grow_post_def doc_frame_def doc_space_def doc_ptr_def cell_bytes_def is_inline_def st_set_def)
    next
      case req: False
      then have "\<not> doc_fits b (unat k)"
        using next_power_fits [OF \<open>1 < unat ?sum\<close>] assms(1) sum by (auto simp: doc_fits_def)
      with req False sum show ?thesis
        by (simp add: bson_impl_inline_grow_def word_le_nat_alt grow_post_def Let_def)
    qed
  qed
qed

lemma alloc_grow:
  assumes inl: "\<not> is_inline b" and space: "doc_space b st (unat (bson_len b))" and k: "0 < unat k" "unat k < 2 ^ 32"
    and l0: "0 < unat (bson_len b)"
  shows "wpc (bson_impl_alloc_grow b st k) (grow_post b st (unat k))"
proof -
  let ?l = "unat (bson_len b)" and ?c = "st_cells st (bson_buf b)" and ?o = "unat (bson_offset b)"
  obtain old where old: "cell_mem ?c = Some old" "cell_bytes st (bson_buf b) = old"
    using inl space by (auto simp: doc_space_def cell_bytes_def)
  have sp: "?o + ?l + unat (bson_depth b) \<le> unat (cell_buflen ?c)" "unat (cell_buflen ?c) \<le> length old"
    "unat (cell_buflen ?c) \<le> 2147483647" "bson_buf b < st_next st"
    using inl space old by (auto simp: doc_space_def)
  let ?sum = "bson_offset b + ucast (bson_len b) + k + ucast (bson_depth b)"
  have sum: "unat ?sum = ?o + ?l + unat k + unat (bson_depth b)"
    using sp k by (simp add: u64_add)
  show ?thesis
  proof (cases "?sum \<le> cell_buflen ?c")
    case True
    with inl sp sum old show ?thesis
      by (simp add: bson_impl_alloc_grow_def grow_post_def doc_space_def word_le_nat_alt cell_bytes_def)
  next
    case False
    have "1 < unat ?sum" "unat ?sum \<le> 2 ^ 63" using False sum sp k l0 by (simp_all add: word_le_nat_alt)
    then obtain m where m: "unat (bson_next_power_of_two ?sum) = 2 ^ m" "unat ?sum \<le> 2 ^ m"
      using next_power_of_two by metis
    let ?req = "bson_next_power_of_two ?sum"
    show ?thesis
    proof (cases "?req \<le> INT32_MAX \<and> bson_realloc_fn b")
      case True
      let ?new = "bson_realloc (st_fresh st (st_next st)) old (unat ?req)"
      have "bson_impl_alloc_grow b st k =
          Inr (True, b, (st_set (bson_buf b) \<lparr>cell_mem = Some ?new, cell_buflen = ?req\<rparr> st)\<lparr>st_next := st_next st + 1\<rparr>)"
        using True False old by (simp add: bson_impl_alloc_grow_def Let_def)
      moreover have "unat ?req \<le> 2147483647" using True by (simp add: INT32_MAX_def word_le_nat_alt)
      moreover have le: "?o + ?l \<le> length old" "?o + ?l \<le> unat ?req" using sp m sum by simp_all
      moreover have "take ?l (drop ?o ?new) = take ?l (drop ?o old)"
        using take_realloc [OF le] by (metis add.commute take_drop)
      moreover have "take ?o ?new = take ?o old" using le by (simp add: take_realloc)
      ultimately show ?thesis
        using inl m sum sp old
        by (simp add: grow_post_def doc_frame_def doc_space_def doc_ptr_def cell_bytes_def st_set_def)
    next
      case req: False
      then have "\<not> doc_fits b (unat k)"
        using next_power_fits [OF \<open>1 < unat ?sum\<close>] inl sum by (auto simp: doc_fits_def)
      with req False show ?thesis
        by (auto simp: bson_impl_alloc_grow_def Let_def grow_post_def)
    qed
  qed
qed

lemma bson_grow_post:
  assumes "doc_space b st (unat (bson_len b))" and "0 < unat k" and "0 < unat (bson_len b)"
  shows "wpc (bson_grow b st k) (grow_post b st (unat k))"
  using inline_grow [of b st "ucast k"] alloc_grow [of b st "ucast k"] assms unat_u32_lt [of k]
  by (simp add: bson_grow_def)


section \<open>Appending\<close>

text \<open>The bytes a list of pairs describes, and that the pointers are valid for their lengths.\<close>

definition pairs_bytes :: "(u32 \<times> bytes) list \<Rightarrow> bytes" where
  "pairs_bytes ps = concat (map (\<lambda>(n, d). take (unat n) d) ps)"

definition pairs_ok :: "(u32 \<times> bytes) list \<Rightarrow> bool" where
  "pairs_ok ps \<longleftrightarrow> (\<forall>(n, d) \<in> set ps. unat n \<le> length d)"

lemma append_pairs_in:
  assumes "doc_space b st n" and "pairs_ok ps" and "buf + length (pairs_bytes ps) \<le> n"
    and "unat (bson_len b) + length (pairs_bytes ps) < 2 ^ 32"
  shows "wpc (append_pairs b st buf ps) (\<lambda>(buf', b', st').
    buf' = buf + length (pairs_bytes ps) \<and> doc_frame b st b' st' \<and> doc_space b' st' n \<and>
    bson_flags b' = bson_flags b \<and>
    unat (bson_len b') = unat (bson_len b) + length (pairs_bytes ps) \<and>
    doc_ptr b' st' = take buf (doc_ptr b st) @ pairs_bytes ps @ drop (buf + length (pairs_bytes ps)) (doc_ptr b st))"
  using assms
proof (induction ps arbitrary: b st buf)
  case Nil
  then show ?case by (simp add: pairs_bytes_def)
next
  case (Cons p ps)
  obtain k d where p: "p = (k, d)" by fastforce
  define src where "src = take (unat k) d"
  have k: "unat k \<le> length d" and ok: "pairs_ok ps" and pb: "pairs_bytes (p # ps) = src @ pairs_bytes ps"
    using Cons.prems(2) by (auto simp: p pairs_ok_def pairs_bytes_def src_def)
  have lsrc: "length src = unat k" using k by (simp add: src_def)
  have len: "unat (bson_len b + k) = unat (bson_len b) + unat k"
    using Cons.prems(4) pb lsrc by (simp add: u32_add)
  have room: "buf + length src \<le> n" using Cons.prems(3) pb by simp
  obtain b1 st1 where w: "doc_write b st buf src = Inr (b1, st1)"
    and f: "doc_frame b st b1 st1" and sp: "doc_space b1 st1 n" and l1: "bson_len b1 = bson_len b"
    and fl: "bson_flags b1 = bson_flags b"
    and ptr: "doc_ptr b1 st1 = take buf (doc_ptr b st) @ src @ drop (buf + length src) (doc_ptr b st)"
    by (rule doc_writeE [OF Cons.prems(1) room])
  have le: "buf + length src \<le> length (doc_ptr b st)"
    using doc_space_data(2) [OF Cons.prems(1)] room by simp
  let ?b = "b1\<lparr>bson_len := bson_len b1 + k\<rparr>"
  have ih: "wpc (append_pairs ?b st1 (buf + unat k) ps) (\<lambda>(buf', b', st').
    buf' = buf + unat k + length (pairs_bytes ps) \<and> doc_frame ?b st1 b' st' \<and> doc_space b' st' n \<and>
    bson_flags b' = bson_flags ?b \<and>
    unat (bson_len b') = unat (bson_len ?b) + length (pairs_bytes ps) \<and>
    doc_ptr b' st' = take (buf + unat k) (doc_ptr ?b st1) @ pairs_bytes ps @
      drop (buf + unat k + length (pairs_bytes ps)) (doc_ptr ?b st1))"
    by (rule Cons.IH) (use sp ok Cons.prems(3,4) pb lsrc len l1 in \<open>simp_all\<close>)
  have eq: "append_pairs b st buf (p # ps) = append_pairs ?b st1 (buf + unat k) ps"
    using w k by (simp add: p memcpy_from_def src_def)
  have ptr': "take (buf + unat k) (doc_ptr b1 st1) = take buf (doc_ptr b st) @ src"
    "drop (buf + (unat k + j)) (doc_ptr b1 st1) = drop (buf + (unat k + j)) (doc_ptr b st)" for j
    using ptr le lsrc by (simp, simp add: ac_simps)
  show ?case
    unfolding eq
    by (rule wpc_mono [OF ih]) (auto simp: pb lsrc ptr' len l1 fl add.assoc intro: doc_frame_trans [OF f])
qed

text \<open>
  \<^verbatim>\<open>_bson_append\<close>: with valid pointers and a byte count that is the sum of the lengths it
  is memory safe. It appends the pieces to the elements, or it fails and changes
  nothing.
\<close>

definition append_post :: "bytes \<Rightarrow> bson_t \<Rightarrow> bson_store \<Rightarrow> bytes \<Rightarrow> bool \<times> bson_t \<times> bson_store \<Rightarrow> bool" where
  "append_post body b st new r \<longleftrightarrow>
     (case r of (ok, b', st') \<Rightarrow>
        if ok then doc_rep b' st' (body @ new) \<and> doc_frame b st b' st'
        else b' = b \<and> st' = st \<and> \<not> doc_fits b (length new))"

lemma bson_append_rep:
  assumes rep: "doc_rep b st body" and fl: "BSON_FLAG_IN_CHILD \<notin> bson_flags b" "BSON_FLAG_RDONLY \<notin> bson_flags b"
    and ps: "pairs_ok ps" "ps \<noteq> []" "fst (hd ps) \<noteq> 0" and n: "unat n = length (pairs_bytes ps)"
  shows "wpc (bson_append b st n ps) (append_post body b st (pairs_bytes ps))"
proof (cases "ucast n > BSON_MAX_SIZE - ucast (bson_len b)")
  case True
  have len: "unat (bson_len b) \<le> 2147483647" using rep by (simp add: doc_rep_def)
  have "2147483647 < unat (bson_len b) + unat n"
    using True len by (simp add: BSON_MAX_SIZE_def word_less_nat_alt u64_sub)
  then have "\<not> doc_fits b (unat n)" by (auto simp: doc_fits_def)
  with True n ps show ?thesis by (simp add: bson_append_def append_post_def)
next
  case False
  let ?l = "length body + 5" and ?k = "length (pairs_bytes ps)" and ?new = "pairs_bytes ps"
  have len: "unat (bson_len b) = ?l" "?l \<le> 2147483647" and sp: "doc_space b st (unat (bson_len b))"
    and ptr: "take ?l (doc_ptr b st) = le32 (bson_len b) @ body @ [0]"
    using rep by (simp_all add: doc_rep_def)
  have max: "?l + ?k \<le> 2147483647"
    using False len n by (simp add: BSON_MAX_SIZE_def word_less_nat_alt u64_sub not_less)
  have k0: "0 < unat n"
  proof -
    obtain k0 d0 qs where "ps = (k0, d0) # qs" using ps(2) by (cases ps) auto
    with ps n show ?thesis by (auto simp: pairs_bytes_def pairs_ok_def unat_gt_0)
  qed
  from bson_grow_post [OF sp k0] len(1) obtain ok b1 st1 where g: "bson_grow b st n = Inr (ok, b1, st1)"
    and gp: "grow_post b st (unat n) (ok, b1, st1)"
    by (auto simp: wpc_iff)
  have eq: "bson_append b st n ps = (if \<not> ok then Inr (False, b1, st1)
       else bindc (append_pairs b1 st1 (unat (bson_len b1) - 1) ps) (\<lambda>(buf, b, st).
         bindc (bson_encode_length b st) (\<lambda>(b, st).
         bindc (doc_write b st buf [0]) (\<lambda>(b, st). Inr (True, b, st)))))"
    using ps fl False g by (simp add: bson_append_def bson_append_va_def)
  show ?thesis
  proof (cases ok)
    case True
    with gp have f1: "doc_frame b st b1 st1" and sp1: "doc_space b1 st1 (?l + ?k)" and l1: "bson_len b1 = bson_len b"
      and ptr1: "take ?l (doc_ptr b1 st1) = le32 (bson_len b) @ body @ [0]"
      by (simp_all add: grow_post_def len n ptr)
    from append_pairs_in [OF sp1 ps(1), of "?l - 1"] max obtain b2 st2
      where a: "append_pairs b1 st1 (?l - 1) ps = Inr (?l - 1 + ?k, b2, st2)"
        and f2: "doc_frame b1 st1 b2 st2" and sp2: "doc_space b2 st2 (?l + ?k)"
        and l2: "unat (bson_len b2) = ?l + ?k"
        and ptr2: "doc_ptr b2 st2 = take (?l - 1) (doc_ptr b1 st1) @ ?new @ drop (?l - 1 + ?k) (doc_ptr b1 st1)"
      by (auto simp: wpc_iff l1 len)
    have "0 + length (le32 (bson_len b2)) \<le> ?l + ?k" "?l - 1 + ?k + length [0 :: u8] \<le> ?l + ?k" by simp_all
    note room = this
    obtain b3 st3 where e: "doc_write b2 st2 0 (le32 (bson_len b2)) = Inr (b3, st3)"
      and f3: "doc_frame b2 st2 b3 st3" and sp3: "doc_space b3 st3 (?l + ?k)" and l3: "bson_len b3 = bson_len b2"
      and ptr3: "doc_ptr b3 st3 = take 0 (doc_ptr b2 st2) @ le32 (bson_len b2) @
        drop (0 + length (le32 (bson_len b2))) (doc_ptr b2 st2)"
      by (rule doc_writeE [OF sp2 room(1)])
    obtain b4 st4 where w: "doc_write b3 st3 (?l - 1 + ?k) [0] = Inr (b4, st4)"
      and f4: "doc_frame b3 st3 b4 st4" and sp4: "doc_space b4 st4 (?l + ?k)" and l4: "bson_len b4 = bson_len b3"
      and ptr4: "doc_ptr b4 st4 = take (?l - 1 + ?k) (doc_ptr b3 st3) @ [0] @
        drop (?l - 1 + ?k + length [0 :: u8]) (doc_ptr b3 st3)"
      by (rule doc_writeE [OF sp3 room(2)])
    have pre: "take (?l - 1) (doc_ptr b1 st1) = le32 (bson_len b) @ body"
      using arg_cong [OF ptr1, of "take (?l - 1)"] by simp
    have "doc_ptr b3 st3 = le32 (bson_len b2) @ body @ ?new @ drop (?l - 1 + ?k) (doc_ptr b1 st1)"
    proof -
      have "doc_ptr b2 st2 = le32 (bson_len b) @ body @ ?new @ drop (?l - 1 + ?k) (doc_ptr b1 st1)"
        unfolding ptr2 pre by simp
      then show ?thesis by (simp add: ptr3)
    qed
    then have "take (?l + ?k) (doc_ptr b4 st4) = le32 (bson_len b4) @ (body @ ?new) @ [0]"
      by (simp add: ptr4 l4 l3)
    then have "doc_rep b4 st4 (body @ ?new)"
      using l2 l3 l4 max sp4 by (simp add: doc_rep_def ac_simps)
    moreover have "doc_frame b st b4 st4"
      using f1 f2 f3 f4 by (blast intro: doc_frame_trans)
    ultimately show ?thesis
      using eq True a e w by (simp add: append_post_def l1 len bson_encode_length_def)
  qed (use gp eq n in \<open>simp add: grow_post_def append_post_def\<close>)
qed


section \<open>Sub-documents under construction\<close>

text \<open>
  \<open>doc_open b st pre child\<close>: a sub-document is being built in the buffer of \<open>b\<close>, right
  after the bytes \<open>pre\<close> (the elements of \<open>b\<close> and the type and key of the new one).
\<close>

definition doc_open :: "bson_t \<Rightarrow> bson_store \<Rightarrow> bytes \<Rightarrow> bson_t \<Rightarrow> bool" where
  "doc_open b st pre child \<longleftrightarrow>
     \<not> is_inline b \<and> \<not> is_inline child \<and> BSON_FLAG_IN_CHILD \<in> bson_flags b \<and>
     bson_buf child = bson_buf b \<and> unat (bson_offset child) = unat (bson_offset b) + length pre + 4 \<and>
     unat (bson_depth child) = unat (bson_depth b) + 1 \<and> unat (bson_len b) = length pre + 10 \<and>
     take (length pre) (drop 4 (doc_ptr b st)) = pre"

lemma open_child_frame:
  assumes "doc_open b st pre child" and "doc_frame child st child' st'"
  shows "doc_open b st' pre child'"
proof -
  let ?o = "unat (bson_offset b)" and ?i = "bson_buf b"
  have eq: "take (?o + (length pre + 4)) (cell_bytes st' ?i) = take (?o + (length pre + 4)) (cell_bytes st ?i)"
    and c: "\<not> is_inline b"
    using assms by (simp_all add: doc_open_def doc_frame_def add.assoc)
  have sub: "take (length pre) (drop 4 (drop ?o m)) = drop (?o + 4) (take (?o + (length pre + 4)) m)" for m :: bytes
    by (simp add: drop_take add.commute)
  have "take (length pre) (drop 4 (doc_ptr b st')) = take (length pre) (drop 4 (doc_ptr b st))"
    using c by (simp only: doc_ptr_def if_False sub eq)
  with assms show ?thesis
    by (simp add: doc_open_def doc_frame_def)
qed

lemma bson_end_rep:
  assumes op: "doc_open b st pre child" and rep: "doc_rep child st cbody" and c: "BSON_FLAG_IN_CHILD \<notin> bson_flags child"
  shows "wpc (bson_append_bson_end b st child) (\<lambda>(ok, b', st'). ok \<and>
    doc_rep b' st' (pre @ le32 (bson_len child) @ cbody @ [0]) \<and>
    doc_frame (b\<lparr>bson_flags := bson_flags b - {BSON_FLAG_IN_CHILD}\<rparr>) st b' st')"
proof -
  let ?i = "bson_buf b" and ?o = "unat (bson_offset b)" and ?p = "length pre" and ?k = "length cbody + 5"
  have o: "\<not> is_inline b" "\<not> is_inline child" "BSON_FLAG_IN_CHILD \<in> bson_flags b" "bson_buf child = ?i"
    "unat (bson_offset child) = ?o + ?p + 4" "unat (bson_depth child) = unat (bson_depth b) + 1"
    "unat (bson_len b) = ?p + 10" "take ?p (drop 4 (doc_ptr b st)) = pre"
    using op by (simp_all add: doc_open_def)
  have r: "unat (bson_len child) = ?k" "?k \<le> 2147483647" "doc_space child st ?k"
    "take ?k (doc_ptr child st) = le32 (bson_len child) @ cbody @ [0]"
    using rep by (simp_all add: doc_rep_def)
  let ?n = "?p + ?k + 5"
  define b0 where "b0 = b\<lparr>bson_flags := bson_flags b - {BSON_FLAG_IN_CHILD}, bson_len := bson_len b + bson_len child - 5\<rparr>"
  have b0 [simp]: "is_inline b0 = is_inline b" "bson_buf b0 = ?i" "bson_offset b0 = bson_offset b"
    "bson_depth b0 = bson_depth b"
    by (simp_all add: b0_def is_inline_def)
  have sp: "doc_space b0 st ?n" and n: "?n \<le> 2147483647"
    using r(3) o by (auto simp: doc_space_def)
  have len: "unat (bson_len b0) = ?n"
    using o(7) r(1) n by (simp add: b0_def u32_add u32_sub)
  then have len1: "unat (bson_len b0 - 1) = ?n - 1" by (simp add: u32_sub)
  have "?n - 1 + length [0 :: u8] \<le> ?n" "0 + length (le32 (bson_len b0)) \<le> ?n" by simp_all
  note room = this
  obtain b1 st1 where w1: "doc_write b0 st (?n - 1) [0] = Inr (b1, st1)" and f1: "doc_frame b0 st b1 st1"
    and sp1: "doc_space b1 st1 ?n" and l1: "bson_len b1 = bson_len b0" and fl1: "bson_flags b1 = bson_flags b0"
    and p1: "doc_ptr b1 st1 = take (?n - 1) (doc_ptr b0 st) @ [0] @ drop (?n - 1 + length [0 :: u8]) (doc_ptr b0 st)"
    by (rule doc_writeE [OF sp room(1)])
  obtain b2 st2 where w2: "doc_write b1 st1 0 (le32 (bson_len b0)) = Inr (b2, st2)" and f2: "doc_frame b1 st1 b2 st2"
    and sp2: "doc_space b2 st2 ?n" and l2: "bson_len b2 = bson_len b1"
    and p2: "doc_ptr b2 st2 = take 0 (doc_ptr b1 st1) @ le32 (bson_len b0) @
      drop (0 + length (le32 (bson_len b0))) (doc_ptr b1 st1)"
    by (rule doc_writeE [OF sp1 room(2)])
  have ptr: "doc_ptr b0 st = doc_ptr b st" "doc_ptr child st = drop (?p + 4) (doc_ptr b st)"
    using o by (simp_all add: doc_ptr_def ac_simps)
  have mid: "take (?p + ?k) (drop 4 (doc_ptr b st)) = pre @ le32 (bson_len child) @ cbody @ [0]"
    using r(4) o(8) by (simp add: take_add ptr(2) add.commute)
  have "take ?n (doc_ptr b2 st2) = le32 (bson_len b2) @ take (?p + ?k) (drop 4 (doc_ptr b st)) @ [0]"
    using doc_space_data(2) [OF sp]
    by (simp add: p2 p1 ptr(1) l1 l2 drop_take min_def ac_simps)
  from this [unfolded mid] have "doc_rep b2 st2 (pre @ le32 (bson_len child) @ cbody @ [0])"
    using l1 l2 len n sp2 by (simp add: doc_rep_def ac_simps)
  moreover have "doc_frame b0 st b2 st2" using f1 f2 by (rule doc_frame_trans)
  moreover have "bson_append_bson_end b st child = Inr (True, b2, st2)"
    using o(3) c w1 w2 len1 l1
    by (simp add: bson_append_bson_end_def b0_def [symmetric] bson_encode_length_def Let_def)
  ultimately show ?thesis
    by (simp add: b0_def)
qed


text \<open>A parent whose bytes are inline is first moved to a buffer.\<close>

lemma doc_rep_frame:
  assumes "doc_rep b st body" and "grow_post b st k (True, b', st')"
  shows "doc_rep b' st' body"
proof -
  have "doc_space b' st' (length body + 5)"
    using assms by (auto simp: doc_rep_def grow_post_def intro: doc_space_mono)
  with assms show ?thesis by (simp add: doc_rep_def grow_post_def)
qed

lemma frame_flags:
  "doc_frame b st b' st' \<Longrightarrow> f \<noteq> BSON_FLAG_INLINE \<Longrightarrow> f \<in> bson_flags b' \<longleftrightarrow> f \<in> bson_flags b"
  by (auto simp: doc_frame_def)

lemma begin_convert:
  assumes rep: "doc_rep b st body"
  shows "wpc (if is_inline b
      then bindc (c_assert (bson_len b \<le> 120)) (\<lambda>_.
        bindc (bson_grow b st (128 - bson_len b)) (\<lambda>(ok, b, st).
          if \<not> ok then Inr (False, b, st)
          else bindc (c_assert (\<not> is_inline b)) (\<lambda>_. Inr (True, b, st))))
      else Inr (True, b, st))
    (\<lambda>(ok, b', st'). if ok then \<not> is_inline b' \<and> doc_rep b' st' body \<and> doc_frame b st b' st'
       else b' = b \<and> st' = st)"
proof (cases "is_inline b")
  case True
  have l: "unat (bson_len b) = length body + 5" "length body + 5 \<le> 120" "doc_space b st (unat (bson_len b))"
    using rep True by (simp_all add: doc_rep_def doc_space_def)
  have k: "unat (128 - bson_len b) = 128 - unat (bson_len b)" using l by (simp add: u32_sub)
  from bson_grow_post [OF l(3), of "128 - bson_len b"] k l obtain ok b1 st1
    where g: "bson_grow b st (128 - bson_len b) = Inr (ok, b1, st1)"
      and gp: "grow_post b st (128 - unat (bson_len b)) (ok, b1, st1)"
    by (auto simp: wpc_iff)
  have "ok \<Longrightarrow> doc_space b1 st1 128" using gp l by (simp add: grow_post_def)
  then have "ok \<Longrightarrow> \<not> is_inline b1" by (auto simp: doc_space_def)
  moreover have "ok \<Longrightarrow> doc_rep b1 st1 body" using doc_rep_frame [OF rep, of _ b1 st1] gp by simp
  ultimately show ?thesis
    using True g gp l by (cases ok) (simp_all add: u32_le grow_post_def)
qed (use rep in simp)

text \<open>The new child describes the five bytes of an empty document inside its parent's buffer.\<close>

lemma begin_child:
  assumes rep: "doc_rep b st (pre @ [5, 0, 0, 0, 0])" and inl: "\<not> is_inline b"
    and depth: "BSON_FLAG_CHILD \<in> bson_flags b \<or> bson_depth b = 0"
    and c: "c = \<lparr>bson_flags = {BSON_FLAG_CHILD, BSON_FLAG_NO_FREE, BSON_FLAG_STATIC},
      bson_len = 5, bson_data = [],
      bson_depth = (if BSON_FLAG_CHILD \<in> bson_flags b then bson_depth b + 1 else 1),
      bson_buf = bson_buf b, bson_alloc = None,
      bson_offset = bson_offset b + ucast (bson_len b) - 1 - 5, bson_realloc_fn = bson_realloc_fn b\<rparr>"
  shows "doc_open (b\<lparr>bson_flags := insert BSON_FLAG_IN_CHILD (bson_flags b)\<rparr>) st pre c" and "doc_rep c st []"
proof -
  have r: "unat (bson_len b) = length pre + 10" "length pre + 10 \<le> 2147483647" "doc_space b st (length pre + 10)"
    "take (length pre + 10) (doc_ptr b st) = le32 (bson_len b) @ (pre @ [5, 0, 0, 0, 0]) @ [0]"
    using rep by (simp_all add: doc_rep_def add.commute)
  have sp: "unat (bson_offset b) + (length pre + 10) + unat (bson_depth b) \<le> 2147483647"
    using r(3) inl by (auto simp: doc_space_def)
  have off: "unat (bson_offset c) = unat (bson_offset b) + length pre + 4"
    using sp r(1) by (simp add: c u64_add u64_sub)
  have dep: "unat (bson_depth c) = unat (bson_depth b) + 1"
    using sp depth by (auto simp: c u32_add)
  have inlc: "\<not> is_inline c" by (simp add: c is_inline_def)
  have pre: "take (length pre) (drop 4 (doc_ptr b st)) = pre"
    using arg_cong [OF r(4), of "\<lambda>x. take (length pre) (drop 4 x)"] by (simp add: drop_take)
  show "doc_open (b\<lparr>bson_flags := insert BSON_FLAG_IN_CHILD (bson_flags b)\<rparr>) st pre c"
    using inl inlc off dep r(1) pre by (simp add: doc_open_def doc_ptr_def c is_inline_def)
  have "doc_ptr c st = drop (length pre + 4) (doc_ptr b st)"
    using inl inlc off by (simp add: doc_ptr_def c ac_simps)
  then have "take 5 (doc_ptr c st) = [5, 0, 0, 0, 0]"
    using arg_cong [OF r(4), of "\<lambda>x. take 5 (drop (length pre + 4) x)"] by (simp add: drop_take)
  moreover have "doc_space c st 5"
    using r(3) inl inlc off dep by (simp add: doc_space_def) (simp add: c)
  moreover have "le32 5 @ [] @ [0] = [5, 0, 0, 0, 0]" by (simp add: le32_def)
  ultimately show "doc_rep c st []" by (simp add: doc_rep_def c)
qed

lemma bson_begin_rep:
  assumes rep: "doc_rep b st body" and fl: "BSON_FLAG_IN_CHILD \<notin> bson_flags b" "BSON_FLAG_RDONLY \<notin> bson_flags b"
    and depth: "BSON_FLAG_CHILD \<notin> bson_flags b \<Longrightarrow> \<not> is_inline b \<Longrightarrow> bson_depth b = 0"
    and t: "t = BSON_TYPE_DOCUMENT \<or> t = BSON_TYPE_ARRAY"
    and key: "key_len key key_length = Inr kl" "unat kl \<le> length key" "unat kl < 2 ^ 31"
  shows "wpc (bson_append_bson_begin b st key key_length t) (\<lambda>(ok, b', st', child).
    if ok then \<exists>c. child = Some c \<and> doc_open b' st' (body @ [t] @ take (unat kl) key @ [0]) c \<and>
        doc_rep c st' [] \<and> bson_flags c = {BSON_FLAG_CHILD, BSON_FLAG_NO_FREE, BSON_FLAG_STATIC} \<and>
        doc_frame b st (b'\<lparr>bson_flags := bson_flags b' - {BSON_FLAG_IN_CHILD}\<rparr>) st'
    else doc_rep b' st' body \<and> doc_frame b st b' st')"
proof -
  from begin_convert [OF rep] obtain ok1 b1 st1 where conv: "(if is_inline b
      then bindc (c_assert (bson_len b \<le> 120)) (\<lambda>_.
        bindc (bson_grow b st (128 - bson_len b)) (\<lambda>(ok, b, st).
          if \<not> ok then Inr (False, b, st)
          else bindc (c_assert (\<not> is_inline b)) (\<lambda>_. Inr (True, b, st))))
      else Inr (True, b, st)) = Inr (ok1, b1, st1)"
    and post: "if ok1 then \<not> is_inline b1 \<and> doc_rep b1 st1 body \<and> doc_frame b st b1 st1 else b1 = b \<and> st1 = st"
    by (auto simp: wpc_iff)
  let ?hdr = "[t] @ take (unat kl) key @ [0]"
  let ?ps = "[(1, [t]), (kl, key), (1, [0]), (5, [5, 0, 0, 0, 0])] :: (u32 \<times> bytes) list"
  have ps: "pairs_bytes ?ps = ?hdr @ [5, 0, 0, 0, 0]" "pairs_ok ?ps"
    using key(2) by (simp_all add: pairs_bytes_def pairs_ok_def)
  have n: "unat (1 + kl + 1 + 5) = length (pairs_bytes ?ps)"
    using key by (simp add: ps u32_add)
  show ?thesis
  proof (cases ok1)
    case True
    with post have inl1: "\<not> is_inline b1" and rep1: "doc_rep b1 st1 body" and f1: "doc_frame b st b1 st1" by auto
    have fl1: "BSON_FLAG_IN_CHILD \<notin> bson_flags b1" "BSON_FLAG_RDONLY \<notin> bson_flags b1"
      using fl frame_flags [OF f1] by auto
    from bson_append_rep [OF rep1 fl1 ps(2) _ _ n] obtain ok2 b2 st2
      where app: "bson_append b1 st1 (1 + kl + 1 + 5) ?ps = Inr (ok2, b2, st2)"
        and ap: "append_post body b1 st1 (pairs_bytes ?ps) (ok2, b2, st2)"
      by (auto simp: wpc_iff)
    show ?thesis
    proof (cases ok2)
      case ok2: True
      have rep2: "doc_rep b2 st2 ((body @ ?hdr) @ [5, 0, 0, 0, 0])" and f2: "doc_frame b1 st1 b2 st2"
        using ap ok2 by (simp_all add: append_post_def ps)
      have inl2: "\<not> is_inline b2" using f2 inl1 by (simp add: doc_frame_def)
      have fr: "doc_frame b st b2 st2" using f1 f2 by (rule doc_frame_trans)
      let ?b = "b2\<lparr>bson_flags := bson_flags b2 \<union> {BSON_FLAG_IN_CHILD}\<rparr>"
      let ?c = "\<lparr>bson_flags = {BSON_FLAG_CHILD, BSON_FLAG_NO_FREE, BSON_FLAG_STATIC},
                    bson_len = 5, bson_data = [],
                    bson_depth = (if BSON_FLAG_CHILD \<in> bson_flags ?b then bson_depth ?b + 1 else 1),
                    bson_buf = bson_buf ?b, bson_alloc = None,
                    bson_offset = bson_offset ?b + ucast (bson_len ?b) - 1 - 5,
                    bson_realloc_fn = bson_realloc_fn ?b\<rparr>"
      have eq: "bson_append_bson_begin b st key key_length t = Inr (True, ?b, st2, Some ?c)"
        using fl t key(1) conv True app ok2 by (simp add: bson_append_bson_begin_def Let_def)
      have "BSON_FLAG_CHILD \<in> bson_flags b2 \<or> bson_depth b2 = 0"
        using fr inl2 depth frame_flags [OF fr, of BSON_FLAG_CHILD] by (auto simp: doc_frame_def)
      from begin_child [OF rep2 inl2 this refl]
      have "doc_open ?b st2 (body @ ?hdr) ?c \<and> doc_rep ?c st2 []"
        by (cases "BSON_FLAG_CHILD \<in> bson_flags b2") simp_all
      moreover have "doc_frame b st (?b\<lparr>bson_flags := bson_flags ?b - {BSON_FLAG_IN_CHILD}\<rparr>) st2"
        using fr fl frame_flags [OF fr, of BSON_FLAG_IN_CHILD]
        by (auto simp: doc_frame_def is_inline_def)
      ultimately show ?thesis by (simp add: eq)
    next
      case False
      with ap rep1 f1 fl t key(1) conv True app show ?thesis
        by (simp add: bson_append_bson_begin_def append_post_def)
    qed
  next
    case False
    with post rep fl t key(1) conv show ?thesis by (simp add: bson_append_bson_begin_def)
  qed
qed
end
