(* ===== verification/Bson_Append.thy ===== *)
theory Bson_Append
  imports Bson_Doc
begin

text \<open>
  \<^verbatim>\<open>bson.c\<close>, second part: one function per field type, all built on \<^verbatim>\<open>_bson_append\<close>, and
  the life cycle of documents (initialisation, copying, stealing, destruction,
  comparison). Each append function computes the byte count it announces and the
  pieces it copies separately, as the sources do.
\<close>

type_synonym append = "(bool \<times> bson_t \<times> bson_store) c"

section \<open>Initialisation\<close>

definition bson_init :: "fresh \<Rightarrow> bson_t" where
  "bson_init fr = \<lparr>bson_flags = {BSON_FLAG_INLINE, BSON_FLAG_STATIC}, bson_len = 5,
     bson_data = [5, 0, 0, 0, 0] @ map fr [5..<BSON_INLINE_DATA_SIZE], bson_depth = 0, bson_buf = 0,
     bson_alloc = None, bson_offset = 0, bson_realloc_fn = False\<rparr>"

definition bson_reinit :: "bson_t \<Rightarrow> bson_store \<Rightarrow> (bson_t \<times> bson_store) c" where
  "bson_reinit b st = doc_write (b\<lparr>bson_len := 5\<rparr>) st 0 [5, 0, 0, 0, 0]"

definition bson_init_static :: "bson_store \<Rightarrow> bytes \<Rightarrow> u64 \<Rightarrow> (bson_t option \<times> bson_store) c" where
  "bson_init_static st data n =
     (if n < 5 \<or> n > of_nat INT_MAX then Inr (None, st)
      else bindc (load32 data 0) (\<lambda>len_le.
        if ucast len_le \<noteq> n then Inr (None, st)
        else bindc (load8 data (unat (n - 1))) (\<lambda>last.
          if last \<noteq> 0 then Inr (None, st)
          else case st_new \<lparr>cell_mem = Some data, cell_buflen = n\<rparr> st of (i, st') \<Rightarrow>
            Inr (Some \<lparr>bson_flags = {BSON_FLAG_STATIC, BSON_FLAG_RDONLY}, bson_len = ucast n, bson_data = [],
              bson_depth = 0, bson_buf = i, bson_alloc = Some i, bson_offset = 0,
              bson_realloc_fn = False\<rparr>, st'))))"

definition bson_new :: "fresh \<Rightarrow> bson_t" where
  "bson_new fr = (bson_init fr)\<lparr>bson_flags := {BSON_FLAG_INLINE}\<rparr>"

definition bson_sized_new :: "bson_store \<Rightarrow> u64 \<Rightarrow> (bson_t \<times> bson_store) c" where
  "bson_sized_new st n =
     bindc (c_assert (n \<le> INT32_MAX)) (\<lambda>_.
       if n \<le> of_nat BSON_INLINE_DATA_SIZE
       then let b = bson_init (st_fresh st (st_next st))
         in Inr (b\<lparr>bson_flags := bson_flags b - {BSON_FLAG_STATIC}\<rparr>, st)
       else let alloclen = max 5 n
         in bindc (memcpy_to (st_malloc alloclen st) 0 [5, 0, 0, 0, 0]) (\<lambda>mem.
           case st_new \<lparr>cell_mem = Some mem, cell_buflen = alloclen\<rparr> st of (i, st') \<Rightarrow>
             Inr (\<lparr>bson_flags = {}, bson_len = 5, bson_data = [], bson_depth = 0, bson_buf = i,
               bson_alloc = Some i, bson_offset = 0, bson_realloc_fn = True\<rparr>, st')))"

definition bson_new_from_data :: "bson_store \<Rightarrow> bytes \<Rightarrow> u64 \<Rightarrow> (bson_t option \<times> bson_store) c" where
  "bson_new_from_data st data n =
     (if n < 5 \<or> n > of_nat INT_MAX then Inr (None, st)
      else bindc (load8 data (unat (n - 1))) (\<lambda>last.
        if last \<noteq> 0 then Inr (None, st)
        else bindc (load32 data 0) (\<lambda>len_le.
          if n \<noteq> ucast len_le then Inr (None, st)
          else bindc (bson_sized_new st n) (\<lambda>(b, st).
            bindc (memcpy_from data 0 (unat n)) (\<lambda>src.
            bindc (doc_write b st 0 src) (\<lambda>(b, st). Inr (Some (b\<lparr>bson_len := ucast n\<rparr>), st)))))))"

text \<open>
  \<^verbatim>\<open>bson_new_from_buffer\<close> works on a cell of the caller; the caller's reallocation
  function is assumed to behave as \<^verbatim>\<open>bson_realloc\<close>.
\<close>

definition bson_new_from_buffer :: "bson_store \<Rightarrow> nat \<Rightarrow> (bson_t option \<times> bson_store) c" where
  "bson_new_from_buffer st i =
     bindc (case cell_mem (st_cells st i) of
         None \<Rightarrow>
           bindc (memcpy_to (st_malloc 5 st) 0 (le32 5)) (\<lambda>mem.
           bindc (memcpy_to mem 4 [0]) (\<lambda>mem.
             Inr (Some 5, (st_set i \<lparr>cell_mem = Some mem, cell_buflen = 5\<rparr> st)\<lparr>st_next := st_next st + 1\<rparr>)))
       | Some m \<Rightarrow>
           if cell_buflen (st_cells st i) < 5 \<or> cell_buflen (st_cells st i) > of_nat INT_MAX
           then Inr (None, st)
           else bindc (load32 m 0) (\<lambda>len. Inr (Some len, st))) (\<lambda>(len, st).
       case len of None \<Rightarrow> Inr (None, st)
       | Some len \<Rightarrow>
           (case cell_mem (st_cells st i) of None \<Rightarrow> Inl OutOfBounds
            | Some m \<Rightarrow> bindc (load8 m (unat (len - 1))) (\<lambda>last.
                if last \<noteq> 0 then Inr (None, st)
                else Inr (Some \<lparr>bson_flags = {BSON_FLAG_NO_FREE}, bson_len = len, bson_data = [],
                  bson_depth = 0, bson_buf = i, bson_alloc = None, bson_offset = 0,
                  bson_realloc_fn = True\<rparr>, st))))"

section \<open>Fields of a fixed size\<close>

definition append_field :: "bson_t \<Rightarrow> bson_store \<Rightarrow> bytes \<Rightarrow> u32 \<Rightarrow> u8 \<Rightarrow> u32 \<Rightarrow> (u32 \<times> bytes) list \<Rightarrow> append" where
  "append_field b st key kl t n ps = bson_append b st (1 + kl + 1 + n) ((1, [t]) # (kl, key) # (1, [0]) # ps)"

definition bson_append_bool :: "bson_t \<Rightarrow> bson_store \<Rightarrow> bytes \<Rightarrow> u32 \<Rightarrow> bool \<Rightarrow> append" where
  "bson_append_bool b st key key_length v =
     bindc (key_len key key_length) (\<lambda>kl.
       append_field b st key kl BSON_TYPE_BOOL 1 [(1, [if v then 1 else 0])])"

definition bson_append_double :: "bson_t \<Rightarrow> bson_store \<Rightarrow> bytes \<Rightarrow> u32 \<Rightarrow> u64 \<Rightarrow> append" where
  "bson_append_double b st key key_length v =
     bindc (key_len key key_length) (\<lambda>kl. append_field b st key kl BSON_TYPE_DOUBLE 8 [(8, le64 v)])"

definition bson_append_int32 :: "bson_t \<Rightarrow> bson_store \<Rightarrow> bytes \<Rightarrow> u32 \<Rightarrow> u32 \<Rightarrow> append" where
  "bson_append_int32 b st key key_length v =
     bindc (key_len key key_length) (\<lambda>kl. append_field b st key kl BSON_TYPE_INT32 4 [(4, le32 v)])"

definition bson_append_int64 :: "bson_t \<Rightarrow> bson_store \<Rightarrow> bytes \<Rightarrow> u32 \<Rightarrow> u64 \<Rightarrow> append" where
  "bson_append_int64 b st key key_length v =
     bindc (key_len key key_length) (\<lambda>kl. append_field b st key kl BSON_TYPE_INT64 8 [(8, le64 v)])"

definition bson_append_decimal128 :: "bson_t \<Rightarrow> bson_store \<Rightarrow> bytes \<Rightarrow> u32 \<Rightarrow> bson_decimal128_t \<Rightarrow> append" where
  "bson_append_decimal128 b st key key_length v =
     bindc (key_len key key_length) (\<lambda>kl.
       append_field b st key kl BSON_TYPE_DECIMAL128 16 [(16, le64 (dec_low v) @ le64 (dec_high v))])"

definition bson_append_maxkey :: "bson_t \<Rightarrow> bson_store \<Rightarrow> bytes \<Rightarrow> u32 \<Rightarrow> append" where
  "bson_append_maxkey b st key key_length =
     bindc (key_len key key_length) (\<lambda>kl. append_field b st key kl BSON_TYPE_MAXKEY 0 [])"

definition bson_append_minkey :: "bson_t \<Rightarrow> bson_store \<Rightarrow> bytes \<Rightarrow> u32 \<Rightarrow> append" where
  "bson_append_minkey b st key key_length =
     bindc (key_len key key_length) (\<lambda>kl. append_field b st key kl BSON_TYPE_MINKEY 0 [])"

definition bson_append_null :: "bson_t \<Rightarrow> bson_store \<Rightarrow> bytes \<Rightarrow> u32 \<Rightarrow> append" where
  "bson_append_null b st key key_length =
     bindc (key_len key key_length) (\<lambda>kl. append_field b st key kl BSON_TYPE_NULL 0 [])"

definition bson_append_undefined :: "bson_t \<Rightarrow> bson_store \<Rightarrow> bytes \<Rightarrow> u32 \<Rightarrow> append" where
  "bson_append_undefined b st key key_length =
     bindc (key_len key key_length) (\<lambda>kl. append_field b st key kl BSON_TYPE_UNDEFINED 0 [])"

definition bson_append_oid :: "bson_t \<Rightarrow> bson_store \<Rightarrow> bytes \<Rightarrow> u32 \<Rightarrow> bytes \<Rightarrow> append" where
  "bson_append_oid b st key key_length v =
     bindc (key_len key key_length) (\<lambda>kl. append_field b st key kl BSON_TYPE_OID 12 [(12, v)])"

definition bson_append_timestamp :: "bson_t \<Rightarrow> bson_store \<Rightarrow> bytes \<Rightarrow> u32 \<Rightarrow> u32 \<Rightarrow> u32 \<Rightarrow> append" where
  "bson_append_timestamp b st key key_length timestamp increment =
     bindc (key_len key key_length) (\<lambda>kl.
       append_field b st key kl BSON_TYPE_TIMESTAMP 8
         [(8, le64 (push_bit 32 (ucast timestamp) OR ucast increment))])"

definition bson_append_date_time :: "bson_t \<Rightarrow> bson_store \<Rightarrow> bytes \<Rightarrow> u32 \<Rightarrow> u64 \<Rightarrow> append" where
  "bson_append_date_time b st key key_length v =
     bindc (key_len key key_length) (\<lambda>kl. append_field b st key kl BSON_TYPE_DATE_TIME 8 [(8, le64 v)])"

text \<open>\<^verbatim>\<open>tv_sec\<close> and \<^verbatim>\<open>tv_usec\<close> are signed 64-bit values, converted to unsigned by the arithmetic.\<close>

definition bson_append_timeval :: "bson_t \<Rightarrow> bson_store \<Rightarrow> bytes \<Rightarrow> u32 \<Rightarrow> u64 \<times> u64 \<Rightarrow> append" where
  "bson_append_timeval b st key key_length tv =
     bson_append_date_time b st key key_length (fst tv * 1000 + snd tv div 1000)"

definition bson_append_time_t :: "bson_t \<Rightarrow> bson_store \<Rightarrow> bytes \<Rightarrow> u32 \<Rightarrow> u64 \<Rightarrow> append" where
  "bson_append_time_t b st key key_length v = bson_append_timeval b st key key_length (v, 0)"

text \<open>\<^verbatim>\<open>time (NULL)\<close> is an argument.\<close>

definition bson_append_now_utc :: "u64 \<Rightarrow> bson_t \<Rightarrow> bson_store \<Rightarrow> bytes \<Rightarrow> u32 \<Rightarrow> append" where
  "bson_append_now_utc now b st key key_length =
     bindc (c_assert (sint key_length \<ge> - 1)) (\<lambda>_. bson_append_time_t b st key key_length now)"

section \<open>Strings and binaries\<close>

definition bson_append_binary :: "bson_t \<Rightarrow> bson_store \<Rightarrow> bytes \<Rightarrow> u32 \<Rightarrow> u8 \<Rightarrow> bytes \<Rightarrow> u32 \<Rightarrow> append" where
  "bson_append_binary b st key key_length subtype binary n =
     bindc (key_len key key_length) (\<lambda>kl.
       if subtype = BSON_SUBTYPE_BINARY_DEPRECATED
       then append_field b st key kl BSON_TYPE_BINARY (4 + 1 + 4 + n)
         [(4, le32 (n + 4)), (1, [subtype]), (4, le32 n), (n, binary)]
       else append_field b st key kl BSON_TYPE_BINARY (4 + 1 + n)
         [(4, le32 n), (1, [subtype]), (n, binary)])"

definition bson_append_code :: "bson_t \<Rightarrow> bson_store \<Rightarrow> bytes \<Rightarrow> u32 \<Rightarrow> bytes \<Rightarrow> append" where
  "bson_append_code b st key key_length javascript =
     bindc (key_len key key_length) (\<lambda>kl.
     bindc (c_strlen javascript) (\<lambda>k. let n = of_nat k + 1
       in append_field b st key kl BSON_TYPE_CODE (4 + n) [(4, le32 n), (n, javascript)]))"

definition append_string :: "u8 \<Rightarrow> bson_t \<Rightarrow> bson_store \<Rightarrow> bytes \<Rightarrow> u32 \<Rightarrow> bytes option \<Rightarrow> u32 \<Rightarrow> append" where
  "append_string t b st key key_length v n =
     (case v of None \<Rightarrow> bson_append_null b st key key_length
      | Some s \<Rightarrow>
        bindc (key_len key key_length) (\<lambda>kl.
        bindc (key_len s n) (\<lambda>n.
          append_field b st key kl t (4 + n + 1) [(4, le32 (n + 1)), (n, s), (1, [0])])))"

definition bson_append_utf8 :: "bson_t \<Rightarrow> bson_store \<Rightarrow> bytes \<Rightarrow> u32 \<Rightarrow> bytes option \<Rightarrow> u32 \<Rightarrow> append" where
  "bson_append_utf8 b st key key_length v n = append_string BSON_TYPE_UTF8 b st key key_length v n"

definition bson_append_symbol :: "bson_t \<Rightarrow> bson_store \<Rightarrow> bytes \<Rightarrow> u32 \<Rightarrow> bytes option \<Rightarrow> u32 \<Rightarrow> append" where
  "bson_append_symbol b st key key_length v n = append_string BSON_TYPE_SYMBOL b st key key_length v n"

definition bson_append_dbpointer :: "bson_t \<Rightarrow> bson_store \<Rightarrow> bytes \<Rightarrow> u32 \<Rightarrow> bytes \<Rightarrow> bytes \<Rightarrow> append" where
  "bson_append_dbpointer b st key key_length collection oid =
     bindc (key_len key key_length) (\<lambda>kl.
     bindc (c_strlen collection) (\<lambda>k. let n = of_nat k + 1
       in append_field b st key kl BSON_TYPE_DBPOINTER (4 + n + 12) [(4, le32 n), (n, collection), (12, oid)]))"

text \<open>\<^verbatim>\<open>strchr (s, c) != NULL\<close> for a character other than NUL.\<close>

fun c_strchr :: "bytes \<Rightarrow> u8 \<Rightarrow> bool c" where
  "c_strchr [] ch = Inl OutOfBounds"
| "c_strchr (b # s) ch = (if b = ch then Inr True else if b = 0 then Inr False else c_strchr s ch)"

definition BSON_REGEX_OPTIONS_SORTED :: bytes where
  "BSON_REGEX_OPTIONS_SORTED = [0x69, 0x6C, 0x6D, 0x73, 0x75, 0x78]"

fun append_options_loop :: "fresh \<Rightarrow> bson_string_t \<Rightarrow> bytes \<Rightarrow> bytes \<Rightarrow> bson_string_t c" where
  "append_options_loop fr buffer options [] = Inr buffer"
| "append_options_loop fr buffer options (ch # cs) =
     bindc (c_strchr options ch) (\<lambda>found.
     bindc (if found then bson_string_append_c fr buffer ch else Inr buffer) (\<lambda>buffer.
       append_options_loop fr buffer options cs))"

definition bson_append_regex_options_sorted :: "fresh \<Rightarrow> bson_string_t \<Rightarrow> bytes \<Rightarrow> bson_string_t c" where
  "bson_append_regex_options_sorted fr buffer options =
     append_options_loop fr buffer options BSON_REGEX_OPTIONS_SORTED"

text \<open>\<^verbatim>\<open>strlen (regex)\<close> is evaluated before the test for \<^verbatim>\<open>NULL\<close>.\<close>

definition bson_append_regex_w_len ::
  "bson_t \<Rightarrow> bson_store \<Rightarrow> bytes \<Rightarrow> u32 \<Rightarrow> bytes option \<Rightarrow> u32 \<Rightarrow> bytes option \<Rightarrow> append" where
  "bson_append_regex_w_len b st key key_length regex regex_length options =
     bindc (key_len key key_length) (\<lambda>kl.
     bindc (if sint regex_length < 0
            then bindc (deref regex) (\<lambda>r. bindc (c_strlen r) (\<lambda>n. Inr (of_nat n)))
            else Inr regex_length) (\<lambda>rl.
       let regex = (case regex of None \<Rightarrow> [0] | Some r \<Rightarrow> r);
           options = (case options of None \<Rightarrow> [0] | Some q \<Rightarrow> q);
           fr = st_fresh st (st_next st)
       in bindc (bson_string_new fr None) (\<lambda>sorted.
         bindc (bson_append_regex_options_sorted fr sorted options) (\<lambda>sorted.
           append_field b st key kl BSON_TYPE_REGEX (rl + 1 + str_len sorted + 1)
             [(rl, regex), (1, [0]), (str_len sorted + 1, str_mem sorted)]))))"

definition bson_append_regex :: "bson_t \<Rightarrow> bson_store \<Rightarrow> bytes \<Rightarrow> u32 \<Rightarrow> bytes option \<Rightarrow> bytes option \<Rightarrow> append" where
  "bson_append_regex b st key key_length regex options =
     bson_append_regex_w_len b st key key_length regex (- 1) options"

section \<open>Documents as fields\<close>

definition bson_append_array_begin where
  "bson_append_array_begin b st key key_length = bson_append_bson_begin b st key key_length BSON_TYPE_ARRAY"

definition bson_append_array_end where
  "bson_append_array_end b st child = bson_append_bson_end b st child"

definition bson_append_document_begin where
  "bson_append_document_begin b st key key_length = bson_append_bson_begin b st key key_length BSON_TYPE_DOCUMENT"

definition bson_append_document_end where
  "bson_append_document_end b st child = bson_append_bson_end b st child"

definition bson_append_document :: "bson_t \<Rightarrow> bson_store \<Rightarrow> bytes \<Rightarrow> u32 \<Rightarrow> bson_t \<Rightarrow> append" where
  "bson_append_document b st key key_length v =
     bindc (key_len key key_length) (\<lambda>kl.
     bindc (bson_get_data v st) (\<lambda>data.
       append_field b st key kl BSON_TYPE_DOCUMENT (bson_len v) [(bson_len v, data)]))"

definition bson_empty :: "bson_t \<Rightarrow> bson_store \<Rightarrow> bool c" where
  "bson_empty b st =
     (if bson_len b = 5 then Inr True
      else bindc (bson_get_data b st) (\<lambda>d. bindc (load8 d 4) (\<lambda>x. Inr (x = 0))))"

text \<open>The first key of an array is inspected; only a message depends on it.\<close>

definition array_check :: "bson_t \<Rightarrow> bson_store \<Rightarrow> bool c" where
  "array_check array st =
     bindc (bson_empty array st) (\<lambda>empty.
       if empty then Inr True
       else bindc (bson_get_data array st) (\<lambda>d.
         case bson_iter_init d (bson_len array) of (ok, it) \<Rightarrow>
           if \<not> ok then Inr True
           else bindc (bson_iter_next it) (\<lambda>(ok, it).
             if \<not> ok then Inr True
             else bindc (bson_iter_key it) (\<lambda>key. c_strcmp_by (\<lambda>x. x) [0x30, 0] key))))"

definition bson_append_array :: "bson_t \<Rightarrow> bson_store \<Rightarrow> bytes \<Rightarrow> u32 \<Rightarrow> bson_t \<Rightarrow> append" where
  "bson_append_array b st key key_length array =
     bindc (key_len key key_length) (\<lambda>kl.
     bindc (array_check array st) (\<lambda>_.
     bindc (bson_get_data array st) (\<lambda>data.
       append_field b st key kl BSON_TYPE_ARRAY (bson_len array) [(bson_len array, data)])))"

definition bson_append_code_with_scope ::
  "bson_t \<Rightarrow> bson_store \<Rightarrow> bytes \<Rightarrow> u32 \<Rightarrow> bytes \<Rightarrow> bson_t option \<Rightarrow> append" where
  "bson_append_code_with_scope b st key key_length javascript scope =
     (case scope of None \<Rightarrow> bson_append_code b st key key_length javascript
      | Some scope \<Rightarrow>
        bindc (key_len key key_length) (\<lambda>kl.
        bindc (c_strlen javascript) (\<lambda>k.
        bindc (bson_get_data scope st) (\<lambda>data.
          let js_length = of_nat k + 1; codews_length = 4 + 4 + js_length + bson_len scope
          in append_field b st key kl BSON_TYPE_CODEWSCOPE (4 + 4 + js_length + bson_len scope)
               [(4, le32 codews_length), (4, le32 js_length), (js_length, javascript), (bson_len scope, data)]))))"

definition bson_concat :: "bson_t \<Rightarrow> bson_store \<Rightarrow> bson_t \<Rightarrow> append" where
  "bson_concat dst st src =
     bindc (bson_empty src st) (\<lambda>empty.
       if empty then Inr (True, dst, st)
       else bindc (bson_get_data src st) (\<lambda>d.
         bson_append dst st (bson_len src - 5) [(bson_len src - 5, drop 4 d)]))"


section \<open>Copying an element or a value\<close>

text \<open>
  The body shared by the cases for documents, arrays and scopes: \<^verbatim>\<open>bson_init_static\<close> on the
  bytes, then the append; \<^verbatim>\<open>bson_destroy\<close> of the read-only static document does nothing.
\<close>

definition with_static :: "bson_store \<Rightarrow> bson_t \<Rightarrow> bytes \<Rightarrow> u32 \<Rightarrow> (bson_store \<Rightarrow> bson_t \<Rightarrow> append) \<Rightarrow> append" where
  "with_static st b data len f =
     bindc (bson_init_static st data (ucast len)) (\<lambda>(doc, st).
       case doc of None \<Rightarrow> Inr (False, b, st) | Some doc \<Rightarrow> f st doc)"

fun bson_append_value :: "bson_t \<Rightarrow> bson_store \<Rightarrow> bytes \<Rightarrow> u32 \<Rightarrow> bson_value_t \<Rightarrow> append" where
  "bson_append_value b st key kl (V_DOUBLE v) = bson_append_double b st key kl v"
| "bson_append_value b st key kl (V_UTF8 s n) = bson_append_utf8 b st key kl (Some s) n"
| "bson_append_value b st key kl (V_DOCUMENT d n) =
     with_static st b d n (\<lambda>st doc. bson_append_document b st key kl doc)"
| "bson_append_value b st key kl (V_ARRAY d n) =
     with_static st b d n (\<lambda>st doc. bson_append_array b st key kl doc)"
| "bson_append_value b st key kl (V_BINARY subtype d n) = bson_append_binary b st key kl subtype d n"
| "bson_append_value b st key kl V_UNDEFINED = bson_append_undefined b st key kl"
| "bson_append_value b st key kl (V_OID v) = bson_append_oid b st key kl v"
| "bson_append_value b st key kl (V_BOOL v) = bson_append_bool b st key kl v"
| "bson_append_value b st key kl (V_DATE_TIME v) = bson_append_date_time b st key kl v"
| "bson_append_value b st key kl V_NULL = bson_append_null b st key kl"
| "bson_append_value b st key kl (V_REGEX r q) = bson_append_regex b st key kl (Some r) (Some q)"
| "bson_append_value b st key kl (V_DBPOINTER s n oid) = bson_append_dbpointer b st key kl s oid"
| "bson_append_value b st key kl (V_CODE s n) = bson_append_code b st key kl s"
| "bson_append_value b st key kl (V_SYMBOL s n) = bson_append_symbol b st key kl (Some s) n"
| "bson_append_value b st key kl (V_CODEWSCOPE s n d dn) =
     with_static st b d dn (\<lambda>st doc. bson_append_code_with_scope b st key kl s (Some doc))"
| "bson_append_value b st key kl (V_INT32 v) = bson_append_int32 b st key kl v"
| "bson_append_value b st key kl (V_TIMESTAMP ts inc) = bson_append_timestamp b st key kl ts inc"
| "bson_append_value b st key kl (V_INT64 v) = bson_append_int64 b st key kl v"
| "bson_append_value b st key kl (V_DECIMAL128 v) = bson_append_decimal128 b st key kl v"
| "bson_append_value b st key kl V_MAXKEY = bson_append_maxkey b st key kl"
| "bson_append_value b st key kl V_MINKEY = bson_append_minkey b st key kl"

text \<open>
  \<^verbatim>\<open>bson_append_iter\<close>: the key of the iterator when none is given. Where a pointer read
  from the iterator is \<^verbatim>\<open>NULL\<close>, which its type code excludes, the assertions of the
  append functions would fail.
\<close>

definition bson_append_iter :: "bson_t \<Rightarrow> bson_store \<Rightarrow> bytes option \<Rightarrow> u32 \<Rightarrow> bson_iter_t \<Rightarrow> append" where
  "bson_append_iter b st key0 key_length0 it =
     bindc (case key0 of None \<Rightarrow> bindc (bson_iter_key it) (\<lambda>k. Inr (k, - 1)) | Some k \<Rightarrow> Inr (k, key_length0))
       (\<lambda>(key, kl).
     bindc (bson_iter_type_unsafe it) (\<lambda>t.
       if t = BSON_TYPE_EOD then Inr (False, b, st)
       else if t = BSON_TYPE_DOUBLE then bindc (bson_iter_double it) (\<lambda>v. bson_append_double b st key kl v)
       else if t = BSON_TYPE_UTF8 then bindc (bson_iter_utf8 it) (\<lambda>(str, len). bson_append_utf8 b st key kl str len)
       else if t = BSON_TYPE_DOCUMENT then bindc (bson_iter_document it) (\<lambda>(len, buf).
         bindc (deref buf) (\<lambda>d. with_static st b d len (\<lambda>st doc. bson_append_document b st key kl doc)))
       else if t = BSON_TYPE_ARRAY then bindc (bson_iter_array it) (\<lambda>(len, buf).
         bindc (deref buf) (\<lambda>d. with_static st b d len (\<lambda>st doc. bson_append_array b st key kl doc)))
       else if t = BSON_TYPE_BINARY then bindc (bson_iter_binary it) (\<lambda>(subtype, len, binary).
         bindc (deref binary) (\<lambda>d. bson_append_binary b st key kl subtype d len))
       else if t = BSON_TYPE_UNDEFINED then bson_append_undefined b st key kl
       else if t = BSON_TYPE_OID then bindc (bson_iter_oid it) (\<lambda>oid.
         bindc (deref oid) (\<lambda>p. bson_append_oid b st key kl p))
       else if t = BSON_TYPE_BOOL then bindc (bson_iter_bool it) (\<lambda>v. bson_append_bool b st key kl v)
       else if t = BSON_TYPE_DATE_TIME then bindc (bson_iter_date_time it) (\<lambda>v. bson_append_date_time b st key kl v)
       else if t = BSON_TYPE_NULL then bson_append_null b st key kl
       else if t = BSON_TYPE_REGEX then bindc (bson_iter_regex it) (\<lambda>(regex, options).
         bson_append_regex b st key kl regex options)
       else if t = BSON_TYPE_DBPOINTER then bindc (bson_iter_dbpointer it) (\<lambda>(len, collection, oid).
         bindc (deref collection) (\<lambda>cl. bindc (deref oid) (\<lambda>p. bson_append_dbpointer b st key kl cl p)))
       else if t = BSON_TYPE_CODE then bindc (bson_iter_code it) (\<lambda>(code, len).
         bindc (deref code) (\<lambda>s. bson_append_code b st key kl s))
       else if t = BSON_TYPE_SYMBOL then bindc (bson_iter_symbol it) (\<lambda>(symbol, len).
         bson_append_symbol b st key kl symbol len)
       else if t = BSON_TYPE_CODEWSCOPE then bindc (bson_iter_codewscope it) (\<lambda>(js, len, scope_len, scope).
         bindc (deref js) (\<lambda>s. bindc (deref scope) (\<lambda>d.
           with_static st b d scope_len (\<lambda>st doc. bson_append_code_with_scope b st key kl s (Some doc)))))
       else if t = BSON_TYPE_INT32 then bindc (bson_iter_int32 it) (\<lambda>v. bson_append_int32 b st key kl v)
       else if t = BSON_TYPE_TIMESTAMP then bindc (bson_iter_timestamp it) (\<lambda>(ts, inc).
         bson_append_timestamp b st key kl ts inc)
       else if t = BSON_TYPE_INT64 then bindc (bson_iter_int64 it) (\<lambda>v. bson_append_int64 b st key kl v)
       else if t = BSON_TYPE_DECIMAL128 then bindc (bson_iter_decimal128 it) (\<lambda>dec.
         case dec of None \<Rightarrow> Inr (False, b, st) | Some d \<Rightarrow> bson_append_decimal128 b st key kl d)
       else if t = BSON_TYPE_MAXKEY then bson_append_maxkey b st key kl
       else if t = BSON_TYPE_MINKEY then bson_append_minkey b st key kl
       else Inr (False, b, st)))"

section \<open>Copying documents\<close>

definition bson_copy :: "bson_t \<Rightarrow> bson_store \<Rightarrow> (bson_t option \<times> bson_store) c" where
  "bson_copy b st = bindc (bson_get_data b st) (\<lambda>data. bson_new_from_data st data (ucast (bson_len b)))"

definition bson_copy_to :: "bson_t \<Rightarrow> bson_store \<Rightarrow> (bson_t \<times> bson_store) c" where
  "bson_copy_to src st =
     (if is_inline src
      then Inr (src\<lparr>bson_flags := {BSON_FLAG_STATIC, BSON_FLAG_INLINE}\<rparr>, st)
      else bindc (bson_get_data src st) (\<lambda>data.
        let len = bson_next_power_of_two (ucast (bson_len src))
        in bindc (memcpy_from data 0 (unat (bson_len src))) (\<lambda>bytes.
          bindc (memcpy_to (st_malloc len st) 0 bytes) (\<lambda>mem.
            case st_new \<lparr>cell_mem = Some mem, cell_buflen = len\<rparr> st of (i, st') \<Rightarrow>
              Inr (\<lparr>bson_flags = {BSON_FLAG_STATIC}, bson_len = bson_len src, bson_data = [], bson_depth = 0,
                bson_buf = i, bson_alloc = Some i, bson_offset = 0, bson_realloc_fn = True\<rparr>, st')))))"

text \<open>\<^verbatim>\<open>should_ignore\<close>: the excluded names, up to the \<^verbatim>\<open>NULL\<close> that ends the arguments.\<close>

fun should_ignore :: "bytes list \<Rightarrow> bytes \<Rightarrow> bool c" where
  "should_ignore [] name = Inr False"
| "should_ignore (exclude # excludes) name =
     bindc (c_strcmp_by (\<lambda>x. x) name exclude) (\<lambda>eq. if eq then Inr True else should_ignore excludes name)"

text \<open>
  \<^verbatim>\<open>while (bson_iter_next (&iter)) body\<close>, for a body that does not leave the loop. The fuel is
  that of a search; \<open>None\<close> would mean it ran out.
\<close>

fun iter_foreach :: "nat \<Rightarrow> (bson_iter_t \<Rightarrow> 'a \<Rightarrow> 'a c) \<Rightarrow> 'a \<Rightarrow> bson_iter_t \<Rightarrow> 'a c option" where
  "iter_foreach 0 f acc it = None"
| "iter_foreach (Suc n) f acc it =
     (case bson_iter_next it of
        Inl e \<Rightarrow> Some (Inl e)
      | Inr (ok, it') \<Rightarrow>
          if \<not> ok then Some (Inr acc)
          else (case f it' acc of Inl e \<Rightarrow> Some (Inl e) | Inr acc' \<Rightarrow> iter_foreach n f acc' it'))"

definition bson_copy_to_excluding_va ::
  "bson_t \<Rightarrow> bson_t \<Rightarrow> bson_store \<Rightarrow> bytes list \<Rightarrow> (bson_t \<times> bson_store) c option" where
  "bson_copy_to_excluding_va src dst st excludes =
     (case bson_get_data src st of Inl e \<Rightarrow> Some (Inl e)
      | Inr data \<Rightarrow>
        (case bson_iter_init data (bson_len src) of (ok, it) \<Rightarrow>
           if \<not> ok then Some (Inr (dst, st))
           else iter_foreach (iter_fuel it) (\<lambda>it (dst, st).
             bindc (bson_iter_key it) (\<lambda>key.
             bindc (should_ignore excludes key) (\<lambda>ignore.
               if ignore then Inr (dst, st)
               else bindc (bson_append_iter dst st None 0 it) (\<lambda>(ok, dst, st).
                 bindc (c_assert ok) (\<lambda>_. Inr (dst, st)))))) (dst, st) it))"

definition bson_copy_to_excluding ::
  "bson_t \<Rightarrow> bson_store \<Rightarrow> bytes list \<Rightarrow> (bson_t \<times> bson_store) c option" where
  "bson_copy_to_excluding src st excludes =
     bson_copy_to_excluding_va src (bson_init (st_fresh st (st_next st))) st excludes"

definition bson_copy_to_excluding_noinit ::
  "bson_t \<Rightarrow> bson_t \<Rightarrow> bson_store \<Rightarrow> bytes list \<Rightarrow> (bson_t \<times> bson_store) c option" where
  "bson_copy_to_excluding_noinit src dst st excludes = bson_copy_to_excluding_va src dst st excludes"

section \<open>Ownership\<close>

text \<open>
  Freeing the buffer of a cell makes its memory unusable; the results also say
  whether the structure itself was freed.
\<close>

definition st_free :: "nat \<Rightarrow> bson_store \<Rightarrow> bson_store" where
  "st_free i st = st_set i ((st_cells st i)\<lparr>cell_mem := None\<rparr>) st"

definition bson_destroy :: "bson_t \<Rightarrow> bson_store \<Rightarrow> bool \<times> bson_store" where
  "bson_destroy b st =
     (BSON_FLAG_STATIC \<notin> bson_flags b,
      if BSON_FLAG_RDONLY \<in> bson_flags b \<or> BSON_FLAG_INLINE \<in> bson_flags b \<or> BSON_FLAG_NO_FREE \<in> bson_flags b
      then st else st_free (bson_buf b) st)"

definition bson_reserve_buffer :: "bson_t \<Rightarrow> bson_store \<Rightarrow> u32 \<Rightarrow> (bytes option \<times> bson_t \<times> bson_store) c" where
  "bson_reserve_buffer b st sz =
     (if BSON_FLAG_CHILD \<in> bson_flags b \<or> BSON_FLAG_IN_CHILD \<in> bson_flags b \<or> BSON_FLAG_RDONLY \<in> bson_flags b
      then Inr (None, b, st)
      else bindc (bson_grow b st sz) (\<lambda>(ok, b, st).
        if \<not> ok then Inr (None, b, st)
        else let b = b\<lparr>bson_len := sz\<rparr>
          in bindc (bson_get_data b st) (\<lambda>data. Inr (Some data, b, st))))"

text \<open>\<^verbatim>\<open>bson_steal\<close>: the new document, whether the source structure was freed, and the source.\<close>

definition bson_steal :: "bson_t \<Rightarrow> bson_store \<Rightarrow> (bool \<times> bson_t \<times> bson_t option \<times> bson_store)" where
  "bson_steal src st =
     (let dst = bson_init (st_fresh st (st_next st))
      in if BSON_FLAG_CHILD \<in> bson_flags src \<or> BSON_FLAG_IN_CHILD \<in> bson_flags src \<or> BSON_FLAG_RDONLY \<in> bson_flags src
      then (False, dst, Some src, st)
      else
        let (dst, src, st) =
          (if is_inline src
           then (dst\<lparr>bson_len := bson_len src, bson_data := bson_data src\<rparr>, src\<lparr>bson_len := 0\<rparr>, st)
           else (case (case bson_alloc src of Some i \<Rightarrow> (i, st)
                       | None \<Rightarrow> st_new \<lparr>cell_mem = None, cell_buflen = 0\<rparr> st) of (i, st') \<Rightarrow>
             (src\<lparr>bson_flags := bson_flags src \<union> {BSON_FLAG_STATIC}, bson_buf := i\<rparr>, src, st')))
        in (True, dst, (if BSON_FLAG_STATIC \<notin> bson_flags src then None else Some (src\<lparr>bson_len := 0\<rparr>)), st))"

definition bson_destroy_with_steal ::
  "bson_t \<Rightarrow> bson_store \<Rightarrow> bool \<Rightarrow> (bytes option \<times> u32 \<times> bool \<times> bson_store) c" where
  "bson_destroy_with_steal b st steal =
     (if \<not> steal then (case bson_destroy b st of (freed, st) \<Rightarrow> Inr (None, bson_len b, freed, st))
      else if BSON_FLAG_CHILD \<in> bson_flags b \<or> BSON_FLAG_IN_CHILD \<in> bson_flags b \<or> BSON_FLAG_RDONLY \<in> bson_flags b
      then (case bson_destroy b st of (freed, st) \<Rightarrow> Inr (None, bson_len b, freed, st))
      else if is_inline b
      then bindc (memcpy_from (bson_data b) 0 (unat (bson_len b))) (\<lambda>ret.
        case bson_destroy b st of (freed, st) \<Rightarrow> Inr (Some ret, bson_len b, freed, st))
      else let ret = cell_mem (st_cells st (bson_buf b));
               st = st_set (bson_buf b) ((st_cells st (bson_buf b))\<lparr>cell_mem := None\<rparr>) st
        in (case bson_destroy b st of (freed, st) \<Rightarrow> Inr (ret, bson_len b, freed, st)))"

section \<open>Queries\<close>

definition bson_count_keys :: "bson_t \<Rightarrow> bson_store \<Rightarrow> u32 c option" where
  "bson_count_keys b st =
     (case bson_get_data b st of Inl e \<Rightarrow> Some (Inl e)
      | Inr data \<Rightarrow>
        (case bson_iter_init data (bson_len b) of (ok, it) \<Rightarrow>
           if \<not> ok then Some (Inr 0) else iter_foreach (iter_fuel it) (\<lambda>_ n. Inr (n + 1)) 0 it))"

definition bson_has_field :: "bson_t \<Rightarrow> bson_store \<Rightarrow> bytes \<Rightarrow> bool c option" where
  "bson_has_field b st key =
     (case bindc (c_strchr key 0x2E) (\<lambda>dot. bindc (bson_get_data b st) (\<lambda>data. Inr (dot, data))) of
        Inl e \<Rightarrow> Some (Inl e)
      | Inr (dot, data) \<Rightarrow>
          (case bson_iter_init data (bson_len b) of (ok, it) \<Rightarrow>
             if \<not> ok then Some (Inr False)
             else if dot then map_option (\<lambda>r. bindc r (\<lambda>d. Inr (d \<noteq> None))) (bson_iter_find_descendant it key)
             else map_option (\<lambda>r. bindc r (\<lambda>(found, _). Inr found)) (bson_iter_find it key)))"

text \<open>The sign of \<^verbatim>\<open>memcmp\<close>.\<close>

fun c_memcmp :: "bytes \<Rightarrow> bytes \<Rightarrow> nat \<Rightarrow> int c" where
  "c_memcmp a b 0 = Inr 0"
| "c_memcmp (x # a) (y # b) (Suc n) =
     (if x < y then Inr (- 1) else if y < x then Inr 1 else c_memcmp a b n)"
| "c_memcmp a b (Suc n) = Inl OutOfBounds"

definition bson_compare :: "bson_t \<Rightarrow> bson_t \<Rightarrow> bson_store \<Rightarrow> int c" where
  "bson_compare b other st =
     bindc (bson_get_data b st) (\<lambda>d1.
     bindc (bson_get_data other st) (\<lambda>d2.
       let len1 = bson_len b - 4; len2 = bson_len other - 4
       in if len1 = len2 then c_memcmp (drop 4 d1) (drop 4 d2) (unat len1)
       else bindc (c_memcmp (drop 4 d1) (drop 4 d2) (unat (min len1 len2))) (\<lambda>ret.
         let ret = (if ret = 0 then sint (ucast len1 - ucast len2 :: u64) else ret)
         in Inr (if ret < 0 then - 1 else if ret > 0 then 1 else 0))))"

definition bson_equal :: "bson_t \<Rightarrow> bson_t \<Rightarrow> bson_store \<Rightarrow> bool c" where
  "bson_equal b other st = bindc (bson_compare b other st) (\<lambda>r. Inr (r = 0))"

section \<open>What each function appends\<close>

text \<open>The bytes of an element: its type code, its key with the terminator, its payload.\<close>

definition elem :: "u8 \<Rightarrow> bytes \<Rightarrow> bytes \<Rightarrow> bytes" where
  "elem t k payload = t # k @ 0 # payload"

text \<open>The arguments \<open>key\<close> and \<open>key_length\<close> of an append function denote the key \<open>k\<close>.\<close>

definition key_is :: "bytes \<Rightarrow> u32 \<Rightarrow> bytes \<Rightarrow> bool" where
  "key_is key kl k \<longleftrightarrow> (\<exists>n. key_len key kl = Inr n \<and> unat n = length k \<and> take (unat n) key = k \<and> length k < 2 ^ 29)"

definition doc_writable :: "bson_t \<Rightarrow> bool" where
  "doc_writable b \<longleftrightarrow> BSON_FLAG_IN_CHILD \<notin> bson_flags b \<and> BSON_FLAG_RDONLY \<notin> bson_flags b"

lemma key_is_cstr: "0 \<notin> set k \<Longrightarrow> length k < 2 ^ 29 \<Longrightarrow> key_is (k @ 0 # r) (- 1) k"
  by (simp add: key_is_def key_len_def c_strlen_def unat_of_nat_u32)

lemma append_field_rep:
  assumes rep: "doc_rep b st body" and w: "doc_writable b"
    and kl: "unat kl = length k" "take (unat kl) key = k" "length k < 2 ^ 29"
    and ps: "pairs_ok ps" "unat n = length (pairs_bytes ps)" "unat n < 2 ^ 31 + 2 ^ 30"
  shows "wpc (append_field b st key kl t n ps) (append_post body b st (elem t k (pairs_bytes ps)))"
proof -
  let ?ps = "(1, [t]) # (kl, key) # (1, [0]) # ps"
  have pb: "pairs_bytes ?ps = elem t k (pairs_bytes ps)"
    using kl(2) by (simp add: pairs_bytes_def elem_def)
  have kle: "unat kl \<le> length key"
    using kl(1,2) by (metis length_take min.cobounded1)
  then have ok: "pairs_ok ?ps" using ps(1) by (simp add: pairs_ok_def)
  have n: "unat (1 + kl + 1 + n) = length (pairs_bytes ?ps)"
    unfolding pb using kl ps(2,3) by (simp add: u32_add elem_def)
  have "wpc (bson_append b st (1 + kl + 1 + n) ?ps) (append_post body b st (pairs_bytes ?ps))"
    by (rule bson_append_rep [OF rep _ _ ok _ _ n]) (use w in \<open>simp_all add: doc_writable_def\<close>)
  then show ?thesis by (simp add: append_field_def pb)
qed

lemma append_fieldI:
  assumes "doc_rep b st body" and "doc_writable b" and "key_is key kl k"
    and "pairs_bytes ps = payload" and "pairs_ok ps" and "unat n = length payload" and "unat n < 2 ^ 31 + 2 ^ 30"
  shows "wpc (bindc (key_len key kl) (\<lambda>kl. append_field b st key kl t n ps)) (append_post body b st (elem t k payload))"
  using assms append_field_rep [OF assms(1,2)] by (auto simp: key_is_def)

lemma pairs_Nil [simp]: "pairs_bytes [] = []" "pairs_ok []"
  by (simp_all add: pairs_bytes_def pairs_ok_def)

lemma pairs_Cons [simp]: "pairs_bytes ((n, d) # ps) = take (unat n) d @ pairs_bytes ps"
  "pairs_ok ((n, d) # ps) = (unat n \<le> length d \<and> pairs_ok ps)"
  by (simp_all add: pairs_bytes_def pairs_ok_def)

text \<open>The fields of a fixed size.\<close>

lemma append_fixed:
  assumes "doc_rep b st body" and "doc_writable b" and "key_is key kl k"
  shows "wpc (bson_append_bool b st key kl bv) (append_post body b st (elem BSON_TYPE_BOOL k [if bv then 1 else 0]))"
    and "wpc (bson_append_double b st key kl v) (append_post body b st (elem BSON_TYPE_DOUBLE k (le64 v)))"
    and "wpc (bson_append_int32 b st key kl i) (append_post body b st (elem BSON_TYPE_INT32 k (le32 i)))"
    and "wpc (bson_append_int64 b st key kl v) (append_post body b st (elem BSON_TYPE_INT64 k (le64 v)))"
    and "wpc (bson_append_decimal128 b st key kl dc)
      (append_post body b st (elem BSON_TYPE_DECIMAL128 k (le64 (dec_low dc) @ le64 (dec_high dc))))"
    and "wpc (bson_append_maxkey b st key kl) (append_post body b st (elem BSON_TYPE_MAXKEY k []))"
    and "wpc (bson_append_minkey b st key kl) (append_post body b st (elem BSON_TYPE_MINKEY k []))"
    and "wpc (bson_append_null b st key kl) (append_post body b st (elem BSON_TYPE_NULL k []))"
    and "wpc (bson_append_undefined b st key kl) (append_post body b st (elem BSON_TYPE_UNDEFINED k []))"
    and "length oid = 12 \<Longrightarrow> wpc (bson_append_oid b st key kl oid) (append_post body b st (elem BSON_TYPE_OID k oid))"
    and "wpc (bson_append_timestamp b st key kl ts inc)
      (append_post body b st (elem BSON_TYPE_TIMESTAMP k (le64 (push_bit 32 (ucast ts) OR ucast inc))))"
    and "wpc (bson_append_date_time b st key kl v) (append_post body b st (elem BSON_TYPE_DATE_TIME k (le64 v)))"
  unfolding bson_append_bool_def bson_append_double_def bson_append_int32_def bson_append_int64_def
    bson_append_decimal128_def bson_append_maxkey_def bson_append_minkey_def bson_append_null_def
    bson_append_undefined_def bson_append_oid_def bson_append_timestamp_def bson_append_date_time_def
  by (intro append_fieldI [OF assms]; simp)+

lemma len_arith: "unat a + unat b' < 2 ^ 32 \<Longrightarrow> unat (a + b' :: u32) = unat a + unat b'"
  by (rule u32_add)

lemma append_binary:
  assumes "doc_rep b st body" and "doc_writable b" and "key_is key kl k" and "unat n \<le> length d" and "unat n < 2 ^ 31"
  shows "wpc (bson_append_binary b st key kl subtype d n) (append_post body b st (elem BSON_TYPE_BINARY k
    (if subtype = BSON_SUBTYPE_BINARY_DEPRECATED
     then le32 (n + 4) @ [subtype] @ le32 n @ take (unat n) d else le32 n @ [subtype] @ take (unat n) d)))"
proof (cases "subtype = BSON_SUBTYPE_BINARY_DEPRECATED")
  case True
  then show ?thesis
    using assms by (simp only: bson_append_binary_def if_True simp_thms)
      (intro append_fieldI; simp add: u32_add)
next
  case False
  then show ?thesis
    using assms by (simp only: bson_append_binary_def if_False)
      (intro append_fieldI; simp add: u32_add)
qed

lemma take_cstr: "0 \<in> set s \<Longrightarrow> take (Suc (length (cstr s))) s = cstr s @ [0]"
  by (induction s) (auto simp: cstr_def)

lemma append_code:
  assumes "doc_rep b st body" and "doc_writable b" and "key_is key kl k" and s: "0 \<in> set s" "length (cstr s) < 2 ^ 29"
  defines "n \<equiv> of_nat (length (cstr s)) + 1 :: u32"
  shows "wpc (bson_append_code b st key kl s) (append_post body b st (elem BSON_TYPE_CODE k (le32 n @ cstr s @ [0])))"
proof -
  have n: "unat n = length (cstr s) + 1" using s(2) by (simp add: n_def u32_add unat_of_nat_u32)
  have "bson_append_code b st key kl s = bindc (key_len key kl) (\<lambda>kl.
      append_field b st key kl BSON_TYPE_CODE (4 + n) [(4, le32 n), (n, s)])"
    using s by (simp add: bson_append_code_def c_strlen_def n_def Let_def)
  with assms(1-3) s n length_cstr_less [OF s(1)] show ?thesis
    by (simp only:) (intro append_fieldI; simp add: take_cstr u32_add)
qed

lemma append_dbpointer:
  assumes "doc_rep b st body" and "doc_writable b" and "key_is key kl k" and s: "0 \<in> set s" "length (cstr s) < 2 ^ 29"
    and oid: "length oid = 12"
  defines "n \<equiv> of_nat (length (cstr s)) + 1 :: u32"
  shows "wpc (bson_append_dbpointer b st key kl s oid)
    (append_post body b st (elem BSON_TYPE_DBPOINTER k (le32 n @ cstr s @ [0] @ oid)))"
proof -
  have n: "unat n = length (cstr s) + 1" using s(2) by (simp add: n_def u32_add unat_of_nat_u32)
  have "bson_append_dbpointer b st key kl s oid = bindc (key_len key kl) (\<lambda>kl.
      append_field b st key kl BSON_TYPE_DBPOINTER (4 + n + 12) [(4, le32 n), (n, s), (12, oid)])"
    using s by (simp add: bson_append_dbpointer_def c_strlen_def n_def Let_def)
  with assms(1-3) s n length_cstr_less [OF s(1)] oid show ?thesis
    by (simp only:) (intro append_fieldI; simp add: take_cstr u32_add)
qed

lemma append_string_rep:
  assumes "doc_rep b st body" and "doc_writable b" and "key_is key kl k" and n: "unat n \<le> length s" "unat n < 2 ^ 31"
  shows "wpc (append_string t b st key kl (Some s) n)
    (append_post body b st (elem t k (le32 (n + 1) @ take (unat n) s @ [0])))"
proof -
  have "\<not> sint n < 0" using n(2) by (simp add: sint_small not_less)
  then have "append_string t b st key kl (Some s) n = bindc (key_len key kl) (\<lambda>kl.
      append_field b st key kl t (4 + n + 1) [(4, le32 (n + 1)), (n, s), (1, [0])])"
    by (simp add: append_string_def key_len_def)
  with assms show ?thesis
    by (simp only:) (intro append_fieldI; simp add: u32_add)
qed

text \<open>Regular expressions: the options are sorted, and duplicates and unknown ones dropped.\<close>

definition sorted_options :: "bytes \<Rightarrow> bytes" where
  "sorted_options q = filter (\<lambda>ch. ch \<in> set q) BSON_REGEX_OPTIONS_SORTED"

lemma strchr_iff: "0 \<in> set s \<Longrightarrow> ch \<noteq> 0 \<Longrightarrow> c_strchr s ch = Inr (ch \<in> set (cstr s))"
  by (induction s) (auto simp: cstr_def)

lemma options_loop:
  assumes "string_wf buffer" and "0 \<in> set options" and "0 \<notin> set cs"
    and "(unat (str_alloc buffer) + 2) * 2 ^ length cs < 2 ^ 31"
  shows "wpc (append_options_loop fr buffer options cs) (\<lambda>r. string_wf r \<and>
    string_contents r = string_contents buffer @ filter (\<lambda>ch. ch \<in> set (cstr options)) cs)"
  using assms
proof (induction cs arbitrary: buffer)
  case (Cons ch cs)
  have le: "unat (str_alloc buffer) + 2 \<le> (unat (str_alloc buffer) + 2) * 2 ^ length (ch # cs)"
    using mult_le_mono2 [of 1 "2 ^ length (ch # cs)" "unat (str_alloc buffer) + 2"] by simp
  then have room: "unat (str_alloc buffer) < 2 ^ 31" using Cons.prems(4) by linarith
  show ?case
  proof (cases "ch \<in> set (cstr options)")
    case True
    from string_append_c [OF Cons.prems(1) _ room, of ch fr] Cons.prems(3)
    obtain r where r: "bson_string_append_c fr buffer ch = Inr r" "string_wf r"
      "string_contents r = string_contents buffer @ [ch]" "unat (str_alloc r) \<le> 2 * (unat (str_alloc buffer) + 1)"
      by (auto simp: wpc_iff)
    have "(unat (str_alloc r) + 2) * 2 ^ length cs \<le> (2 * (unat (str_alloc buffer) + 2)) * 2 ^ length cs"
      using r(4) by (intro mult_right_mono) auto
    then have "(unat (str_alloc r) + 2) * 2 ^ length cs < 2 ^ 31" using Cons.prems(4) by simp
    from Cons.IH [OF r(2) Cons.prems(2) _ this] Cons.prems(2,3) True r show ?thesis
      by (simp add: strchr_iff)
  next
    case False
    have "(unat (str_alloc buffer) + 2) * 2 ^ length cs < 2 ^ 31" using Cons.prems(4) by simp
    from Cons.IH [OF Cons.prems(1,2) _ this] Cons.prems(2,3) False show ?thesis
      by (simp add: strchr_iff)
  qed
qed simp

lemma append_regex:
  assumes "doc_rep b st body" and "doc_writable b" and "key_is key kl k"
    and r: "0 \<in> set r" "length (cstr r) < 2 ^ 29" and q: "0 \<in> set q"
  shows "wpc (bson_append_regex b st key kl (Some r) (Some q))
    (append_post body b st (elem BSON_TYPE_REGEX k (cstr r @ [0] @ sorted_options (cstr q) @ [0])))"
proof -
  let ?fr = "st_fresh st (st_next st)"
  from string_new(2) [of "[]" ?fr] obtain s0 where s0: "bson_string_new ?fr None = Inr s0" "string_wf s0"
    "string_contents s0 = []" "unat (str_alloc s0) = 1"
    by (auto simp: wpc_iff)
  from options_loop [of s0 q BSON_REGEX_OPTIONS_SORTED ?fr] s0 q obtain s1
    where s1: "append_options_loop ?fr s0 q BSON_REGEX_OPTIONS_SORTED = Inr s1" "string_wf s1"
      "string_contents s1 = sorted_options (cstr q)"
    by (auto simp: wpc_iff sorted_options_def BSON_REGEX_OPTIONS_SORTED_def)
  let ?n = "of_nat (length (cstr r)) :: u32"
  have n: "unat ?n = length (cstr r)" using r(2) by (simp add: unat_of_nat_u32)
  have sl: "unat (str_len s1) = length (sorted_options (cstr q))"
    using s1(2) by (simp add: string_wf_def s1(3) [symmetric] string_contents_def)
  have le6: "length (sorted_options (cstr q)) \<le> 6"
    unfolding sorted_options_def by (rule le_trans [OF length_filter_le]) (simp add: BSON_REGEX_OPTIONS_SORTED_def)
  have sl1: "unat (str_len s1 + 1) = unat (str_len s1) + 1" using sl le6 by (simp add: u32_add)
  have mem: "take (unat (str_len s1 + 1)) (str_mem s1) = sorted_options (cstr q) @ [0]"
    "unat (str_len s1 + 1) \<le> length (str_mem s1)"
    using s1(2) sl1 by (simp_all add: string_wf_def s1(3) [symmetric] string_contents_def take_Suc_conv_app_nth)
  have rs: "take (length (cstr r)) r = cstr r" "length (cstr r) \<le> length r"
    by (simp_all add: cstr_def length_takeWhile_le takeWhile_eq_take [symmetric])
  have eq: "bson_append_regex b st key kl (Some r) (Some q) = bindc (key_len key kl) (\<lambda>kl.
      append_field b st key kl BSON_TYPE_REGEX (?n + 1 + str_len s1 + 1)
        [(?n, r), (1, [0]), (str_len s1 + 1, str_mem s1)])"
    using r q s0(1) s1(1)
    by (simp add: bson_append_regex_def bson_append_regex_w_len_def deref_def c_strlen_def Let_def
        bson_append_regex_options_sorted_def)
  show ?thesis
    unfolding eq using n sl le6 r(2) rs mem
    by (intro append_fieldI [OF assms(1-3)]; simp add: u32_add)
qed

text \<open>Whole documents: \<open>doc_ok d n\<close> is what \<^verbatim>\<open>bson_init_static\<close> checks, on a pointer to at least \<open>n\<close> bytes.\<close>

definition doc_ok :: "bytes \<Rightarrow> u32 \<Rightarrow> bool" where
  "doc_ok d n \<longleftrightarrow> 5 \<le> unat n \<and> unat n \<le> INT_MAX \<and> unat n \<le> length d \<and> le32_at d 0 = n \<and> d ! (unat n - 1) = 0"

definition appended :: "bytes \<Rightarrow> bson_t \<Rightarrow> bson_store \<Rightarrow> bytes \<Rightarrow> bool \<times> bson_t \<times> bson_store \<Rightarrow> bool" where
  "appended body b st new r \<longleftrightarrow>
     (case r of (ok, b', st') \<Rightarrow> doc_frame b st b' st' \<and> doc_rep b' st' (if ok then body @ new else body) \<and>
        (ok \<or> \<not> doc_fits b (length new)))"

lemma append_post_appended:
  "doc_rep b st body \<Longrightarrow> wpc m (append_post body b st new) \<Longrightarrow> wpc m (appended body b st new)"
  by (auto simp: append_post_def appended_def elim!: wpc_mono split: prod.splits if_splits)

lemma st_new_frame:
  assumes "doc_rep b st body"
  shows "doc_rep b (snd (st_new c st)) body" and "doc_frame b st b (snd (st_new c st))"
  using assms
  by (auto simp: doc_rep_def doc_frame_def doc_space_def doc_ptr_def cell_bytes_def st_new_def st_set_def
      split: if_splits)

lemma appended_after:
  assumes "wpc m (appended body b st1 new)" and "doc_frame b st b st1"
  shows "wpc m (appended body b st new)"
  using assms by (auto simp: appended_def elim!: wpc_mono intro: doc_frame_trans)

lemma with_static_rep:
  assumes rep: "doc_rep b st body" and d: "doc_ok d n"
    and f: "\<And>st' doc. doc_rep b st' body \<Longrightarrow> bson_len doc = n \<Longrightarrow> bson_get_data doc st' = Inr d \<Longrightarrow>
      wpc (f st' doc) (appended body b st' new)"
  shows "wpc (with_static st b d n f) (appended body b st new)"
proof -
  let ?st = "snd (st_new \<lparr>cell_mem = Some d, cell_buflen = ucast n\<rparr> st)"
  let ?doc = "\<lparr>bson_flags = {BSON_FLAG_STATIC, BSON_FLAG_RDONLY}, bson_len = n, bson_data = [],
      bson_depth = 0, bson_buf = st_next st, bson_alloc = Some (st_next st), bson_offset = 0,
      bson_realloc_fn = False\<rparr>"
  have n1: "unat (ucast n - 1 :: u64) = unat n - 1" "\<not> (ucast n :: u64) < 5" "\<not> of_nat INT_MAX < (ucast n :: u64)"
    using d by (simp_all add: doc_ok_def u64_sub word_less_nat_alt INT_MAX_def)
  have "unat n - 1 < length d" using d by (auto simp: doc_ok_def)
  then have "bson_init_static st d (ucast n) = Inr (Some ?doc, ?st)"
    using d n1 by (simp add: bson_init_static_def doc_ok_def load32_cases load8_def st_new_def)
  moreover have "bson_get_data ?doc ?st = Inr d"
    by (simp add: bson_get_data_def is_inline_def st_new_def st_set_def)
  ultimately show ?thesis
    using f [OF st_new_frame(1) [OF rep], of ?doc] st_new_frame(2) [OF rep]
    by (auto simp: with_static_def intro: appended_after)
qed

text \<open>Reading the first key of a well-formed array is safe unless its first element is the over-reading one.\<close>

definition array_ok :: "bytes \<Rightarrow> u32 \<Rightarrow> bool" where
  "array_ok d n \<longleftrightarrow> doc_ok d n \<and> \<not> next_overreads (iter_start d n)"

lemma strcmp_total: "0 \<in> set a \<Longrightarrow> 0 \<in> set b \<Longrightarrow> \<exists>r. c_strcmp_by (\<lambda>x. x) a b = Inr r"
  by (rule c_strcmp_by_total) auto

lemma array_check_returns:
  assumes ok: "array_ok d n" and doc: "bson_len doc = n" "bson_get_data doc st = Inr d"
  shows "\<exists>r. array_check doc st = Inr r"
proof -
  have n: "5 \<le> unat n" "unat n \<le> INT_MAX" "unat n \<le> length d" and safe: "\<not> next_overreads (iter_start d n)"
    using ok by (auto simp: array_ok_def doc_ok_def)
  have init: "bson_iter_init d n = (True, iter_start d n)"
    using n(1) by (simp add: bson_iter_init_def u32_less)
  from next_progress [OF iter_wf_start [OF n(3,2)] safe] obtain hit it'
    where nx: "bson_iter_next (iter_start d n) = Inr (hit, it')"
      and on: "hit \<Longrightarrow> \<exists>t data. iter_on t data it'"
    by (auto simp: wpc_iff)
  have "\<exists>r. bson_empty doc st = Inr r" using doc n by (auto simp: bson_empty_def load8_def)
  moreover have "hit \<Longrightarrow> \<exists>r. bindc (bson_iter_key it') (\<lambda>key. c_strcmp_by (\<lambda>x. x) [0x30, 0] key) = Inr r"
    using on iter_on_key strcmp_total [of "[0x30, 0]"] by fastforce
  ultimately show ?thesis
    using doc init nx by (cases hit) (auto simp: array_check_def)
qed

section \<open>The element of a value\<close>

text \<open>
  \<open>enc_value v\<close> is the type code and the payload that \<open>v\<close> has in a document;
  \<open>value_valid v\<close> says that its pointers are valid for what the append functions read
  and that its sizes stay far below the 32-bit limit.
\<close>

definition c_len1 :: "bytes \<Rightarrow> u32" where
  "c_len1 s = of_nat (length (cstr s)) + 1"

fun enc_value :: "bson_value_t \<Rightarrow> u8 \<times> bytes" where
  "enc_value (V_DOUBLE v) = (BSON_TYPE_DOUBLE, le64 v)"
| "enc_value (V_UTF8 s n) = (BSON_TYPE_UTF8, le32 (n + 1) @ take (unat n) s @ [0])"
| "enc_value (V_DOCUMENT d n) = (BSON_TYPE_DOCUMENT, take (unat n) d)"
| "enc_value (V_ARRAY d n) = (BSON_TYPE_ARRAY, take (unat n) d)"
| "enc_value (V_BINARY t d n) = (BSON_TYPE_BINARY,
     if t = BSON_SUBTYPE_BINARY_DEPRECATED
     then le32 (n + 4) @ [t] @ le32 n @ take (unat n) d else le32 n @ [t] @ take (unat n) d)"
| "enc_value V_UNDEFINED = (BSON_TYPE_UNDEFINED, [])"
| "enc_value (V_OID v) = (BSON_TYPE_OID, v)"
| "enc_value (V_BOOL v) = (BSON_TYPE_BOOL, [if v then 1 else 0])"
| "enc_value (V_DATE_TIME v) = (BSON_TYPE_DATE_TIME, le64 v)"
| "enc_value V_NULL = (BSON_TYPE_NULL, [])"
| "enc_value (V_REGEX r q) = (BSON_TYPE_REGEX, cstr r @ [0] @ sorted_options (cstr q) @ [0])"
| "enc_value (V_DBPOINTER s n v) = (BSON_TYPE_DBPOINTER, le32 (c_len1 s) @ cstr s @ [0] @ v)"
| "enc_value (V_CODE s n) = (BSON_TYPE_CODE, le32 (c_len1 s) @ cstr s @ [0])"
| "enc_value (V_SYMBOL s n) = (BSON_TYPE_SYMBOL, le32 (n + 1) @ take (unat n) s @ [0])"
| "enc_value (V_CODEWSCOPE s n d dn) = (BSON_TYPE_CODEWSCOPE,
     le32 (4 + 4 + c_len1 s + dn) @ le32 (c_len1 s) @ cstr s @ [0] @ take (unat dn) d)"
| "enc_value (V_INT32 v) = (BSON_TYPE_INT32, le32 v)"
| "enc_value (V_TIMESTAMP ts inc) = (BSON_TYPE_TIMESTAMP, le64 (push_bit 32 (ucast ts) OR ucast inc))"
| "enc_value (V_INT64 v) = (BSON_TYPE_INT64, le64 v)"
| "enc_value (V_DECIMAL128 v) = (BSON_TYPE_DECIMAL128, le64 (dec_low v) @ le64 (dec_high v))"
| "enc_value V_MAXKEY = (BSON_TYPE_MAXKEY, [])"
| "enc_value V_MINKEY = (BSON_TYPE_MINKEY, [])"

fun value_valid :: "bson_value_t \<Rightarrow> bool" where
  "value_valid (V_UTF8 s n) = (unat n \<le> length s \<and> unat n < 2 ^ 31)"
| "value_valid (V_SYMBOL s n) = (unat n \<le> length s \<and> unat n < 2 ^ 31)"
| "value_valid (V_DOCUMENT d n) = doc_ok d n"
| "value_valid (V_ARRAY d n) = array_ok d n"
| "value_valid (V_BINARY t d n) = (unat n \<le> length d \<and> unat n < 2 ^ 31)"
| "value_valid (V_OID v) = (length v = 12)"
| "value_valid (V_REGEX r q) = (0 \<in> set r \<and> length (cstr r) < 2 ^ 29 \<and> 0 \<in> set q)"
| "value_valid (V_DBPOINTER s n v) = (0 \<in> set s \<and> length (cstr s) < 2 ^ 29 \<and> unat n = length (cstr s) \<and> length v = 12)"
| "value_valid (V_CODE s n) = (0 \<in> set s \<and> length (cstr s) < 2 ^ 29 \<and> unat n = length (cstr s))"
| "value_valid (V_CODEWSCOPE s n d dn) =
     (0 \<in> set s \<and> length (cstr s) < 2 ^ 29 \<and> unat n = length (cstr s) \<and> doc_ok d dn)"
| "value_valid _ = True"

lemma append_subdocs:
  assumes rep: "doc_rep b st body" and w: "doc_writable b" and key: "key_is key kl k"
  shows "doc_ok d n \<Longrightarrow> wpc (bson_append_value b st key kl (V_DOCUMENT d n))
      (appended body b st (elem BSON_TYPE_DOCUMENT k (take (unat n) d)))"
    and "array_ok d n \<Longrightarrow> wpc (bson_append_value b st key kl (V_ARRAY d n))
      (appended body b st (elem BSON_TYPE_ARRAY k (take (unat n) d)))"
proof -
  have field: "wpc (bindc (key_len key kl) (\<lambda>kl. append_field b st' key kl t n [(n, d)]))
      (appended body b st' (elem t k (take (unat n) d)))"
    if "doc_ok d n" and rep': "doc_rep b st' body" for st' t
    using that by (intro append_post_appended [OF rep'] append_fieldI [OF rep' w key])
      (simp_all add: doc_ok_def INT_MAX_def)
  show "wpc (bson_append_value b st key kl (V_DOCUMENT d n)) (appended body b st (elem BSON_TYPE_DOCUMENT k (take (unat n) d)))"
    if d: "doc_ok d n"
    unfolding bson_append_value.simps
  proof (rule with_static_rep [OF rep d])
    fix st' doc assume "doc_rep b st' body" "bson_len doc = n" "bson_get_data doc st' = Inr d"
    then show "wpc (bson_append_document b st' key kl doc) (appended body b st' (elem BSON_TYPE_DOCUMENT k (take (unat n) d)))"
      using field [OF d] by (simp add: bson_append_document_def)
  qed
  show "wpc (bson_append_value b st key kl (V_ARRAY d n)) (appended body b st (elem BSON_TYPE_ARRAY k (take (unat n) d)))"
    if a: "array_ok d n"
    unfolding bson_append_value.simps
  proof (rule with_static_rep [OF rep])
    show d: "doc_ok d n" using a by (simp add: array_ok_def)
    fix st' doc assume h: "doc_rep b st' body" "bson_len doc = n" "bson_get_data doc st' = Inr d"
    from array_check_returns [OF a h(2,3)] obtain r where "array_check doc st' = Inr r" by blast
    then show "wpc (bson_append_array b st' key kl doc) (appended body b st' (elem BSON_TYPE_ARRAY k (take (unat n) d)))"
      using field [OF d h(1)] h by (simp add: bson_append_array_def)
  qed
qed

lemma append_codewscope:
  assumes rep: "doc_rep b st body" and w: "doc_writable b" and key: "key_is key kl k"
    and s: "0 \<in> set s" "length (cstr s) < 2 ^ 29" and d: "doc_ok d dn"
  shows "wpc (bson_append_value b st key kl (V_CODEWSCOPE s n d dn))
    (appended body b st (elem BSON_TYPE_CODEWSCOPE k
      (le32 (4 + 4 + c_len1 s + dn) @ le32 (c_len1 s) @ cstr s @ [0] @ take (unat dn) d)))"
  unfolding bson_append_value.simps
proof (rule with_static_rep [OF rep d])
  fix st' doc assume h: "doc_rep b st' body" "bson_len doc = dn" "bson_get_data doc st' = Inr d"
  have n: "unat (c_len1 s) = length (cstr s) + 1" using s(2) by (simp add: c_len1_def u32_add unat_of_nat_u32)
  have eq: "bson_append_code_with_scope b st' key kl s (Some doc) = bindc (key_len key kl) (\<lambda>kl.
      append_field b st' key kl BSON_TYPE_CODEWSCOPE (4 + 4 + c_len1 s + dn)
        [(4, le32 (4 + 4 + c_len1 s + dn)), (4, le32 (c_len1 s)), (c_len1 s, s), (dn, d)])"
    using s h by (simp add: bson_append_code_with_scope_def c_strlen_def c_len1_def Let_def)
  show "wpc (bson_append_code_with_scope b st' key kl s (Some doc)) (appended body b st' (elem BSON_TYPE_CODEWSCOPE k
      (le32 (4 + 4 + c_len1 s + dn) @ le32 (c_len1 s) @ cstr s @ [0] @ take (unat dn) d)))"
    unfolding eq using s n d length_cstr_less [OF s(1)]
    by (intro append_post_appended [OF h(1)] append_fieldI [OF h(1) w key])
      (simp_all add: take_cstr u32_add doc_ok_def INT_MAX_def)
qed

lemma append_value_rep:
  assumes rep: "doc_rep b st body" and w: "doc_writable b" and key: "key_is key kl k" and v: "value_valid v"
  shows "wpc (bson_append_value b st key kl v) (appended body b st (case enc_value v of (t, payload) \<Rightarrow> elem t k payload))"
proof (cases v)
  case (V_DOCUMENT d n) then show ?thesis using v append_subdocs(1) [OF assms(1-3)] by simp
next
  case (V_ARRAY d n) then show ?thesis using v append_subdocs(2) [OF assms(1-3)] by simp
next
  case (V_CODEWSCOPE s n d dn) then show ?thesis using v append_codewscope [OF assms(1-3)] by simp
next
  case (V_BINARY t d n) then show ?thesis
    using v append_binary [OF assms(1-3)] by (simp add: append_post_appended [OF rep])
next
  case (V_REGEX r q) then show ?thesis
    using v append_regex [OF assms(1-3)] by (simp add: append_post_appended [OF rep])
next
  case (V_UTF8 s n) then show ?thesis
    using v append_string_rep [OF assms(1-3)] by (simp add: bson_append_utf8_def append_post_appended [OF rep])
next
  case (V_SYMBOL s n) then show ?thesis
    using v append_string_rep [OF assms(1-3)] by (simp add: bson_append_symbol_def append_post_appended [OF rep])
next
  case (V_CODE s n) then show ?thesis
    using v append_code [OF assms(1-3)] by (simp add: c_len1_def append_post_appended [OF rep])
next
  case (V_DBPOINTER s n oid) then show ?thesis
    using v append_dbpointer [OF assms(1-3)] by (simp add: c_len1_def append_post_appended [OF rep])
qed (use v append_fixed [OF assms(1-3)] in \<open>simp_all add: append_post_appended [OF rep]\<close>)

end
