(* ===== verification/Bson_Roundtrip.thy ===== *)
theory Bson_Roundtrip
  imports Bson_Append
begin

text \<open>
  The builder and the iterator against one specification: a document is a list of
  fields. Appending a value extends the list, and a loop over the document sees
  exactly the fields appended, in order; the interface \<open>field_builder\<close> states this
  contract and \<open>doc\<close> below interprets it on the model.
\<close>

section \<open>Decoding what was encoded\<close>

lemma scan_nul_hit:
  assumes "0 \<notin> set k" and "unat p = length x" and "length x + length k < unat len"
  shows "scan_nul (x @ k @ 0 # r) p len = Inr (Some (p + of_nat (length k)))"
  using assms
proof (induction k arbitrary: x p)
  case Nil
  then show ?case by (subst scan_nul.simps) (simp add: u32_less load8_def nth_append)
next
  case (Cons y k)
  have lt: "p < len" using Cons.prems by (simp add: u32_less)
  have suc: "unat (p + 1) = unat p + 1"
    using Cons.prems unat_u32_lt [of len] by (simp add: u32_add)
  have "scan_nul ((x @ [y]) @ k @ 0 # r) (p + 1) len = Inr (Some (p + 1 + of_nat (length k)))"
    by (rule Cons.IH) (use Cons.prems suc in auto)
  with Cons.prems lt show ?case
    by (subst scan_nul.simps) (simp add: load8_def nth_append ac_simps)
qed

text \<open>
  The iterator is about to decode the element with these parts, whose payload starts
  at the offset \<open>p\<close> of the buffer.
\<close>

definition at_elem :: "bson_iter_t \<Rightarrow> bytes \<Rightarrow> u32 \<Rightarrow> u8 \<Rightarrow> bytes \<Rightarrow> bytes \<Rightarrow> bytes \<Rightarrow> bool" where
  "at_elem it data p t k payload r \<longleftrightarrow>
     (\<exists>x. data = x @ elem t k payload @ r \<and> unat (iter_next_off it) = length x \<and> 4 \<le> length x \<and>
        length (x @ elem t k payload) < unat (iter_len it)) \<and>
     iter_raw it = Some data \<and> p = iter_next_off it + 1 + of_nat (length k) + 1 \<and>
     unat (iter_len it) \<le> length data \<and> unat (iter_len it) \<le> INT_MAX \<and> 0 \<notin> set k"

lemma at_elem_facts:
  assumes "at_elem it data p t k payload r"
  shows "iter_wf it" and "iter_raw it = Some data"
    and "scan_nul data (iter_next_off it + 1) (iter_len it) = Inr (Some (p - 1))"
    and "unat p = unat (iter_next_off it) + length k + 2"
    and "data ! unat (iter_next_off it) = t"
    and "drop (unat p) data = payload @ r"
    and "drop (unat (iter_next_off it) + 1) data = k @ 0 # payload @ r"
    and "unat p + length payload < unat (iter_len it)"
proof -
  obtain x where a: "data = x @ elem t k payload @ r" "unat (iter_next_off it) = length x" "4 \<le> length x"
    "unat (iter_len it) \<le> INT_MAX" "0 \<notin> set k"
    "length x + length k + 2 + length payload < unat (iter_len it)" "iter_raw it = Some data"
    "unat (iter_len it) \<le> length data" "p = iter_next_off it + 1 + of_nat (length k) + 1"
    using assms by (auto simp: at_elem_def elem_def)
  show "iter_wf it" using a by (simp add: iter_wf_def)
  show "iter_raw it = Some data" by (rule a(7))
  have "unat (of_nat (length k) :: u32) = length k" using a(4,6) by (simp add: unat_of_nat_u32 INT_MAX_def)
  with a(2,4,6,9) show off: "unat p = unat (iter_next_off it) + length k + 2" by (simp add: u32_add INT_MAX_def)
  have "scan_nul ((x @ [t]) @ k @ 0 # payload @ r) (iter_next_off it + 1) (iter_len it) =
      Inr (Some (iter_next_off it + 1 + of_nat (length k)))"
    by (rule scan_nul_hit) (use a in \<open>simp_all add: u32_add INT_MAX_def\<close>)
  then show "scan_nul data (iter_next_off it + 1) (iter_len it) = Inr (Some (p - 1))"
    by (simp add: elem_def a(1,9))
  show "data ! unat (iter_next_off it) = t" unfolding a(1,2) by (simp add: elem_def nth_append)
  show "drop (unat p) data = payload @ r" unfolding off a(1,2) by (simp add: elem_def)
  show "drop (unat (iter_next_off it) + 1) data = k @ 0 # payload @ r" unfolding a(1,2) by (simp add: elem_def)
  show "unat p + length payload < unat (iter_len it)" unfolding off a(2) using a(6) by simp
qed

text \<open>The view of a value: the bytes its pointers and lengths describe.\<close>

fun value_view :: "bson_value_t \<Rightarrow> bson_value_t" where
  "value_view (V_UTF8 s n) = V_UTF8 (take (unat n) s) n"
| "value_view (V_SYMBOL s n) = V_SYMBOL (take (unat n) s) n"
| "value_view (V_CODE s n) = V_CODE (take (unat n) s) n"
| "value_view (V_DOCUMENT d n) = V_DOCUMENT (take (unat n) d) n"
| "value_view (V_ARRAY d n) = V_ARRAY (take (unat n) d) n"
| "value_view (V_BINARY t d n) = V_BINARY t (take (unat n) d) n"
| "value_view (V_REGEX r q) = V_REGEX (cstr r) (cstr q)"
| "value_view (V_DBPOINTER s n v) = V_DBPOINTER (take (unat n) s) n v"
| "value_view (V_CODEWSCOPE s n d dn) = V_CODEWSCOPE (take (unat n) s) n (take (unat dn) d) dn"
| "value_view v = v"

text \<open>What a document stores of a value: regular-expression options are normalised.\<close>

fun value_stored :: "bson_value_t \<Rightarrow> bson_value_t" where
  "value_stored (V_REGEX r q) = V_REGEX (cstr r) (sorted_options (cstr q))"
| "value_stored v = value_view v"

definition reads :: "bson_iter_t \<Rightarrow> bytes \<Rightarrow> bytes \<Rightarrow> nat \<Rightarrow> bson_value_t \<Rightarrow> bool" where
  "reads it data k n w \<longleftrightarrow>
     (\<exists>it'. bson_iter_next it = Inr (True, it') \<and> iter_raw it' = Some data \<and> iter_len it' = iter_len it \<and>
        unat (iter_next_off it') = n \<and> bindc (bson_iter_key it') (\<lambda>p. Inr (cstr p)) = Inr k \<and>
        (\<exists>z. bson_iter_value it' = Inr (Some z) \<and> value_view z = w))"

lemma readsI:
  assumes at: "at_elem it data p t k payload r"
    and fill: "iter_fill t data (iter_len it) p ((iter_enter it)\<lparr>iter_d1 := p\<rparr>) = Inr (it2, q, True)"
    and nx: "unat (iter_next_off it2) = unat p + length payload"
    and val: "\<And>it3. it3 = it2\<lparr>iter_err_off := 0\<rparr> \<Longrightarrow> ITER_TYPE it3 = Inr t \<Longrightarrow> iter_raw it3 = Some data \<Longrightarrow>
      \<exists>z. bson_iter_value it3 = Inr (Some z) \<and> value_view z = w"
  shows "reads it data k (unat p + length payload) w"
proof -
  let ?it1 = "(iter_enter it)\<lparr>iter_d1 := p\<rparr>"
  note f = at_elem_facts [OF at]
  have k: "0 \<notin> set k" using at by (simp add: at_elem_def)
  note found = next_found [OF f(1,2,3), simplified]
  have "t = BSON_TYPE_BINARY \<Longrightarrow> \<not> binary_overread data (iter_len it) (unat p)"
    using fill fill_binary_overread [OF found(6)] by (auto simp: iter_fill_def)
  from fill_any [OF found(6), of t] this fill have post: "fill_post t data p ?it1 (it2, q, True)" by simp
  then have sel: "iter_raw it2 = Some data" "iter_len it2 = iter_len it" "iter_type it2 = iter_next_off it"
    "iter_key it2 = iter_next_off it + 1"
    by (simp_all add: fill_post_def f(2))
  have "ITER_TYPE (it2\<lparr>iter_err_off := 0\<rparr>) = Inr t"
    using sel(1,3) f(5) found(5) by (simp add: ITER_TYPE_def with_raw_def load8_in)
  from val [OF refl this] sel(1) obtain z where z: "bson_iter_value (it2\<lparr>iter_err_off := 0\<rparr>) = Inr (Some z)" "value_view z = w"
    by auto
  have "bson_iter_next_internal it = Inr (iter_finish t (drop (unat (iter_next_off it + 1)) data) (iter_len it) (it2, q, True))"
    using f(2,3,5) fill found(5) by (simp add: bson_iter_next_internal_def Let_def load8_in)
  then have "bson_iter_next it = Inr (True, it2\<lparr>iter_err_off := 0\<rparr>)"
    using nx f(8) by (simp add: bson_iter_next_def iter_finish_def u32_le not_le)
  moreover have "unat (iter_next_off it + 1) = unat (iter_next_off it) + 1"
    using f(4,8) unat_u32_lt [of "iter_len it"] by (simp add: u32_add)
  then have "bindc (bson_iter_key (it2\<lparr>iter_err_off := 0\<rparr>)) (\<lambda>p. Inr (cstr p)) = Inr k"
    using sel(1,4) k f(7) by (simp add: bson_iter_key_def with_raw_def)
  ultimately show ?thesis
    using sel(1,2) nx z by (auto simp: reads_def)
qed

text \<open>Reads inside the payload.\<close>

lemma at_payload:
  assumes at: "at_elem it data p t k payload r"
  shows "drop (unat p + j) data = drop j (payload @ r)"
    and "le32_at data (unat p + j) = le32_at (payload @ r) j"
    and "le64_at data (unat p + j) = le64_at (payload @ r) j"
    and "j < length (payload @ r) \<Longrightarrow> data ! (unat p + j) = (payload @ r) ! j"
    and "length data = unat p + length payload + length r"
    and "unat p + length payload < unat (iter_len it)"
    and "unat (iter_len it) \<le> unat p + length payload + length r"
    and "unat (iter_len it) \<le> 2147483647"
    and "le32_at data (unat p) = le32_at (payload @ r) 0"
    and "le64_at data (unat p) = le64_at (payload @ r) 0"
proof -
  note f = at_elem_facts [OF at]
  show dr: "drop (unat p + j) data = drop j (payload @ r)" for j
    using f(6) by (metis add.commute drop_drop)
  show "le32_at data (unat p + j) = le32_at (payload @ r) j" "le64_at data (unat p + j) = le64_at (payload @ r) j"
    by (simp_all only: le32_at_def le64_at_def dr)
  show "le32_at data (unat p) = le32_at (payload @ r) 0" "le64_at data (unat p) = le64_at (payload @ r) 0"
    by (simp_all only: le32_at_def le64_at_def f(6) drop_0)
  have len: "length (drop (unat p) data) = length (payload @ r)" by (simp only: f(6))
  moreover have "unat p \<le> length data" using f(8) at by (simp add: at_elem_def)
  ultimately show l: "length data = unat p + length payload + length r" by simp
  show "j < length (payload @ r) \<Longrightarrow> data ! (unat p + j) = (payload @ r) ! j"
    using l by (simp add: f(6) [symmetric])
  show "unat p + length payload < unat (iter_len it)" by (rule f(8))
  have "unat (iter_len it) \<le> length data" "unat (iter_len it) \<le> INT_MAX" using at unfolding at_elem_def by blast+
  then show "unat (iter_len it) \<le> unat p + length payload + length r" "unat (iter_len it) \<le> 2147483647"
    unfolding l INT_MAX_def by simp_all
qed

text \<open>Fixed-size values.\<close>

lemma le_prefix [simp]: "le32_at (le32 v @ r) 0 = v" "le64_at (le64 w @ r) 0 = w"
  by (simp_all add: le32_at_def le64_at_def)

text \<open>\<^verbatim>\<open>bson_iter_value\<close> at each type code.\<close>

lemma value_at_type:
  assumes "iter_raw it = Some data"
  shows "ITER_TYPE it = Inr BSON_TYPE_DOUBLE \<Longrightarrow> bson_iter_value it =
      bindc (load64 data (unat (iter_d1 it))) (\<lambda>d. Inr (Some (V_DOUBLE d)))"
    and "ITER_TYPE it = Inr BSON_TYPE_DATE_TIME \<Longrightarrow> bson_iter_value it =
      bindc (load64 data (unat (iter_d1 it))) (\<lambda>d. Inr (Some (V_DATE_TIME d)))"
    and "ITER_TYPE it = Inr BSON_TYPE_INT64 \<Longrightarrow> bson_iter_value it =
      bindc (load64 data (unat (iter_d1 it))) (\<lambda>d. Inr (Some (V_INT64 d)))"
    and "ITER_TYPE it = Inr BSON_TYPE_INT32 \<Longrightarrow> bson_iter_value it =
      bindc (load32 data (unat (iter_d1 it))) (\<lambda>d. Inr (Some (V_INT32 d)))"
    and "ITER_TYPE it = Inr BSON_TYPE_TIMESTAMP \<Longrightarrow> bson_iter_value it =
      bindc (load64 data (unat (iter_d1 it))) (\<lambda>e. Inr (Some (V_TIMESTAMP
        (ucast (drop_bit 32 e AND 0xFFFFFFFF)) (ucast (e AND 0xFFFFFFFF)))))"
    and "ITER_TYPE it = Inr BSON_TYPE_OID \<Longrightarrow> bson_iter_value it =
      bindc (memcpy_from (drop (unat (iter_d1 it)) data) 0 12) (\<lambda>b. Inr (Some (V_OID b)))"
    and "ITER_TYPE it = Inr BSON_TYPE_BOOL \<Longrightarrow> bson_iter_value it =
      bindc (load8 data (unat (iter_d1 it))) (\<lambda>x. Inr (Some (V_BOOL (x \<noteq> 0))))"
    and "ITER_TYPE it = Inr BSON_TYPE_DECIMAL128 \<Longrightarrow> bson_iter_value it =
      bindc (load64 data (unat (iter_d1 it))) (\<lambda>l. bindc (load64 data (unat (iter_d1 it) + 8)) (\<lambda>h.
        Inr (Some (V_DECIMAL128 \<lparr>dec_low = l, dec_high = h\<rparr>))))"
    and "ITER_TYPE it = Inr BSON_TYPE_MAXKEY \<Longrightarrow> bson_iter_value it = Inr (Some V_MAXKEY)"
    and "ITER_TYPE it = Inr BSON_TYPE_MINKEY \<Longrightarrow> bson_iter_value it = Inr (Some V_MINKEY)"
    and "ITER_TYPE it = Inr BSON_TYPE_NULL \<Longrightarrow> bson_iter_value it = Inr (Some V_NULL)"
    and "ITER_TYPE it = Inr BSON_TYPE_UNDEFINED \<Longrightarrow> bson_iter_value it = Inr (Some V_UNDEFINED)"
  by (simp_all add: bson_iter_value_def access_defs assms deref_def bindc_assoc)

lemma string_at_type:
  assumes "iter_raw it = Some data" and "load32 data (unat (iter_d1 it)) = Inr l" and "\<not> sint l - 1 < 0"
  shows "ITER_TYPE it = Inr BSON_TYPE_UTF8 \<Longrightarrow> bson_iter_value it = Inr (Some (V_UTF8 (drop (unat (iter_d2 it)) data) (l - 1)))"
    and "ITER_TYPE it = Inr BSON_TYPE_CODE \<Longrightarrow> bson_iter_value it = Inr (Some (V_CODE (drop (unat (iter_d2 it)) data) (l - 1)))"
    and "ITER_TYPE it = Inr BSON_TYPE_SYMBOL \<Longrightarrow> bson_iter_value it = Inr (Some (V_SYMBOL (drop (unat (iter_d2 it)) data) (l - 1)))"
  using assms by (simp_all add: bson_iter_value_def access_defs deref_def)

lemma pointers_at_type:
  assumes "iter_raw it = Some data"
  shows "load32 data (unat (iter_d1 it)) = Inr l \<Longrightarrow> ITER_TYPE it = Inr BSON_TYPE_DOCUMENT \<Longrightarrow>
      bson_iter_value it = Inr (Some (V_DOCUMENT (drop (unat (iter_d1 it)) data) l))"
    and "load32 data (unat (iter_d1 it)) = Inr l \<Longrightarrow> ITER_TYPE it = Inr BSON_TYPE_ARRAY \<Longrightarrow>
      bson_iter_value it = Inr (Some (V_ARRAY (drop (unat (iter_d1 it)) data) l))"
    and "load32 data (unat (iter_d1 it)) = Inr l \<Longrightarrow> load8 data (unat (iter_d2 it)) = Inr st \<Longrightarrow>
      ITER_TYPE it = Inr BSON_TYPE_BINARY \<Longrightarrow> bson_iter_value it = Inr (Some
        (if st = BSON_SUBTYPE_BINARY_DEPRECATED then V_BINARY st (drop (unat (iter_d3 it) + 4) data) (l - 4)
         else V_BINARY st (drop (unat (iter_d3 it)) data) l))"
    and "ITER_TYPE it = Inr BSON_TYPE_REGEX \<Longrightarrow>
      bson_iter_value it = Inr (Some (V_REGEX (drop (unat (iter_d1 it)) data) (drop (unat (iter_d2 it)) data)))"
    and "load32 data (unat (iter_d1 it)) = Inr l \<Longrightarrow> l > 0 \<Longrightarrow> ITER_TYPE it = Inr BSON_TYPE_DBPOINTER \<Longrightarrow>
      bson_iter_value it = bindc (memcpy_from (drop (unat (iter_d3 it)) data) 0 12) (\<lambda>b.
        Inr (Some (V_DBPOINTER (drop (unat (iter_d2 it)) data) (l - 1) b)))"
    and "load32 data (unat (iter_d2 it)) = Inr l \<Longrightarrow> l > 0 \<Longrightarrow> load32 data (unat (iter_d4 it)) = Inr sl \<Longrightarrow>
      ITER_TYPE it = Inr BSON_TYPE_CODEWSCOPE \<Longrightarrow>
      bson_iter_value it = Inr (Some (V_CODEWSCOPE (drop (unat (iter_d3 it)) data) (l - 1) (drop (unat (iter_d4 it)) data) sl))"
  using assms by (simp_all add: bson_iter_value_def access_defs deref_def)


lemma timestamp_parts:
  "ucast (drop_bit 32 (push_bit 32 (ucast ts) OR ucast inc :: u64) AND 0xFFFFFFFF) = (ts :: u32)"
  "ucast ((push_bit 32 (ucast ts) OR ucast inc :: u64) AND 0xFFFFFFFF) = (inc :: u32)"
proof -
  have beyond: "\<not> bit (w :: u32) (32 + j)" for w j by (auto dest: bit_imp_le_length)
  have tb: "v AND 0xFFFFFFFF = take_bit 32 v" for v :: u64
    by (simp add: take_bit_eq_mask mask_eq_exp_minus_1)
  show "ucast (drop_bit 32 (push_bit 32 (ucast ts) OR ucast inc :: u64) AND 0xFFFFFFFF) = (ts :: u32)"
    "ucast ((push_bit 32 (ucast ts) OR ucast inc :: u64) AND 0xFFFFFFFF) = (inc :: u32)"
    unfolding tb by (auto intro!: bit_word_eqI simp: bit_simps beyond)
qed

text \<open>Values whose payload has a fixed size; the switch only moves \<^verbatim>\<open>next_off\<close>.\<close>

lemma reads_sized:
  assumes at: "at_elem it data p t k payload r"
    and fill: "iter_fill t data (iter_len it) p ((iter_enter it)\<lparr>iter_d1 := p\<rparr>) =
      Inr ((iter_enter it)\<lparr>iter_d1 := p, iter_next_off := p + n\<rparr>, p, True)"
    and n: "unat n = length payload"
    and val: "\<And>it3. ITER_TYPE it3 = Inr t \<Longrightarrow> iter_raw it3 = Some data \<Longrightarrow> iter_d1 it3 = p \<Longrightarrow>
      \<exists>z. bson_iter_value it3 = Inr (Some z) \<and> value_view z = w"
  shows "reads it data k (unat p + length payload) w"
proof (rule readsI [OF at fill])
  show "unat (iter_next_off ((iter_enter it)\<lparr>iter_d1 := p, iter_next_off := p + n\<rparr>)) = unat p + length payload"
    using at_payload(6,8) [OF at] n by (simp add: u32_add)
qed (use val in simp)

lemma reads_fixed:
  assumes at: "at_elem it data p t k payload r" and v: "enc_value v = (t, payload)" "value_valid v"
    and t: "t \<in> {BSON_TYPE_DATE_TIME, BSON_TYPE_DOUBLE, BSON_TYPE_INT64, BSON_TYPE_TIMESTAMP, BSON_TYPE_INT32,
      BSON_TYPE_OID, BSON_TYPE_BOOL, BSON_TYPE_DECIMAL128}"
  shows "reads it data k (unat p + length payload) (value_stored v)"
proof -
  note a = at_payload [OF at] and dr = at_elem_facts(6) [OF at]
  note S = reads_sized [OF at]
  show ?thesis
  proof (cases v)
    case (V_DATE_TIME x)
    show ?thesis by (rule S [of 8]) (use v V_DATE_TIME a(5,10) in \<open>auto simp: iter_fill_def value_at_type load64_cases\<close>)
  next
    case (V_DOUBLE x)
    show ?thesis by (rule S [of 8]) (use v V_DOUBLE a(5,10) in \<open>auto simp: iter_fill_def value_at_type load64_cases\<close>)
  next
    case (V_INT64 x)
    show ?thesis by (rule S [of 8]) (use v V_INT64 a(5,10) in \<open>auto simp: iter_fill_def value_at_type load64_cases\<close>)
  next
    case (V_TIMESTAMP ts inc)
    show ?thesis by (rule S [of 8]) (use v V_TIMESTAMP a(5,10) timestamp_parts in
      \<open>auto simp: iter_fill_def value_at_type load64_cases\<close>)
  next
    case (V_INT32 x)
    show ?thesis by (rule S [of 4]) (use v V_INT32 a(5,9) in \<open>auto simp: iter_fill_def value_at_type load32_cases\<close>)
  next
    case (V_OID x)
    show ?thesis by (rule S [of 12]) (use v V_OID dr in \<open>auto simp: iter_fill_def value_at_type memcpy_from_def\<close>)
  next
    case (V_DECIMAL128 x)
    have "le64_at data (unat p) = dec_low x" "le64_at data (unat p + 8) = dec_high x"
      using a(10) a(3) [of 8] v V_DECIMAL128 by (auto simp: le64_at_def)
    then show ?thesis
      by (intro S [of 16]) (use v V_DECIMAL128 a(5) in \<open>auto simp: iter_fill_def value_at_type load64_cases\<close>)
  next
    case (V_BOOL x)
    have b: "data ! unat p = (if x then 1 else 0)" "unat p < length data" "p < iter_len it"
      using a(4) [of 0] a(5,6) v V_BOOL by (auto simp: u32_less)
    then show ?thesis
      by (intro S [of 1]) (use v V_BOOL in \<open>auto simp: iter_fill_def iter_fill_bool_def value_at_type load8_def\<close>)
  qed (use v t in \<open>auto split: if_splits\<close>)
qed

lemma reads_empty:
  assumes at: "at_elem it data p t k payload r" and v: "enc_value v = (t, payload)"
    and t: "t \<in> {BSON_TYPE_MAXKEY, BSON_TYPE_MINKEY, BSON_TYPE_NULL, BSON_TYPE_UNDEFINED}"
  shows "reads it data k (unat p + length payload) (value_stored v)"
proof -
  let ?it2 = "(iter_enter it)\<lparr>iter_d1 := - 1, iter_next_off := p\<rparr>"
  have fill: "iter_fill t data (iter_len it) p ((iter_enter it)\<lparr>iter_d1 := p\<rparr>) = Inr (?it2, p, True)"
    using t by (elim insertE emptyE; hypsubst) (simp_all add: iter_fill_def)
  from v t have vt: "payload = [] \<and> (t = BSON_TYPE_MAXKEY \<and> v = V_MAXKEY \<or> t = BSON_TYPE_MINKEY \<and> v = V_MINKEY \<or>
      t = BSON_TYPE_NULL \<and> v = V_NULL \<or> t = BSON_TYPE_UNDEFINED \<and> v = V_UNDEFINED)"
    by (cases v) auto
  show ?thesis
    by (rule readsI [OF at fill]) (use vt in \<open>auto simp: value_at_type\<close>)
qed


lemma reads_string:
  assumes at: "at_elem it data p t k payload r"
    and t: "t \<in> {BSON_TYPE_CODE, BSON_TYPE_SYMBOL, BSON_TYPE_UTF8}"
    and pl: "payload = le32 (n + 1) @ s @ [0]" "unat n = length s" "unat n < 2 ^ 31"
  shows "reads it data k (unat p + length payload)
    (if t = BSON_TYPE_CODE then V_CODE s n else if t = BSON_TYPE_SYMBOL then V_SYMBOL s n else V_UTF8 s n)"
proof -
  note a = at_payload [OF at]
  define l where "l = n + 1"
  have l: "unat l = length s + 1" "l - 1 = n" using pl by (simp_all add: l_def u32_add)
  have len: "length payload = length s + 5" using pl by simp
  have rd: "le32_at data (unat p) = l" using a(9) pl by (simp add: l_def)
  have z: "data ! (unat p + 4 + length s) = 0"
    using a(4) [of "4 + length s"] len by (simp add: pl nth_append add.assoc)
  have dr: "drop (unat p + 4) data = s @ 0 # r" using a(1) [of 4] pl by simp
  have p4: "unat (p + 4) = unat p + 4" using a(6,8) by (simp add: u32_add)
  let ?it2 = "(iter_enter it)\<lparr>iter_d1 := p, iter_d2 := p + 4, iter_next_off := p + 4 + l\<rparr>"
  have "unat (p + 4) + unat l < 2 ^ 32" using a(6,8) p4 l len by simp
  from u32_add [OF this] have nx: "unat (p + 4 + l) = unat p + length payload" using p4 l len by linarith
  have sub: "unat (iter_len it - (p + 4)) = unat (iter_len it) - unat p - 4" using a(6) p4 len by (simp add: u32_sub)
  have "iter_fill_utf8 data (iter_len it) p ((iter_enter it)\<lparr>iter_d1 := p\<rparr>) = Inr (?it2, p, True)"
  proof -
    have "\<not> iter_len it \<le> p + 4" "\<not> iter_len it - (p + 4) < l" "l \<noteq> 0" "\<not> iter_len it \<le> p + 4 + l"
      using a(6) p4 nx sub l(1) len by (auto simp: u32_le u32_less)
    moreover have "load32 data (unat p) = Inr l" "load8 data (unat (p + 4) + unat (l - 1)) = Inr 0"
      using rd a(5) len z p4 l pl(2) by (simp_all add: load32_cases load8_def)
    ultimately show ?thesis by (simp add: iter_fill_utf8_def Let_def)
  qed
  then have fill: "iter_fill t data (iter_len it) p ((iter_enter it)\<lparr>iter_d1 := p\<rparr>) = Inr (?it2, p, True)"
    using t by (elim insertE emptyE; hypsubst) (simp_all add: iter_fill_def)
  have "l \<noteq> 0" "unat l \<le> 2147483647" using l a(6,8) len by auto
  note sg = string_len(1) [OF this]
  show ?thesis
  proof (rule readsI [OF at fill])
    fix it3 assume it3: "it3 = ?it2\<lparr>iter_err_off := 0\<rparr>" "ITER_TYPE it3 = Inr t" "iter_raw it3 = Some data"
    have "load32 data (unat (iter_d1 it3)) = Inr l" "drop (unat (iter_d2 it3)) data = s @ 0 # r"
      using it3(1) rd a(5) len p4 dr by (simp_all add: load32_cases)
    with string_at_type [OF it3(3) this(1) sg] it3(2) t l(2) pl(2) show "\<exists>z. bson_iter_value it3 = Inr (Some z) \<and>
        value_view z = (if t = BSON_TYPE_CODE then V_CODE s n else if t = BSON_TYPE_SYMBOL then V_SYMBOL s n else V_UTF8 s n)"
      by auto
  qed (simp add: nx)
qed

lemma reads_document:
  assumes at: "at_elem it data p t k payload r"
    and t: "t \<in> {BSON_TYPE_DOCUMENT, BSON_TYPE_ARRAY}"
    and pl: "unat n = length payload" "le32_at payload 0 = n" "5 \<le> unat n"
  shows "reads it data k (unat p + length payload)
    (if t = BSON_TYPE_DOCUMENT then V_DOCUMENT payload n else V_ARRAY payload n)"
proof -
  note a = at_payload [OF at] and dr = at_elem_facts(6) [OF at]
  have rd: "le32_at data (unat p) = n" using a(9) pl by (simp add: le32_at_def)
  have ld: "load32 data (unat p) = Inr n" using rd a(5) pl by (simp add: load32_cases)
  let ?it2 = "(iter_enter it)\<lparr>iter_d1 := p, iter_next_off := p + n\<rparr>"
  have nx: "unat (p + n) = unat p + length payload" using a(6,8) pl by (simp add: u32_add)
  have "unat (iter_len it - p) = unat (iter_len it) - unat p" "unat (iter_len it - 4) = unat (iter_len it) - 4"
    using a(6) pl by (simp_all add: u32_sub)
  then have "\<not> iter_len it - 4 \<le> p" "\<not> iter_len it < n" "\<not> iter_len it - p < n"
    using a(6) pl by (auto simp: u32_le u32_less)
  then have "iter_fill_document data (iter_len it) p ((iter_enter it)\<lparr>iter_d1 := p\<rparr>) = Inr (?it2, p, True)"
    using ld by (simp add: iter_fill_document_def)
  then have fill: "iter_fill t data (iter_len it) p ((iter_enter it)\<lparr>iter_d1 := p\<rparr>) = Inr (?it2, p, True)"
    using t by (elim insertE emptyE; hypsubst) (simp_all add: iter_fill_def)
  show ?thesis
  proof (rule readsI [OF at fill])
    fix it3 assume it3: "it3 = ?it2\<lparr>iter_err_off := 0\<rparr>" "ITER_TYPE it3 = Inr t" "iter_raw it3 = Some data"
    have "load32 data (unat (iter_d1 it3)) = Inr n" "drop (unat (iter_d1 it3)) data = payload @ r"
      using it3(1) ld dr by simp_all
    with pointers_at_type(1,2) [OF it3(3) this(1)] it3(2) t pl(1) show "\<exists>z. bson_iter_value it3 = Inr (Some z) \<and>
        value_view z = (if t = BSON_TYPE_DOCUMENT then V_DOCUMENT payload n else V_ARRAY payload n)"
      by auto
  qed (simp add: nx)
qed

lemma reads_binary:
  assumes at: "at_elem it data p BSON_TYPE_BINARY k payload r"
    and pl: "payload = le32 l @ [st] @ body" "unat l = length body"
    and old: "st = BSON_SUBTYPE_BINARY_DEPRECATED \<Longrightarrow> body = le32 n @ d \<and> l = n + 4"
    and new: "st \<noteq> BSON_SUBTYPE_BINARY_DEPRECATED \<Longrightarrow> body = d \<and> l = n"
    and n: "unat n = length d"
  shows "reads it data k (unat p + length payload) (V_BINARY st d n)"
proof -
  note a = at_payload [OF at]
  have len: "length payload = length body + 5" using pl by simp
  have p4: "unat (p + 4) = unat p + 4" "unat (p + 5) = unat p + 5" using a(6,8) len by (simp_all add: u32_add)
  have ld: "load32 data (unat p) = Inr l" using a(5,9) pl by (simp add: load32_cases)
  have st: "load8 data (unat (p + 4)) = Inr st"
    using a(4) [of 4] a(5) len p4 by (simp add: pl nth_append load8_def)
  have dr: "drop (unat p + 5) data = body @ r" using a(1) [of 5] pl by simp
  let ?it2 = "(iter_enter it)\<lparr>iter_d1 := p, iter_d2 := p + 4, iter_d3 := p + 5, iter_next_off := p + 5 + l\<rparr>"
  have "unat (p + 5) + unat l < 2 ^ 32" using a(6,8) p4 pl(2) len by simp
  from u32_add [OF this] have nx: "unat (p + 5 + l) = unat p + length payload" using p4 pl(2) len by linarith
  have "unat (iter_len it - p) = unat (iter_len it) - unat p" "unat (iter_len it - 4) = unat (iter_len it) - 4"
    using a(6) len by (simp_all add: u32_sub)
  then have "\<not> iter_len it - 4 \<le> p" "\<not> iter_len it - p \<le> l"
    using a(6) len pl(2) by (auto simp: u32_le u32_less)
  moreover have "load32 data (unat (p + 5)) = Inr n \<and> \<not> l < 4" if "st = BSON_SUBTYPE_BINARY_DEPRECATED"
    using old [OF that] a(2) [of 5] a(5) len p4(2) pl(2) pl(1) by (auto simp: load32_cases u32_less le32_at_def)
  ultimately have fill: "iter_fill BSON_TYPE_BINARY data (iter_len it) p ((iter_enter it)\<lparr>iter_d1 := p\<rparr>) = Inr (?it2, p, True)"
    using ld st old by (auto simp: iter_fill_def iter_fill_binary_def Let_def)
  show ?thesis
  proof (rule readsI [OF at fill])
    fix it3 assume it3: "it3 = ?it2\<lparr>iter_err_off := 0\<rparr>" "ITER_TYPE it3 = Inr BSON_TYPE_BINARY" "iter_raw it3 = Some data"
    have "load32 data (unat (iter_d1 it3)) = Inr l" "load8 data (unat (iter_d2 it3)) = Inr st"
      "unat (iter_d3 it3) = unat p + 5"
      using it3(1) ld st p4 by simp_all
    moreover have "drop (unat p + 5 + 4) data = drop 4 (body @ r)" using dr by (metis add.commute drop_drop)
    ultimately show "\<exists>z. bson_iter_value it3 = Inr (Some z) \<and> value_view z = V_BINARY st d n"
      using pointers_at_type(3) [OF it3(3)] it3(2) dr old new n by (cases "st = BSON_SUBTYPE_BINARY_DEPRECATED") auto
  qed (simp add: nx)
qed


lemma reads_regex:
  assumes at: "at_elem it data p BSON_TYPE_REGEX k payload r"
    and pl: "payload = re @ [0] @ op @ [0]" "0 \<notin> set re" "0 \<notin> set op"
  shows "reads it data k (unat p + length payload) (V_REGEX re op)"
proof -
  note a = at_payload [OF at] and dr = at_elem_facts(6) [OF at]
  have len: "length payload = length re + length op + 2" using pl by simp
  have x: "data = take (unat p) data @ re @ 0 # op @ 0 # r" "length (take (unat p) data) = unat p"
    using append_take_drop_id [of "unat p" data] dr a(5) by (simp_all add: pl)
  have small: "unat (of_nat (length re) :: u32) = length re" "unat (of_nat (length op) :: u32) = length op"
    using a(6,8) len by (simp_all add: unat_of_nat_u32)
  define q1 where "q1 = p + of_nat (length re)"
  have q1: "unat q1 = unat p + length re" "unat (q1 + 1) = unat p + length re + 1"
    using a(6,8) len small by (simp_all add: q1_def u32_add)
  have s1: "scan_nul data p (iter_len it) = Inr (Some q1)"
    unfolding q1_def by (subst x(1), rule scan_nul_hit) (use pl x(2) a(6) len in auto)
  have y: "data = (take (unat p) data @ re @ [0]) @ op @ 0 # r" using x(1) by simp
  define q2 where "q2 = q1 + 1 + of_nat (length op)"
  have s2: "scan_nul data (q1 + 1) (iter_len it) = Inr (Some q2)"
    unfolding q2_def by (subst y, rule scan_nul_hit) (use pl x(2) a(6) len q1 in auto)
  have "unat (q1 + 1) + unat (of_nat (length op) :: u32) < 2 ^ 32" using a(6,8) len q1 small by simp
  from u32_add [OF this] have q2: "unat q2 = unat p + length re + 1 + length op" using q1 small by (simp add: q2_def)
  then have q21: "unat (q2 + 1) = unat p + length payload" using a(6,8) len by (simp add: u32_add)
  let ?it2 = "(iter_enter it)\<lparr>iter_d1 := p, iter_d2 := q1 + 1, iter_next_off := q2 + 1\<rparr>"
  have fill: "iter_fill BSON_TYPE_REGEX data (iter_len it) p ((iter_enter it)\<lparr>iter_d1 := p\<rparr>) = Inr (?it2, q2, True)"
    using s1 s2 by (simp add: iter_fill_def iter_fill_regex_def Let_def)
  show ?thesis
  proof (rule readsI [OF at fill])
    fix it3 assume it3: "it3 = ?it2\<lparr>iter_err_off := 0\<rparr>" "ITER_TYPE it3 = Inr BSON_TYPE_REGEX" "iter_raw it3 = Some data"
    have "drop (unat (iter_d1 it3)) data = re @ 0 # op @ 0 # r" "drop (unat (iter_d2 it3)) data = op @ 0 # r"
      using it3(1) dr q1(2) a(1) [of "length re + 1"] by (simp_all add: pl add.assoc)
    with pointers_at_type(4) [OF it3(3,2)] pl(2,3)
    show "\<exists>z. bson_iter_value it3 = Inr (Some z) \<and> value_view z = V_REGEX re op" by simp
  qed (simp add: q21)
qed

lemma reads_dbpointer:
  assumes at: "at_elem it data p BSON_TYPE_DBPOINTER k payload r"
    and pl: "payload = le32 (n + 1) @ s @ [0] @ oid" "unat n = length s" "length oid = 12" "unat n < 2 ^ 31"
  shows "reads it data k (unat p + length payload) (V_DBPOINTER s n oid)"
proof -
  note a = at_payload [OF at]
  define l where "l = n + 1"
  have l: "unat l = length s + 1" "l - 1 = n" using pl by (simp_all add: l_def u32_add)
  have len: "length payload = length s + 17" using pl by simp
  have ld: "load32 data (unat p) = Inr l" using a(5,9) pl len by (simp add: l_def load32_cases)
  have "data ! (unat p + (4 + length s)) = 0" using a(4) [of "4 + length s"] len by (simp add: pl nth_append)
  moreover have "unat p + unat l + 3 = unat p + (4 + length s)" using l by simp
  ultimately have z: "load8 data (unat p + unat l + 3) = Inr 0" using a(5) len by (simp only: load8_def) simp
  have p4: "unat (p + 4) = unat p + 4" using a(6,8) by (simp add: u32_add)
  have "unat (p + 4) + unat l < 2 ^ 32" using a(6,8) p4 l len by simp
  from u32_add [OF this] have d3: "unat (p + 4 + l) = unat p + 5 + length s" using p4 l by linarith
  have "unat (p + 4 + l) + unat (12 :: u32) < 2 ^ 32" using a(6,8) d3 len by simp
  from u32_add [OF this] have nx: "unat (p + 4 + l + 12) = unat p + length payload" using d3 len by simp
  have dr: "drop (unat p + 4) data = s @ 0 # oid @ r" "drop (unat p + 5 + length s) data = oid @ r"
    using a(1) [of 4] a(1) [of "5 + length s"] pl by (simp_all add: add.assoc)
  let ?it2 = "(iter_enter it)\<lparr>iter_d1 := p, iter_d2 := p + 4, iter_d3 := p + 4 + l, iter_next_off := p + 4 + l + 12\<rparr>"
  have "unat (iter_len it - p - 4) = unat (iter_len it) - unat p - 4" "unat (iter_len it - 4) = unat (iter_len it) - 4"
    using a(6) len by (simp_all add: u32_sub)
  then have "\<not> iter_len it - 4 \<le> p" "\<not> iter_len it - p - 4 < l" "l \<noteq> 0"
    using a(6) len l by (auto simp: u32_le u32_less)
  then have fill: "iter_fill BSON_TYPE_DBPOINTER data (iter_len it) p ((iter_enter it)\<lparr>iter_d1 := p\<rparr>) = Inr (?it2, p, True)"
    using ld z by (simp add: iter_fill_def iter_fill_dbpointer_def Let_def)
  show ?thesis
  proof (rule readsI [OF at fill])
    fix it3 assume it3: "it3 = ?it2\<lparr>iter_err_off := 0\<rparr>" "ITER_TYPE it3 = Inr BSON_TYPE_DBPOINTER" "iter_raw it3 = Some data"
    have d: "load32 data (unat (iter_d1 it3)) = Inr l" "drop (unat (iter_d2 it3)) data = s @ 0 # oid @ r"
      "drop (unat (iter_d3 it3)) data = oid @ r"
      using it3(1) ld p4 dr d3 by simp_all
    have "0 < l" using l by (simp add: u32_less)
    with pointers_at_type(5) [OF it3(3) d(1) _ it3(2)] d l(2) pl(2,3)
    show "\<exists>z. bson_iter_value it3 = Inr (Some z) \<and> value_view z = V_DBPOINTER s n oid"
      by (simp add: memcpy_from_def)
  qed (simp add: nx [simplified])
qed


lemma reads_codewscope:
  assumes at: "at_elem it data p BSON_TYPE_CODEWSCOPE k payload r"
    and pl: "payload = le32 (4 + 4 + (n + 1) + dn) @ le32 (n + 1) @ s @ [0] @ d" "unat n = length s" "unat n < 2 ^ 30"
    and d: "unat dn = length d" "le32_at d 0 = dn" "5 \<le> unat dn" "unat dn < 2 ^ 31"
  shows "reads it data k (unat p + length payload) (V_CODEWSCOPE s n d dn)"
proof -
  note a = at_payload [OF at]
  define l where "l = n + 1"
  define tot where "tot = 4 + 4 + l + dn"
  have l: "unat l = length s + 1" "l - 1 = n" using pl by (simp_all add: l_def u32_add)
  have tot: "unat tot = 8 + (length s + 1) + length d" using l d pl by (simp add: tot_def u32_add)
  have len: "length payload = unat tot" using pl by (simp add: tot)
  have pay: "payload = le32 tot @ le32 l @ s @ [0] @ d" using pl(1) by (simp add: tot_def l_def)
  have p4: "unat (p + 4) = unat p + 4" "unat (p + 8) = unat p + 8" using a(6,8) len tot by (simp_all add: u32_add)
  have dr: "drop (unat p + 8) data = s @ 0 # d @ r" "drop (unat p + 9 + length s) data = d @ r"
    using a(1) [of 8] a(1) [of "9 + length s"] pay by (simp_all add: add.assoc)
  have ld: "load32 data (unat p) = Inr tot" "load32 data (unat p + 4) = Inr l"
    "load32 data (unat p + 9 + length s) = Inr dn"
    using a(9) a(2) [of 4] a(5) len tot d dr(2) by (simp_all add: pay load32_cases le32_at_def)
  have "unat p + unat tot < 2 ^ 32" using a(6,8) len by simp
  from u32_add [OF this] have nx: "unat (p + tot) = unat p + length payload" using len by simp
  have "p + 4 + 4 + l = p + 8 + l" by simp
  moreover have "unat (p + 8) + unat l < 2 ^ 32" using a(6,8) len tot l p4(2) by simp
  ultimately have d4: "unat (p + 4 + 4 + l) = unat p + 9 + length s"
    using u32_add [of "p + 8" l] p4(2) l(1) by (simp only:)
  have "unat (p + 4 + 4 + l) + unat (4 :: u32) < 2 ^ 32" unfolding d4 using a(6,8) len tot by simp
  from u32_add [OF this] have d5: "unat (p + 4 + 4 + l + 4) = unat p + 13 + length s" unfolding d4 by simp
  have eq: "p + 4 + 4 + l + dn = p + tot" by (simp add: tot_def)
  let ?it2 = "(iter_enter it)\<lparr>iter_d1 := p, iter_d2 := p + 4, iter_d3 := p + 8, iter_next_off := p + tot,
    iter_d4 := p + 4 + 4 + l\<rparr>"
  have sub: "unat (iter_len it - p) = unat (iter_len it) - unat p" "unat (iter_len it - 14) = unat (iter_len it) - 14"
    "unat (iter_len it - p - 4 - 4) = unat (iter_len it) - unat p - 8"
    using a(6) len tot d by (simp_all add: u32_sub)
  have g: "\<not> iter_len it < 19" "\<not> iter_len it - 14 \<le> p" "\<not> tot < 14" "\<not> iter_len it - p \<le> tot"
    "\<not> iter_len it \<le> p + tot" "l \<noteq> 0" "\<not> iter_len it - p - 4 - 4 \<le> l" "\<not> p + tot \<le> p + 4 + 4 + l + 4"
    using a(6) at_elem_facts(4) [OF at] at sub nx d5 len tot l d
    by (auto simp: u32_le u32_less at_elem_def)
  have "load32 data (unat (p + 4)) = Inr l" "load32 data (unat (p + 4 + 4 + l)) = Inr dn"
    using ld p4 d4 by simp_all
  with g ld(1) have "iter_fill_codewscope data (iter_len it) p ((iter_enter it)\<lparr>iter_d1 := p\<rparr>) = Inr (?it2, p, True)"
    by (simp add: iter_fill_codewscope_def Let_def eq [simplified])
  then have fill: "iter_fill BSON_TYPE_CODEWSCOPE data (iter_len it) p ((iter_enter it)\<lparr>iter_d1 := p\<rparr>) = Inr (?it2, p, True)"
    by (simp add: iter_fill_def)
  show ?thesis
  proof (rule readsI [OF at fill])
    fix it3 assume it3: "it3 = ?it2\<lparr>iter_err_off := 0\<rparr>" "ITER_TYPE it3 = Inr BSON_TYPE_CODEWSCOPE" "iter_raw it3 = Some data"
    have x: "load32 data (unat (iter_d2 it3)) = Inr l" "load32 data (unat (iter_d4 it3)) = Inr dn"
      "drop (unat (iter_d3 it3)) data = s @ 0 # d @ r" "drop (unat (iter_d4 it3)) data = d @ r"
      using it3(1) ld p4 dr d4 by simp_all
    have "0 < l" using l by (simp add: u32_less)
    with pointers_at_type(6) [OF it3(3) x(1) _ x(2) it3(2)] x l(2) pl(2) d(1)
    show "\<exists>z. bson_iter_value it3 = Inr (Some z) \<and> value_view z = V_CODEWSCOPE s n d dn" by simp
  qed (simp add: nx)
qed

text \<open>Every valid value that was encoded is decoded again.\<close>

lemma le32_at_take: "n \<ge> 4 \<Longrightarrow> le32_at (take n d) 0 = le32_at d 0"
  by (simp add: le32_at_def min_def)

lemma cstr_nz: "0 \<notin> set (cstr s)"
  by (auto simp: cstr_def dest: set_takeWhileD)

lemma cstr_id: "0 \<notin> set s \<Longrightarrow> cstr (s @ 0 # r) = s"
  by simp

lemma take_length_cstr: "take (length (cstr s)) s = cstr s"
  by (simp add: cstr_def takeWhile_eq_take [symmetric])

lemma of_nat_unat_len: "unat n = length s \<Longrightarrow> of_nat (length s) = (n :: u32)"
  using unat_u32_lt [of n] by (simp add: u32_eq unat_of_nat_u32)

lemma reads_value:
  assumes at: "at_elem it data p t k payload r" and v: "enc_value v = (t, payload)" "value_valid v"
  shows "reads it data k (unat p + length payload) (value_stored v)"
proof (cases v)
  case (V_UTF8 s n)
  with v show ?thesis using reads_string [OF at, of n "take (unat n) s"] by auto
next
  case (V_SYMBOL s n)
  with v show ?thesis using reads_string [OF at, of n "take (unat n) s"] by auto
next
  case (V_CODE s n)
  with v show ?thesis using reads_string [OF at, of n "cstr s"]
    by (auto simp: c_len1_def of_nat_unat_len take_length_cstr)
next
  case (V_DOCUMENT d n)
  with v show ?thesis using reads_document [OF at, of n] by (auto simp: doc_ok_def le32_at_take)
next
  case (V_ARRAY d n)
  with v show ?thesis using reads_document [OF at, of n] by (auto simp: doc_ok_def array_ok_def le32_at_take)
next
  case (V_BINARY st d n)
  let ?d = "take (unat n) d"
  have t: "t = BSON_TYPE_BINARY" and n: "unat n = length ?d" "unat n < 2 ^ 31" using v V_BINARY by auto
  have st: "value_stored v = V_BINARY st ?d n" using V_BINARY by simp
  show ?thesis
  proof (cases "st = BSON_SUBTYPE_BINARY_DEPRECATED")
    case True
    have "payload = le32 (n + 4) @ [st] @ le32 n @ ?d" using v V_BINARY True by auto
    moreover have "unat (n + 4) = length (le32 n @ ?d)" using n by (simp add: u32_add)
    ultimately show ?thesis
      unfolding st by (rule reads_binary [OF at [unfolded t]]) (use True n in simp_all)
  next
    case False
    have "payload = le32 n @ [st] @ ?d" using v V_BINARY False by auto
    then show ?thesis
      unfolding st by (rule reads_binary [OF at [unfolded t] _ n(1)]) (use False n in simp_all)
  qed
next
  case (V_REGEX re op)
  have t: "t = BSON_TYPE_REGEX" and pl: "payload = cstr re @ [0] @ sorted_options (cstr op) @ [0]"
    using v V_REGEX by auto
  have "0 \<notin> set (sorted_options (cstr op))"
    by (auto simp: sorted_options_def BSON_REGEX_OPTIONS_SORTED_def)
  from reads_regex [OF at [unfolded t] pl cstr_nz this] V_REGEX show ?thesis by simp
next
  case (V_DBPOINTER s n oid)
  have t: "t = BSON_TYPE_DBPOINTER" and pl: "payload = le32 (n + 1) @ cstr s @ [0] @ oid"
    and n: "unat n = length (cstr s)" "length oid = 12" "unat n < 2 ^ 31"
    using v V_DBPOINTER by (auto simp: c_len1_def of_nat_unat_len)
  from reads_dbpointer [OF at [unfolded t] pl n] V_DBPOINTER n(1) show ?thesis by (simp add: take_length_cstr)
next
  case (V_CODEWSCOPE s n d dn)
  let ?d = "take (unat dn) d"
  have ok: "doc_ok d dn" and n: "unat n = length (cstr s)" "unat n < 2 ^ 30" using v V_CODEWSCOPE by auto
  have t: "t = BSON_TYPE_CODEWSCOPE"
    and pl: "payload = le32 (4 + 4 + (n + 1) + dn) @ le32 (n + 1) @ cstr s @ [0] @ ?d"
    using v V_CODEWSCOPE n(1) by (auto simp: c_len1_def of_nat_unat_len)
  have d: "unat dn = length ?d" "le32_at ?d 0 = dn" "5 \<le> unat dn" "unat dn < 2 ^ 31"
    using ok by (simp_all add: doc_ok_def INT_MAX_def le32_at_take)
  from reads_codewscope [OF at [unfolded t] pl n d] V_CODEWSCOPE n(1) show ?thesis by (simp add: take_length_cstr)
qed (use v at reads_fixed [OF at v] reads_empty [OF at v(1)] in auto)


section \<open>A document as a list of fields\<close>

type_synonym field = "bytes \<times> bson_value_t"

definition enc_field :: "field \<Rightarrow> bytes" where
  "enc_field f = (case enc_value (snd f) of (t, payload) \<Rightarrow> elem t (fst f) payload)"

definition enc_fields :: "field list \<Rightarrow> bytes" where
  "enc_fields fs = concat (map enc_field fs)"

definition field_valid :: "field \<Rightarrow> bool" where
  "field_valid f \<longleftrightarrow> 0 \<notin> set (fst f) \<and> value_valid (snd f)"

definition field_stored :: "field \<Rightarrow> field" where
  "field_stored f = (fst f, value_stored (snd f))"

text \<open>The keys and values a loop over a document sees.\<close>

definition field_of :: "bson_iter_t \<Rightarrow> field c" where
  "field_of it =
     bindc (bson_iter_key it) (\<lambda>key. bindc (bson_iter_value it) (\<lambda>v.
       case v of None \<Rightarrow> Inl AssertFailed | Some x \<Rightarrow> Inr (cstr key, value_view x)))"

definition doc_fields :: "bson_t \<Rightarrow> bson_store \<Rightarrow> field list c option" where
  "doc_fields b st =
     (case bson_get_data b st of Inl e \<Rightarrow> Some (Inl e)
      | Inr data \<Rightarrow>
        (case bson_iter_init data (bson_len b) of (ok, it) \<Rightarrow>
           if \<not> ok then Some (Inr [])
           else iter_foreach (iter_fuel it) (\<lambda>it acc. bindc (field_of it) (\<lambda>f. Inr (acc @ [f]))) [] it))"

lemma foreach_fields:
  assumes "iter_raw it = Some data" and "data = x @ enc_fields fs @ 0 # r" and "list_all field_valid fs"
    and "unat (iter_next_off it) = length x" and "4 \<le> length x"
    and "unat (iter_len it) = length x + length (enc_fields fs) + 1" and "unat (iter_len it) \<le> INT_MAX"
    and "length fs < n"
    and step: "\<And>it' f acc. field_of it' = Inr f \<Longrightarrow> body it' acc = Inr (g f acc)"
  shows "iter_foreach n body acc it = Some (Inr (fold g (map field_stored fs) acc))"
  using assms(1-8)
proof (induction fs arbitrary: it x n acc)
  case Nil
  then obtain m where n: "n = Suc m" by (cases n) auto
  have "unat (iter_next_off it + 1) = unat (iter_len it)"
    using Nil.prems by (simp add: enc_fields_def u32_add INT_MAX_def)
  then have "scan_nul data (iter_next_off it + 1) (iter_len it) = Inr None"
    by (subst scan_nul.simps) (simp add: u32_less)
  with Nil.prems(1) have "\<exists>it'. bson_iter_next it = Inr (False, it')"
    by (simp add: bson_iter_next_def bson_iter_next_internal_def Let_def)
  then show ?case by (auto simp: n)
next
  case (Cons f fs)
  then obtain m where n: "n = Suc m" "length fs < m" by (cases n) auto
  obtain k v where f: "f = (k, v)" by fastforce
  obtain t payload where tp: "enc_value v = (t, payload)" by fastforce
  let ?p = "iter_next_off it + 1 + of_nat (length k) + 1"
  have enc: "enc_fields (f # fs) = elem t k payload @ enc_fields fs"
    by (simp add: enc_fields_def enc_field_def f tp)
  have at: "at_elem it data ?p t k payload (enc_fields fs @ 0 # r)"
    using Cons.prems by (auto simp: at_elem_def enc [unfolded f] f field_valid_def intro!: exI [of _ x])
  have "value_valid v" using Cons.prems(3) by (simp add: f field_valid_def)
  from reads_value [OF at tp this] obtain it' z where nx: "bson_iter_next it = Inr (True, it')"
    and raw: "iter_raw it' = Some data" and len: "iter_len it' = iter_len it"
    and off: "unat (iter_next_off it') = unat ?p + length payload"
    and key: "bindc (bson_iter_key it') (\<lambda>p. Inr (cstr p)) = Inr k"
    and z: "bson_iter_value it' = Inr (Some z)" "value_view z = value_stored v"
    by (auto simp: reads_def)
  have "field_of it' = Inr (field_stored f)"
    using key z by (auto simp: field_of_def field_stored_def f bindc_eq_Inr)
  then have st: "body it' acc = Inr (g (field_stored f) acc)" by (rule step)
  have "unat (iter_next_off it') = length (x @ elem t k payload)"
    using off at_elem_facts(4) [OF at] Cons.prems(4) by (simp add: elem_def)
  then have "iter_foreach m body (g (field_stored f) acc) it' =
      Some (Inr (fold g (map field_stored fs) (g (field_stored f) acc)))"
    by (intro Cons.IH [of it' "x @ elem t k payload"])
      (use Cons.prems raw len n(2) in \<open>auto simp: enc\<close>)
  then show ?case by (simp add: n(1) nx st)
qed

lemma length_enc_fields: "length fs \<le> length (enc_fields fs)"
  by (induction fs) (auto simp: enc_fields_def enc_field_def elem_def split: prod.splits)

lemma foreach_doc:
  assumes rep: "doc_rep b st (enc_fields fs)" and ok: "list_all field_valid fs"
    and step: "\<And>it' f acc. field_of it' = Inr f \<Longrightarrow> body it' acc = Inr (g f acc)"
  obtains data it where "bson_get_data b st = Inr data" and "bson_iter_init data (bson_len b) = (True, it)"
    and "iter_foreach (iter_fuel it) body acc it = Some (Inr (fold g (map field_stored fs) acc))"
proof -
  let ?n = "length (enc_fields fs) + 5" and ?data = "doc_ptr b st"
  have r: "unat (bson_len b) = ?n" "?n \<le> 2147483647" "doc_space b st ?n"
    "take ?n ?data = le32 (bson_len b) @ enc_fields fs @ [0]"
    using rep by (simp_all add: doc_rep_def)
  have d: "?data = le32 (bson_len b) @ enc_fields fs @ 0 # drop ?n ?data"
    using append_take_drop_id [of ?n ?data] r(4) by simp
  have init: "bson_iter_init ?data (bson_len b) = (True, iter_start ?data (bson_len b))"
    using r(1) by (simp add: bson_iter_init_def u32_less)
  have "iter_foreach (iter_fuel (iter_start ?data (bson_len b))) body acc (iter_start ?data (bson_len b)) =
      Some (Inr (fold g (map field_stored fs) acc))"
    by (rule foreach_fields [OF _ d ok])
      (use r length_enc_fields [of fs] step in \<open>auto simp: iter_start_def iter_fuel_def INT_MAX_def\<close>)
  with that doc_space_data(1) [OF r(3)] init show thesis by blast
qed

text \<open>Reading a document back gives its fields, in order.\<close>

lemma doc_fields_enc:
  assumes "doc_rep b st (enc_fields fs)" and "list_all field_valid fs"
  shows "doc_fields b st = Some (Inr (map field_stored fs))"
proof -
  have acc: "fold (\<lambda>f acc. acc @ [f]) xs a = a @ xs" for xs a :: "field list"
    by (induction xs arbitrary: a) auto
  show ?thesis
    by (rule foreach_doc [OF assms, where body = "\<lambda>it acc. bindc (field_of it) (\<lambda>f. Inr (acc @ [f]))"
        and g = "\<lambda>f acc. acc @ [f]" and acc = "[]"]) (auto simp: doc_fields_def acc)
qed

lemma append_field_list:
  assumes rep: "doc_rep b st (enc_fields fs)" and w: "doc_writable b" and key: "key_is key kl k" and v: "value_valid v"
  shows "wpc (bson_append_value b st key kl v) (\<lambda>(ok, b', st'). doc_writable b' \<and>
    doc_rep b' st' (enc_fields (if ok then fs @ [(k, v)] else fs)) \<and> doc_frame b st b' st' \<and>
    (ok \<or> \<not> doc_fits b (length (enc_field (k, v)))))"
proof -
  have "enc_fields (fs @ [(k, v)]) = enc_fields fs @ enc_field (k, v)"
    and "enc_field (k, v) = (case enc_value v of (t, payload) \<Rightarrow> elem t k payload)"
    by (simp_all add: enc_fields_def enc_field_def)
  with append_value_rep [OF rep w key v] w show ?thesis
    by (auto simp: appended_def doc_writable_def frame_flags elim!: wpc_mono)
qed

lemma init_rep: "doc_rep (bson_init fr) st (enc_fields [])"
  by (simp add: doc_rep_def doc_space_def doc_ptr_def bson_init_def is_inline_def enc_fields_def le32_def)

section \<open>The contract of a field builder\<close>

fun add_all :: "('d \<Rightarrow> field \<Rightarrow> (bool \<times> 'd) c) \<Rightarrow> 'd \<Rightarrow> field list \<Rightarrow> (bool \<times> 'd) c" where
  "add_all add d [] = Inr (True, d)"
| "add_all add d (f # fs) =
     bindc (add d f) (\<lambda>(ok, d). if ok then add_all add d fs else Inr (False, d))"

locale field_builder =
  fixes rep :: "'d \<Rightarrow> field list \<Rightarrow> bool"
    and empty :: "'e \<Rightarrow> 'd"
    and add :: "'d \<Rightarrow> field \<Rightarrow> (bool \<times> 'd) c"
    and fields :: "'d \<Rightarrow> field list c option"
    and accepts :: "field \<Rightarrow> bool"
    and fits :: "field list \<Rightarrow> bool"
    and norm :: "field \<Rightarrow> field"
  assumes rep_empty: "rep (empty e) []"
    and rep_add: "rep d fs \<Longrightarrow> accepts f \<Longrightarrow>
      wpc (add d f) (\<lambda>(ok, d'). rep d' (if ok then fs @ [f] else fs) \<and> (ok \<or> \<not> fits (fs @ [f])))"
    and fits_prefix: "fits (fs @ gs) \<Longrightarrow> fits fs"
    and rep_fields: "rep d fs \<Longrightarrow> fields d = Some (Inr (map norm fs))"
begin

text \<open>Adding fields one by one: all of them, or a prefix when they do not fit.\<close>

lemma add_all_rep:
  "rep d fs \<Longrightarrow> list_all accepts gs \<Longrightarrow>
   wpc (add_all add d gs) (\<lambda>(ok, d'). if ok then rep d' (fs @ gs)
     else \<not> fits (fs @ gs) \<and> (\<exists>n. rep d' (fs @ take n gs)))"
proof (induction gs arbitrary: d fs)
  case (Cons g gs)
  from rep_add [OF Cons.prems(1), of g] Cons.prems(2)
  obtain ok d1 where a: "add d g = Inr (ok, d1)" "rep d1 (if ok then fs @ [g] else fs)" "ok \<or> \<not> fits (fs @ [g])"
    by (auto simp: wpc_iff)
  show ?case
  proof (cases ok)
    case True
    then have r: "rep d1 (fs @ [g])" and all: "list_all accepts gs" using a(2) Cons.prems(2) by simp_all
    have sub: "\<exists>n. rep d' (fs @ take n (g # gs))" if "rep d' ((fs @ [g]) @ take n gs)" for d' n
      using that by (intro exI [of _ "Suc n"]) simp
    have "wpc (add_all add d1 gs) (\<lambda>(ok, d'). if ok then rep d' (fs @ g # gs)
        else \<not> fits (fs @ g # gs) \<and> (\<exists>n. rep d' (fs @ take n (g # gs))))"
      by (rule wpc_mono [OF Cons.IH [OF r all]]) (use sub in \<open>fastforce split: if_splits\<close>)
    then show ?thesis using a(1) True by simp
  next
    case False
    then have "\<not> fits (fs @ g # gs)" using a(3) fits_prefix [of "fs @ [g]" gs] by auto
    with False a show ?thesis by (auto intro!: exI [of _ 0])
  qed
qed auto

text \<open>Building a document and reading it back.\<close>

lemma build_read:
  assumes "list_all accepts gs" and "fits gs"
  shows "wpc (add_all add (empty e) gs) (\<lambda>(ok, d). ok \<and> fields d = Some (Inr (map norm gs)))"
  by (rule wpc_mono [OF add_all_rep [OF rep_empty assms(1)]])
    (use assms(2) in \<open>auto dest: rep_fields split: if_splits\<close>)

end

definition doc_rep_fields :: "bson_t \<times> bson_store \<Rightarrow> field list \<Rightarrow> bool" where
  "doc_rep_fields d fs \<longleftrightarrow>
     doc_rep (fst d) (snd d) (enc_fields fs) \<and> doc_writable (fst d) \<and> list_all field_valid fs \<and>
     (is_inline (fst d) \<or> bson_realloc_fn (fst d) \<and> bson_offset (fst d) = 0 \<and> bson_depth (fst d) = 0)"

definition doc_empty :: "fresh \<times> bson_store \<Rightarrow> bson_t \<times> bson_store" where
  "doc_empty e = (bson_init (fst e), snd e)"

definition doc_add :: "bson_t \<times> bson_store \<Rightarrow> field \<Rightarrow> (bool \<times> bson_t \<times> bson_store) c" where
  "doc_add d f = bson_append_value (fst d) (snd d) (fst f @ [0]) (- 1) (snd f)"

definition doc_accepts :: "field \<Rightarrow> bool" where
  "doc_accepts f \<longleftrightarrow> field_valid f \<and> length (fst f) < 2 ^ 29"

definition doc_list_fits :: "field list \<Rightarrow> bool" where
  "doc_list_fits fs \<longleftrightarrow> length (enc_fields fs) + 5 \<le> 2 ^ 30"

lemma init_writable: "doc_writable (bson_init fr)"
  by (simp add: doc_writable_def bson_init_def)

interpretation doc: field_builder doc_rep_fields doc_empty doc_add "\<lambda>d. doc_fields (fst d) (snd d)" doc_accepts doc_list_fits field_stored
proof
  fix e show "doc_rep_fields (doc_empty e) []"
    by (simp add: doc_rep_fields_def doc_empty_def init_rep init_writable) (simp add: bson_init_def is_inline_def)
next
  fix d fs f assume d: "doc_rep_fields d fs" and f: "doc_accepts f"
  have key: "key_is (fst f @ [0]) (- 1) (fst f)"
    using f by (intro key_is_cstr) (auto simp: doc_accepts_def field_valid_def)
  have rep: "doc_rep (fst d) (snd d) (enc_fields fs)" "doc_writable (fst d)" "value_valid (snd f)"
    using d f by (auto simp: doc_rep_fields_def doc_accepts_def field_valid_def)
  have fit: "doc_fits (fst d) (length (enc_field f))" if "doc_list_fits (fs @ [f])"
    using that d by (auto simp: doc_fits_def doc_list_fits_def doc_rep_fields_def doc_rep_def enc_fields_def)
  show "wpc (doc_add d f) (\<lambda>(ok, d'). doc_rep_fields d' (if ok then fs @ [f] else fs) \<and> (ok \<or> \<not> doc_list_fits (fs @ [f])))"
    unfolding doc_add_def
    by (rule wpc_mono [OF append_field_list [OF rep(1,2) key rep(3)]])
      (use d f fit in \<open>auto simp: doc_rep_fields_def doc_accepts_def doc_frame_def\<close>)
next
  fix fs gs assume "doc_list_fits (fs @ gs)"
  then show "doc_list_fits fs" by (simp add: doc_list_fits_def enc_fields_def)
next
  fix d fs assume "doc_rep_fields d fs"
  then show "doc_fields (fst d) (snd d) = Some (Inr (map field_stored fs))"
    by (simp add: doc_rep_fields_def doc_fields_enc)
qed

section \<open>Sub-documents\<close>

text \<open>Closing a child adds one field whose value is the child's bytes.\<close>

lemma end_field:
  assumes op: "doc_open b st (enc_fields fs @ [BSON_TYPE_DOCUMENT] @ k @ [0]) child"
    and rep: "doc_rep child st cbody" and c: "BSON_FLAG_IN_CHILD \<notin> bson_flags child"
  shows "wpc (bson_append_document_end b st child) (\<lambda>(ok, b', st'). ok \<and> doc_rep b' st'
    (enc_fields (fs @ [(k, V_DOCUMENT (le32 (bson_len child) @ cbody @ [0]) (bson_len child))])))"
proof -
  have "unat (bson_len child) = length (le32 (bson_len child) @ cbody @ [0])"
    using rep by (simp add: doc_rep_def)
  then have "enc_fields (fs @ [(k, V_DOCUMENT (le32 (bson_len child) @ cbody @ [0]) (bson_len child))]) =
      (enc_fields fs @ [BSON_TYPE_DOCUMENT] @ k @ [0]) @ le32 (bson_len child) @ cbody @ [0]"
    by (simp add: enc_fields_def enc_field_def elem_def)
  then show ?thesis
    using bson_end_rep [OF op rep c] by (auto simp: bson_append_document_end_def elim!: wpc_mono)
qed

section \<open>Counting, comparing, concatenating\<close>

lemma count_keys_fields:
  assumes "doc_rep b st (enc_fields fs)" and "list_all field_valid fs"
  shows "bson_count_keys b st = Some (Inr (of_nat (length fs)))"
proof -
  have cnt: "fold (\<lambda>_ n. n + 1) xs a = a + of_nat (length xs)" for xs :: "field list" and a :: u32
    by (induction xs arbitrary: a) (simp_all add: ac_simps)
  show ?thesis
    by (rule foreach_doc [OF assms, where body = "\<lambda>_ n. Inr (n + 1)" and g = "\<lambda>_ n. n + 1" and acc = "0 :: u32"])
      (auto simp: bson_count_keys_def cnt)
qed

lemma memcmp_eq: "length a = length b \<Longrightarrow> n = length a \<Longrightarrow> \<exists>r. c_memcmp (a @ x) (b @ y) n = Inr r \<and> (r = 0 \<longleftrightarrow> a = b)"
proof (induction a arbitrary: b n)
  case (Cons p a)
  then show ?case by (cases b) (auto simp: neq_iff)
qed simp

lemma doc_rep_data:
  assumes "doc_rep b st body"
  obtains r where "bson_get_data b st = Inr (le32 (bson_len b) @ body @ 0 # r)" and "unat (bson_len b) = length body + 5"
proof -
  have r: "unat (bson_len b) = length body + 5" "doc_space b st (length body + 5)"
    "take (length body + 5) (doc_ptr b st) = le32 (bson_len b) @ body @ [0]"
    using assms by (simp_all add: doc_rep_def)
  have "doc_ptr b st = le32 (bson_len b) @ body @ 0 # drop (length body + 5) (doc_ptr b st)"
    using append_take_drop_id [of "length body + 5" "doc_ptr b st"] r(3) by simp
  with that doc_space_data(1) [OF r(2)] r(1) show thesis by metis
qed

lemma memcmp_total: "n \<le> length a \<Longrightarrow> n \<le> length b \<Longrightarrow> \<exists>r. c_memcmp a b n = Inr r"
proof (induction a b n rule: c_memcmp.induct)
  case (2 x a y b n)
  then show ?case by (cases "x = y") auto
qed auto

lemma equal_iff:
  assumes r1: "doc_rep b st body" and r2: "doc_rep b2 st body2"
  shows "bson_equal b b2 st = Inr (body = body2)"
proof -
  obtain x where d1: "bson_get_data b st = Inr (le32 (bson_len b) @ body @ 0 # x)" and l1: "unat (bson_len b) = length body + 5"
    using doc_rep_data [OF r1] .
  obtain y where d2: "bson_get_data b2 st = Inr (le32 (bson_len b2) @ body2 @ 0 # y)" and l2: "unat (bson_len b2) = length body2 + 5"
    using doc_rep_data [OF r2] .
  have n: "unat (bson_len b - 4) = length (body @ [0])" "unat (bson_len b2 - 4) = length (body2 @ [0])"
    using l1 l2 by (simp_all add: u32_sub)
  have iff: "bson_len b - 4 = bson_len b2 - 4 \<longleftrightarrow> length body = length body2" using n by (simp add: u32_eq)
  show ?thesis
  proof (cases "length body = length body2")
    case True
    with memcmp_eq [of "body @ [0]" "body2 @ [0]" "unat (bson_len b - 4)" x y] n(1) iff d1 d2 show ?thesis
      by (auto simp: bson_equal_def bson_compare_def Let_def)
  next
    case False
    let ?m = "unat (min (bson_len b - 4) (bson_len b2 - 4))"
    have "?m \<le> length (body @ 0 # x)" "?m \<le> length (body2 @ 0 # y)" using n by (auto simp: min_def u32_le)
    then obtain r where r: "c_memcmp (body @ 0 # x) (body2 @ 0 # y) ?m = Inr r" using memcmp_total by blast
    have "(ucast (bson_len b - 4) :: u64) \<noteq> ucast (bson_len b2 - 4)" using iff False by (metis down_up)
    then have "(ucast (bson_len b - 4) - ucast (bson_len b2 - 4) :: u64) \<noteq> 0" by (simp only: right_minus_eq) simp
    then have "sint (ucast (bson_len b - 4) - ucast (bson_len b2 - 4) :: u64) \<noteq> 0" by (simp only: signed_eq_0_iff) simp
    with False iff r d1 d2 show ?thesis
      by (auto simp: bson_equal_def bson_compare_def Let_def)
  qed
qed

lemma enc_nz: "fs \<noteq> [] \<Longrightarrow> \<exists>t p. enc_fields fs = t # p \<and> t \<noteq> 0"
proof (cases fs)
  case (Cons f gs)
  then show ?thesis by (cases "snd f") (auto simp: enc_fields_def enc_field_def elem_def)
qed simp

lemma concat_rep:
  assumes rep: "doc_rep dst st fd" and w: "doc_writable dst" and src: "doc_rep src st (enc_fields fs)"
  shows "wpc (bson_concat dst st src) (appended fd dst st (enc_fields fs))"
proof -
  obtain x where d: "bson_get_data src st = Inr (le32 (bson_len src) @ enc_fields fs @ 0 # x)"
    and l: "unat (bson_len src) = length (enc_fields fs) + 5"
    using doc_rep_data [OF src] .
  show ?thesis
  proof (cases "fs = []")
    case True
    then have "bson_len src = 5" using l by (simp add: u32_eq enc_fields_def)
    with True rep show ?thesis by (simp add: bson_concat_def bson_empty_def appended_def enc_fields_def)
  next
    case False
    from enc_nz [OF False] obtain t p where tp: "enc_fields fs = t # p" "t \<noteq> 0" by blast
    then have "bson_len src \<noteq> 5" using l by (auto simp: u32_eq)
    then have ne: "bson_empty src st = Inr False"
      using d tp by (simp add: bson_empty_def load8_def nth_append)
    let ?n = "bson_len src - 5" and ?ps = "[(bson_len src - 5, enc_fields fs @ 0 # x)]"
    have n: "unat ?n = length (enc_fields fs)" using l by (simp add: u32_sub)
    have "?n \<noteq> 0" using n tp by auto
    then have "wpc (bson_append dst st ?n ?ps) (append_post fd dst st (pairs_bytes ?ps))"
      by (intro bson_append_rep [OF rep]) (use w n in \<open>simp_all add: doc_writable_def\<close>)
    then show ?thesis
      using append_post_appended [OF rep] d ne n by (simp add: bson_concat_def)
  qed
qed

section \<open>Properties\<close>

definition zero_store :: bson_store where
  "zero_store = \<lparr>st_cells = \<lambda>_. \<lparr>cell_mem = None, cell_buflen = 0\<rparr>, st_next = 0, st_fresh = \<lambda>_ _. 0xAA\<rparr>"

text \<open>
  C34. Build and read back: appending any list of valid fields whose encoding fits to a
  fresh document succeeds, and a loop over the document with \<^verbatim>\<open>bson_iter_next\<close>,
  \<^verbatim>\<open>bson_iter_key\<close> and \<^verbatim>\<open>bson_iter_value\<close> then terminates without a fault and sees exactly
  those keys and values in that order, for all 21 value types, whether the bytes are
  inline or were moved to a growing buffer, and whatever unspecified contents fresh memory has.
\<close>

theorem build_then_read:
  assumes "list_all doc_accepts fs" and "doc_list_fits fs"
  shows "wpc (add_all doc_add (doc_empty (fr, st)) fs)
    (\<lambda>(ok, b, st'). ok \<and> doc_fields b st' = Some (Inr (map field_stored fs)))"
  using doc.build_read [OF assms, of "(fr, st)"] by (auto elim!: wpc_mono)

definition sample_fields :: "field list" where
  "sample_fields = [([0x61], V_INT32 7), ([0x62], V_UTF8 [0x68, 0x69, 0] 2), ([0x63], V_BINARY 2 [1, 2, 3] 3)]"

theorem build_then_read_witness:
  "wpc (add_all doc_add (doc_empty (\<lambda>_. 0xAA, zero_store)) sample_fields)
    (\<lambda>(ok, b, st'). ok \<and> doc_fields b st' = Some (Inr (map field_stored sample_fields)))"
proof (rule build_then_read)
  show "list_all doc_accepts sample_fields"
    by (simp add: sample_fields_def doc_accepts_def field_valid_def)
  show "doc_list_fits sample_fields"
    by (simp add: sample_fields_def doc_list_fits_def enc_fields_def enc_field_def elem_def)
qed

text \<open>
  C36. Appending a value refines adding a field: on any writable document that represents
  the fields \<open>fs\<close>, \<^verbatim>\<open>bson_append_value\<close> with a valid value is memory safe; on success the
  document represents the fields with the new one at the end, on failure the same
  fields, and it fails only when the document would outgrow its buffer limit. Other
  documents' buffers and the enclosing document's bytes are unchanged.
\<close>

theorem append_value_refines:
  assumes "doc_rep b st (enc_fields fs)" and "doc_writable b" and "key_is key kl k" and "value_valid v"
  shows "wpc (bson_append_value b st key kl v) (\<lambda>(ok, b', st').
    doc_rep b' st' (enc_fields (if ok then fs @ [(k, v)] else fs)) \<and> doc_writable b' \<and> doc_frame b st b' st' \<and>
    (doc_fits b (length (enc_field (k, v))) \<longrightarrow> ok))"
  by (rule wpc_mono [OF append_field_list [OF assms]]) auto

theorem append_value_refines_witness:
  "wpc (bson_append_value (bson_init (\<lambda>_. 0)) zero_store [0x6B, 0] (- 1) (V_BOOL True)) (\<lambda>(ok, b', st').
    doc_rep b' st' (enc_fields (if ok then [] @ [([0x6B], V_BOOL True)] else [])) \<and> doc_writable b' \<and>
    doc_frame (bson_init (\<lambda>_. 0)) zero_store b' st' \<and>
    (doc_fits (bson_init (\<lambda>_. 0)) (length (enc_field ([0x6B], V_BOOL True))) \<longrightarrow> ok))"
  by (rule append_value_refines [OF init_rep init_writable])
    (use key_is_cstr [of "[0x6B]" "[]"] in simp_all)

text \<open>
  C37. Nested documents: after \<^verbatim>\<open>bson_append_document_begin\<close> the child is an empty document
  inside the parent's buffer; whatever is then built in the child, \<^verbatim>\<open>bson_append_document_end\<close>
  leaves the parent with its old fields and one more, whose value is the child's bytes.
\<close>

theorem begin_build_end:
  assumes "doc_rep b st (enc_fields fs)" and "doc_writable b" and "key_is key kl k"
    and "BSON_FLAG_CHILD \<notin> bson_flags b \<Longrightarrow> \<not> is_inline b \<Longrightarrow> bson_depth b = 0"
  shows "wpc (bson_append_document_begin b st key kl) (\<lambda>(ok, b1, st1, child).
    if ok then \<exists>c. child = Some c \<and> doc_rep c st1 (enc_fields []) \<and> doc_writable c \<and>
      (\<forall>c2 st2 cbody. doc_frame c st1 c2 st2 \<and> doc_rep c2 st2 cbody \<longrightarrow>
        wpc (bson_append_document_end b1 st2 c2) (\<lambda>(ok, b3, st3). ok \<and> doc_rep b3 st3 (enc_fields
          (fs @ [(k, V_DOCUMENT (le32 (bson_len c2) @ cbody @ [0]) (bson_len c2))]))))
    else doc_rep b1 st1 (enc_fields fs))"
proof -
  obtain n where n: "key_len key kl = Inr n" "unat n \<le> length key" "unat n < 2 ^ 31" "take (unat n) key = k"
    using assms(3) by (auto simp: key_is_def)
  have fl: "BSON_FLAG_IN_CHILD \<notin> bson_flags b" "BSON_FLAG_RDONLY \<notin> bson_flags b"
    using assms(2) by (simp_all add: doc_writable_def)
  have close: "wpc (bson_append_document_end b1 st2 c2) (\<lambda>(ok, b3, st3). ok \<and> doc_rep b3 st3 (enc_fields
          (fs @ [(k, V_DOCUMENT (le32 (bson_len c2) @ cbody @ [0]) (bson_len c2))])))"
    if "doc_open b1 st1 (enc_fields fs @ [BSON_TYPE_DOCUMENT] @ k @ [0]) c"
      "bson_flags c = {BSON_FLAG_CHILD, BSON_FLAG_NO_FREE, BSON_FLAG_STATIC}"
      "doc_frame c st1 c2 st2" "doc_rep c2 st2 cbody" for b1 st1 c c2 st2 cbody
    using that end_field [OF open_child_frame [OF that(1,3)] that(4)] frame_flags [OF that(3)] by auto
  show ?thesis
    unfolding bson_append_document_begin_def
    by (rule wpc_mono [OF bson_begin_rep [OF assms(1) fl assms(4) disjI1 [OF refl] n(1-3)]])
      (use close n(4) in \<open>auto simp: enc_fields_def doc_writable_def split: if_splits\<close>)
qed

theorem begin_build_end_witness:
  "wpc (bson_append_document_begin (bson_init (\<lambda>_. 0)) zero_store [0x6B, 0] (- 1)) (\<lambda>(ok, b1, st1, child).
    if ok then \<exists>c. child = Some c \<and> doc_rep c st1 (enc_fields []) \<and> doc_writable c \<and>
      (\<forall>c2 st2 cbody. doc_frame c st1 c2 st2 \<and> doc_rep c2 st2 cbody \<longrightarrow>
        wpc (bson_append_document_end b1 st2 c2) (\<lambda>(ok, b3, st3). ok \<and> doc_rep b3 st3 (enc_fields
          ([] @ [([0x6B], V_DOCUMENT (le32 (bson_len c2) @ cbody @ [0]) (bson_len c2))]))))
    else doc_rep b1 st1 (enc_fields []))"
  by (rule begin_build_end [OF init_rep init_writable])
    (use key_is_cstr [of "[0x6B]" "[]"] in \<open>simp_all add: bson_init_def is_inline_def\<close>)

text \<open>
  \<^verbatim>\<open>bson_concat\<close> appends the fields of one document to another, without a fault.
\<close>

theorem concat_fields:
  assumes "doc_rep dst st (enc_fields fs)" and "doc_writable dst" and "doc_rep src st (enc_fields gs)"
  shows "wpc (bson_concat dst st src) (\<lambda>(ok, b', st').
    doc_rep b' st' (enc_fields (if ok then fs @ gs else fs)) \<and>
    (doc_fits dst (length (enc_fields gs)) \<longrightarrow> ok))"
proof -
  have "enc_fields (fs @ gs) = enc_fields fs @ enc_fields gs" by (simp add: enc_fields_def)
  with concat_rep [OF assms] show ?thesis by (auto simp: appended_def elim!: wpc_mono)
qed

theorem concat_fields_witness:
  "wpc (bson_concat (bson_init (\<lambda>_. 0)) zero_store (bson_init (\<lambda>_. 1))) (\<lambda>(ok, b', st').
    doc_rep b' st' (enc_fields (if ok then [] @ [] else [])) \<and>
    (doc_fits (bson_init (\<lambda>_. 0)) (length (enc_fields [])) \<longrightarrow> ok))"
  by (rule concat_fields [OF init_rep init_writable init_rep])

text \<open>
  C39. \<^verbatim>\<open>bson_equal\<close> decides equality of the element bytes, whatever the layouts of the two
  documents and whatever follows them in their buffers.
\<close>

theorem equal_decides:
  assumes "doc_rep b st body" and "doc_rep other st body'"
  shows "bson_equal b other st = Inr (body = body')"
  by (rule equal_iff [OF assms])

theorem equal_decides_witness:
  "bson_equal (bson_init (\<lambda>_. 0)) (bson_init (\<lambda>_. 1)) zero_store = Inr True"
  using equal_decides [OF init_rep init_rep] by (simp add: enc_fields_def)

text \<open>
  \<^verbatim>\<open>bson_count_keys\<close> terminates and returns the number of fields.
\<close>

theorem count_keys_correct:
  assumes "doc_rep b st (enc_fields fs)" and "list_all field_valid fs"
  shows "bson_count_keys b st = Some (Inr (of_nat (length fs)))"
  by (rule count_keys_fields [OF assms])

theorem count_keys_correct_witness:
  "bson_count_keys (bson_init (\<lambda>_. 0)) zero_store = Some (Inr 0)"
  using count_keys_correct [OF init_rep] by simp

lemma append_pairs_append:
  "append_pairs b st buf (ps @ qs) = bindc (append_pairs b st buf ps) (\<lambda>(buf, b, st). append_pairs b st buf qs)"
  by (induction b st buf ps rule: append_pairs.induct) (auto simp: bindc_assoc split: prod.splits intro!: arg_cong2 [where f = bindc])



text \<open>
  A defect of \<^verbatim>\<open>bson_append_regex\<close>: a \<^verbatim>\<open>NULL\<close> pattern is measured with \<^verbatim>\<open>strlen\<close> before the
  test that would replace it by the empty string, so it faults for every document and key.
\<close>

theorem append_regex_null_faults:
  assumes "key_is key kl k"
  shows "bson_append_regex b st key kl None options = Inl OutOfBounds"
  using assms by (auto simp: bson_append_regex_def bson_append_regex_w_len_def key_is_def deref_def)

theorem append_regex_null_faults_witness:
  "bson_append_regex (bson_init (\<lambda>_. 0)) zero_store [0x6B, 0] (- 1) None None = Inl OutOfBounds"
  by (rule append_regex_null_faults [of _ _ "[0x6B]"]) (use key_is_cstr [of "[0x6B]" "[]"] in simp)

text \<open>
  A defect of \<^verbatim>\<open>bson_new_from_buffer\<close>: the length stored in the buffer is not compared
  with the size of the buffer, so a buffer of valid size whose stored length is larger
  than the memory makes the function read outside it.
\<close>

theorem new_from_buffer_overread:
  assumes "st_cells st i = \<lparr>cell_mem = Some m, cell_buflen = of_nat (length m)\<rparr>"
    and "5 \<le> length m" and "length m \<le> 2147483647" and "length m < unat (le32_at m 0)"
  shows "bson_new_from_buffer st i = Inl OutOfBounds"
proof -
  have "unat (of_nat (length m) :: u64) = length m" using assms(3) by (simp add: unat_of_nat)
  then have "\<not> (of_nat (length m) :: u64) < 5" "\<not> of_nat INT_MAX < (of_nat (length m) :: u64)"
    using assms(2,3) by (simp_all add: word_less_nat_alt INT_MAX_def)
  moreover have "\<not> unat (le32_at m 0 - 1) < length m" using assms(4) by (simp add: u32_sub)
  ultimately show ?thesis
    using assms(1,2) by (simp add: bson_new_from_buffer_def load32_cases load8_def)
qed

definition lying_store :: bson_store where
  "lying_store = zero_store\<lparr>st_cells := \<lambda>_. \<lparr>cell_mem = Some [9, 0, 0, 0, 0], cell_buflen = 5\<rparr>\<rparr>"

theorem new_from_buffer_overread_witness: "bson_new_from_buffer lying_store 0 = Inl OutOfBounds"
proof -
  have "le32_at [9, 0, 0, 0, 0] 0 = 9" by code_simp
  then show ?thesis
    using new_from_buffer_overread [of lying_store 0 "[9, 0, 0, 0, 0]"] by (simp add: lying_store_def)
qed

end
