(* ===== verification/Chain_Types.thy ===== *)
theory Chain_Types
  imports Prelude
begin

text \<open>
  The data of the chain: names, hashes, transactions, builders, block headers and blocks,
  as \<^verbatim>\<open>gentypes.hpp\<close>, \<^verbatim>\<open>builder_rule.hpp\<close> and \<^verbatim>\<open>block.hpp\<close> declare them, and the small
  functions of \<^verbatim>\<open>chain_utils\<close> and \<^verbatim>\<open>chain_time\<close> on block identifiers, slots and time. The hash function and the
  signatures are those of a cryptographic library; they are the fields of
  \<open>crypto\<close>, an argument of the functions that use them.
\<close>

unbundle bit_operations_syntax

section \<open>Names, hashes and keys\<close>

text \<open>\<^verbatim>\<open>Basetypes::name\<close> is a 128-bit code; a \<^verbatim>\<open>sha256\<close> is four 64-bit words \<^verbatim>\<open>_hash[0..3]\<close>.\<close>

type_synonym u128 = "128 word"
type_synonym account_name = u128
type_synonym authority_name = u128
type_synonym func_name = u128

datatype sha256 = Sha256 (hash0: u64) (hash1: u64) (hash2: u64) (hash3: u64)

definition empty_sha256 :: sha256 where
  "empty_sha256 = Sha256 0 0 0 0"

text \<open>The comparison \<^verbatim>\<open>memcmp\<close> on the memory of two hashes, the words stored little-endian.\<close>

definition sha256_bytes :: "sha256 \<Rightarrow> bytes" where
  "sha256_bytes h = le64 (hash0 h) @ le64 (hash1 h) @ le64 (hash2 h) @ le64 (hash3 h)"

fun bytes_less :: "bytes \<Rightarrow> bytes \<Rightarrow> bool" where
  "bytes_less (x # xs) (y # ys) = (x < y \<or> x = y \<and> bytes_less xs ys)"
| "bytes_less _ _ = False"

definition sha256_less :: "sha256 \<Rightarrow> sha256 \<Rightarrow> bool" where
  "sha256_less a b = bytes_less (sha256_bytes a) (sha256_bytes b)"

type_synonym public_key = bytes
type_synonym private_key = bytes
type_synonym signature = bytes

definition empty_public_key :: public_key where
  "empty_public_key = replicate 33 0"

section \<open>Transactions\<close>

record account_auth =
  auth_account :: account_name
  auth_authority :: authority_name

record message =
  msg_code :: account_name
  msg_type :: func_name
  msg_authorization :: "account_auth list"
  msg_data :: bytes

record transaction =
  ref_block_num :: u16
  ref_block_prefix :: u32
  expiration :: u64
  trx_scope :: "account_name list"
  trx_read_scope :: "account_name list"
  messages :: "message list"
  gas_payer :: account_name
  trx_gas :: u64
  gaslimit :: u64

record signed_transaction = transaction +
  signatures :: "signature list"

datatype package_code = PackageEmpty | PackageOriginal | PackageZlib

record transaction_package =
  pkg_code :: package_code
  pkg_body :: signed_transaction

datatype receipt_result = ReceiptApplied | ReceiptFailure

datatype trx_variant = TrxId sha256 | TrxPackage transaction_package

record transaction_receipt =
  receipt_idx :: u64
  receipt_result :: receipt_result
  receipt_trx :: trx_variant

section \<open>Builders and blocks\<close>

record builder_info =
  builder_name :: account_name
  block_signing_key :: public_key

record builder_rule =
  rule_version :: u32
  rule_builders :: "builder_info list"

definition empty_rule :: builder_rule where
  "empty_rule = \<lparr>rule_version = 0, rule_builders = []\<rparr>"

definition set_builders :: "builder_info list \<Rightarrow> u32 \<Rightarrow> builder_rule \<Rightarrow> builder_rule" where
  "set_builders lst vers r = r\<lparr>rule_builders := lst, rule_version := vers\<rparr>"

definition rule_number :: "builder_rule \<Rightarrow> nat" where
  "rule_number r = length (rule_builders r)"

definition rule_is_empty :: "builder_rule \<Rightarrow> bool" where
  "rule_is_empty r \<longleftrightarrow> length (rule_builders r) \<le> 0"

fun find_key :: "builder_info list \<Rightarrow> account_name \<Rightarrow> public_key" where
  "find_key [] n = empty_public_key"
| "find_key (b # bs) n = (if builder_name b = n then block_signing_key b else find_key bs n)"

definition get_sign_key :: "builder_rule \<Rightarrow> account_name \<Rightarrow> public_key" where
  "get_sign_key r n = find_key (rule_builders r) n"

record block_header =
  previous :: sha256
  timestamp :: u32
  trxs_mroot :: sha256
  builder :: account_name
  next_builders :: "builder_rule option"

record signed_block_header = block_header +
  builder_signature :: signature

record signed_block = signed_block_header +
  receipts :: "transaction_receipt list"

record block_confirmation =
  conf_block_id :: sha256
  conf_verifier :: account_name
  conf_signature :: signature

text \<open>
  \<open>cr_header\<close>, \<open>cr_confirmation\<close>, \<open>cr_receipt\<close> and \<open>cr_transaction\<close> hash the packed structures, \<open>cr_pair\<close> a pair of
  hashes; \<open>cr_recover\<close> gives the key that made a signature of a digest (\<open>None\<close>: the constructor throws),
  \<open>cr_sign\<close> signs.
\<close>

record crypto =
  cr_header :: "block_header \<Rightarrow> sha256"
  cr_confirmation :: "sha256 \<times> account_name \<Rightarrow> sha256"
  cr_receipt :: "transaction_receipt \<Rightarrow> sha256"
  cr_transaction :: "transaction \<Rightarrow> sha256"
  cr_pair :: "sha256 \<times> sha256 \<Rightarrow> sha256"
  cr_recover :: "signature \<Rightarrow> sha256 \<Rightarrow> public_key option"
  cr_sign :: "private_key \<Rightarrow> sha256 \<Rightarrow> signature"

text \<open>Exceptions thrown by the chain; \<open>Undefined\<close> is a division by zero or a null dereference, \<open>NoReturn\<close> a loop that does not end.\<close>

datatype chain_exc = FcAssert | BlockAttack | BlockValidate | ConfirmationValidate | TransactionExc | TxDuplicate
  | BadSignature | OutOfRange | DbExc | Undefined | NoReturn

section \<open>chain\_utils: identifiers and slots\<close>

definition endian_reverse_u32 :: "u32 \<Rightarrow> u32" where
  "endian_reverse_u32 x =
     (drop_bit 0x18 x AND 0xFF) OR push_bit 0x08 (drop_bit 0x10 x AND 0xFF)
       OR push_bit 0x10 (drop_bit 0x08 x AND 0xFF) OR push_bit 0x18 (x AND 0xFF)"

definition num_from_id :: "sha256 \<Rightarrow> u32" where
  "num_from_id h = endian_reverse_u32 (ucast (hash0 h))"

definition block_id :: "sha256 \<Rightarrow> u32 \<Rightarrow> sha256" where
  "block_id summary num =
     Sha256 ((hash0 summary AND 0xffffffff00000000) + ucast (endian_reverse_u32 num))
       (hash1 summary) (hash2 summary) (hash3 summary)"

definition get_delta_slot_time :: "u32 \<Rightarrow> u32 \<Rightarrow> u32" where
  "get_delta_slot_time begin_time delta_slot = begin_time + delta_slot"

definition get_delta_slot_at_time :: "u32 \<Rightarrow> u32 \<Rightarrow> u32" where
  "get_delta_slot_at_time begin_time when =
     (let first_slot_time = get_delta_slot_time begin_time 1
      in if when < first_slot_time then 0 else when - first_slot_time + 1)"

abbreviation (input) blocks_per_builder :: u32 where "blocks_per_builder \<equiv> 1"
abbreviation (input) blocks_per_round :: u32 where "blocks_per_round \<equiv> 21"
abbreviation (input) dpos_irreversible_need :: nat where "dpos_irreversible_need \<equiv> 14"

definition select_builder_rule :: "builder_rule \<Rightarrow> builder_rule \<Rightarrow> u32 \<Rightarrow> builder_rule" where
  "select_builder_rule cur nxt order_slot =
     (if order_slot < blocks_per_round \<or> rule_is_empty nxt then cur else nxt)"

definition rule_at :: "builder_rule \<Rightarrow> u32 \<Rightarrow> chain_exc + builder_info" where
  "rule_at r index =
     (if rule_number r = 0 then Inl Undefined
      else Inr (rule_builders r ! unat ((index div blocks_per_builder) mod of_nat (rule_number r))))"

definition select_builder :: "builder_rule \<Rightarrow> builder_rule \<Rightarrow> u32 \<Rightarrow> chain_exc + builder_info" where
  "select_builder cur nxt index =
     (if index < blocks_per_round \<or> rule_is_empty nxt then rule_at cur index else rule_at nxt index)"

section \<open>chain\_time\<close>

abbreviation (input) chain_timestamp_unit_us :: u64 where "chain_timestamp_unit_us \<equiv> 1000000"
abbreviation (input) chain_timestamp_epoch_us :: u64 where "chain_timestamp_epoch_us \<equiv> 946684800000000"

definition timestamp_from :: "u64 \<Rightarrow> u32" where
  "timestamp_from us = ucast ((us - chain_timestamp_epoch_us) div chain_timestamp_unit_us)"

definition to_time_point :: "u32 \<Rightarrow> u64" where
  "to_time_point stamp = ucast stamp * chain_timestamp_unit_us + chain_timestamp_epoch_us"

section \<open>chain\_utils: the merkle root\<close>

text \<open>The inner loop of \<^verbatim>\<open>cal_merkle\<close> over \<^verbatim>\<open>i\<close>, and the outer loop.\<close>

definition merkle_row :: "(sha256 \<times> sha256 \<Rightarrow> sha256) \<Rightarrow> sha256 list \<Rightarrow> sha256 list" where
  "merkle_row H ds =
     foldl (\<lambda>ds i. ds[i div 2 := H (ds ! i, ds ! (i + 1))]) ds [0..<length ds div 2]"

function merkle_loop :: "(sha256 \<times> sha256 \<Rightarrow> sha256) \<Rightarrow> sha256 list \<Rightarrow> sha256" where
  "merkle_loop H ds =
     (if length ds > 1
      then let ds = (if length ds mod 2 = 1 then ds @ [last ds] else ds)
        in merkle_loop H (take (length ds div 2) (merkle_row H ds))
      else hd ds)"
  by pat_completeness auto
termination
proof (relation "measure (\<lambda>(_, ds). length ds)", goal_cases)
  case (2 H ds x)
  then show ?case by (cases "length ds mod 2 = 1") (auto simp: min_def)
qed simp

declare merkle_loop.simps [simp del]

definition cal_merkle :: "(sha256 \<times> sha256 \<Rightarrow> sha256) \<Rightarrow> sha256 list \<Rightarrow> sha256" where
  "cal_merkle H ds = (if length ds = 0 then empty_sha256 else merkle_loop H ds)"

section \<open>Blocks\<close>

definition header_digest :: "crypto \<Rightarrow> 'a block_header_scheme \<Rightarrow> sha256" where
  "header_digest cr h = cr_header cr (block_header.truncate h)"

definition block_num :: "'a block_header_scheme \<Rightarrow> u32" where
  "block_num h = num_from_id (previous h) + 1"

definition header_id :: "crypto \<Rightarrow> 'a block_header_scheme \<Rightarrow> sha256" where
  "header_id cr h = block_id (header_digest cr h) (block_num h)"

definition header_sign :: "crypto \<Rightarrow> private_key \<Rightarrow> 'a signed_block_header_scheme \<Rightarrow> 'a signed_block_header_scheme" where
  "header_sign cr key h = h\<lparr>builder_signature := cr_sign cr key (header_digest cr h)\<rparr>"

definition is_signer_valid :: "crypto \<Rightarrow> public_key \<Rightarrow> 'a signed_block_header_scheme \<Rightarrow> chain_exc + bool" where
  "is_signer_valid cr key h =
     (case cr_recover cr (builder_signature h) (header_digest cr h) of
        None \<Rightarrow> Inl BadSignature | Some k \<Rightarrow> Inr (k = key))"

definition confirmation_digest :: "crypto \<Rightarrow> block_confirmation \<Rightarrow> sha256" where
  "confirmation_digest cr c = cr_confirmation cr (conf_block_id c, conf_verifier c)"

definition confirmation_signer_valid :: "crypto \<Rightarrow> public_key \<Rightarrow> block_confirmation \<Rightarrow> chain_exc + bool" where
  "confirmation_signer_valid cr key c =
     (case cr_recover cr (conf_signature c) (confirmation_digest cr c) of
        None \<Rightarrow> Inl BadSignature | Some k \<Rightarrow> Inr (k = key))"

definition make_conf :: "crypto \<Rightarrow> sha256 \<Rightarrow> account_name \<Rightarrow> private_key \<Rightarrow> block_confirmation" where
  "make_conf cr i account key =
     (let c = \<lparr>conf_block_id = i, conf_verifier = account, conf_signature = []\<rparr>
      in c\<lparr>conf_signature := cr_sign cr key (confirmation_digest cr c)\<rparr>)"

definition transaction_set_reference_block :: "sha256 \<Rightarrow> 'a transaction_scheme \<Rightarrow> 'a transaction_scheme" where
  "transaction_set_reference_block ref t =
     t\<lparr>ref_block_num := ucast (endian_reverse_u32 (ucast (hash0 ref))), ref_block_prefix := ucast (hash1 ref)\<rparr>"

definition transaction_verify_reference_block :: "'a transaction_scheme \<Rightarrow> sha256 \<Rightarrow> bool" where
  "transaction_verify_reference_block t ref \<longleftrightarrow>
     ref_block_num t = ucast (endian_reverse_u32 (ucast (hash0 ref))) \<and> ref_block_prefix t = ucast (hash1 ref)"

definition transaction_id :: "crypto \<Rightarrow> 'a transaction_scheme \<Rightarrow> sha256" where
  "transaction_id cr t = cr_transaction cr (transaction.truncate t)"

section \<open>Lemmas\<close>

lemma length_sha256_bytes [simp]: "length (sha256_bytes a) = 32"
  by (simp add: sha256_bytes_def)

lemma endian_reverse_bit:
  assumes "n < 32"
  shows "bit (endian_reverse_u32 x) n \<longleftrightarrow> bit x (24 - n div 8 * 8 + n mod 8)"
proof -
  have "\<forall>n \<in> set [0..<32]. bit (endian_reverse_u32 x) n \<longleftrightarrow> bit x (24 - n div 8 * 8 + n mod 8)"
    by (simp add: upt_conv_Cons endian_reverse_u32_def bit_simps) (simp add: numeral_eq_Suc)
  with assms show ?thesis by simp
qed

lemma endian_reverse_twice [simp]: "endian_reverse_u32 (endian_reverse_u32 x) = x"
proof (rule bit_word_eqI)
  fix n assume "n < LENGTH(32)"
  then have n: "n < 32" by simp
  define q s where "q = n div 8" and "s = n mod 8"
  have q: "n = q * 8 + s" "s < 8" "q \<le> 3"
    using n by (simp_all add: q_def s_def less_mult_imp_div_less)
  let ?r = "24 - q * 8 + s"
  have r: "?r = (3 - q) * 8 + s" using q by linarith
  have d: "?r div 8 = 3 - q" "?r mod 8 = s" unfolding r using q(2) by simp_all
  have "?r < 32" "24 - (3 - q) * 8 + s = n" using q by linarith+
  then show "bit (endian_reverse_u32 (endian_reverse_u32 x)) n = bit x n"
    using n by (simp only: endian_reverse_bit q_def [symmetric] s_def [symmetric] d)
qed

lemma ucast_block_id_word: "(ucast ((h AND 0xffffffff00000000) + (ucast (x :: u32) :: u64)) :: u32) = x"
proof -
  have m: "(0xffffffff00000000 :: u64) = push_bit 32 (mask 32)"
    by (simp add: mask_eq_exp_minus_1 push_bit_eq_mult)
  have "(h AND 0xffffffff00000000) AND (ucast x :: u64) = 0"
    unfolding m by (rule bit_word_eqI) (auto simp: bit_simps dest: bit_imp_le_length)
  then have "(h AND 0xffffffff00000000) + (ucast x :: u64) = (h AND 0xffffffff00000000) OR ucast x"
    by (simp add: disjunctive_add_eq_or)
  then show ?thesis
    unfolding m by (auto simp: bit_simps intro!: bit_word_eqI dest: bit_imp_le_length)
qed

lemma num_from_block_id [simp]: "num_from_id (block_id s n) = n"
  by (simp add: num_from_id_def block_id_def ucast_block_id_word)

lemma slot_at_time:
  assumes "t < - 1"
  shows "get_delta_slot_at_time t w = (if t < w then w - t else 0)"
proof -
  have "w < t + 1 \<longleftrightarrow> \<not> t < w"
    using assms inc_less_eq_iff [of t w] by (auto simp: not_less)
  then show ?thesis by (simp add: get_delta_slot_at_time_def get_delta_slot_time_def Let_def)
qed

lemma timestamp_roundtrip: "timestamp_from (to_time_point s) = s"
proof -
  have "unat (ucast s * chain_timestamp_unit_us :: u64) = unat s * 1000000"
    using unsigned_less [of s, where 'a = nat] by (subst unat_mult_lem [THEN iffD1]) simp_all
  then have "unat ((ucast s * chain_timestamp_unit_us :: u64) div chain_timestamp_unit_us) = unat s"
    by (simp add: unat_div)
  then have "(ucast s * chain_timestamp_unit_us :: u64) div chain_timestamp_unit_us = ucast s"
    by (metis unat_up word_unat_eq_iff)
  then show ?thesis by (simp add: timestamp_from_def to_time_point_def)
qed

lemma row_fold_prefix:
  assumes "length ds = length ds'" and "k < length ds" and "take (Suc k) ds = take (Suc k) ds'" and "m \<le> k"
  shows "take (Suc k) (foldl (\<lambda>ds i. ds[i div 2 := H (ds ! i, ds ! (i + 1))]) ds [0..<m]) =
      take (Suc k) (foldl (\<lambda>ds i. ds[i div 2 := H (ds ! i, ds ! (i + 1))]) ds' [0..<m]) \<and>
    length (foldl (\<lambda>ds i. ds[i div 2 := H (ds ! i, ds ! (i + 1))]) ds [0..<m]) = length ds \<and>
    length (foldl (\<lambda>ds i. ds[i div 2 := H (ds ! i, ds ! (i + 1))]) ds' [0..<m]) = length ds"
  using assms(4)
proof (induction m)
  case (Suc m)
  let ?f = "\<lambda>ds i. ds[i div 2 := H (ds ! i, ds ! (i + 1))]"
  let ?a = "foldl ?f ds [0..<m]" and ?b = "foldl ?f ds' [0..<m]"
  have IH: "take (Suc k) ?a = take (Suc k) ?b" "length ?a = length ds" "length ?b = length ds"
    using Suc by auto
  have "?a ! m = ?b ! m" "?a ! (m + 1) = ?b ! (m + 1)"
    using arg_cong [OF IH(1), of "\<lambda>xs. xs ! m"] arg_cong [OF IH(1), of "\<lambda>xs. xs ! (m + 1)"] Suc.prems by simp_all
  then show ?case using IH by (simp add: take_update_swap)
qed (use assms in simp)

section \<open>Properties\<close>

text \<open>
  The block number survives in the identifier: \<^verbatim>\<open>num_from_id\<close> reads back the number that
  \<^verbatim>\<open>block_id\<close> stored, so that the number of a block is one more than its predecessor's.
\<close>

theorem block_id_roundtrip:
  "num_from_id (block_id s n) = n \<and> num_from_id (header_id cr h) = block_num h \<and>
   (previous h' = header_id cr h \<longrightarrow> block_num h' = block_num h + 1)"
  by (simp add: header_id_def block_num_def)

theorem block_id_roundtrip_witness:
  "block_num \<lparr>previous = block_id empty_sha256 7, timestamp = 0, trxs_mroot = empty_sha256, builder = 0,
     next_builders = None\<rparr> = 8"
  using block_id_roundtrip [of empty_sha256 7] by (simp add: block_num_def)

text \<open>
  Time and slots: a chain timestamp converted to microseconds and back is unchanged, and the slot number of a
  time is its distance from the head's timestamp, or 0 when it is not later (for every timestamp but the last).
\<close>

theorem slots_and_time:
  assumes "t < - 1"
  shows "timestamp_from (to_time_point t) = t \<and>
    get_delta_slot_at_time t w = (if t < w then w - t else 0)"
  using timestamp_roundtrip slot_at_time [OF assms] by blast

theorem slots_and_time_witness: "get_delta_slot_at_time 5 9 = 4 \<and> timestamp_from (to_time_point 5) = 5"
  using slots_and_time [of 5 9] by simp

text \<open>
  C7. The merkle root does not commit to the transactions of a block: of $2k$ digests only the first $k + 1$ enter
  it, so two lists that agree there have the same root whatever the hash function.
\<close>

theorem merkle_ignores_tail:
  assumes "length ds = 2 * k" and "length ds' = 2 * k" and "1 \<le> k" and "take (Suc k) ds = take (Suc k) ds'"
  shows "cal_merkle H ds = cal_merkle H ds'"
proof -
  have row: "take k (merkle_row H ds) = take k (merkle_row H ds')"
  proof -
    have "take (Suc k) (merkle_row H ds) = take (Suc k) (merkle_row H ds')"
      using row_fold_prefix [of ds ds' k k H] assms by (simp add: merkle_row_def)
    then show ?thesis by (metis min.absorb1 le_SucI order_refl take_take)
  qed
  have even: "merkle_loop H xs = merkle_loop H (take k (merkle_row H xs))" if "length xs = 2 * k" for xs
    using that assms(3) by (subst merkle_loop.simps) simp
  show ?thesis using assms even [of ds] even [of ds'] row by (simp add: cal_merkle_def)
qed

definition digest_of :: "nat \<Rightarrow> sha256" where
  "digest_of i = Sha256 (of_nat i) 0 0 0"

theorem merkle_ignores_tail_witness:
  "cal_merkle fst (map digest_of [1, 2, 3, 4]) = cal_merkle fst (map digest_of [1, 2, 3, 9]) \<and>
   digest_of 4 \<noteq> digest_of 9"
proof
  show "cal_merkle fst (map digest_of [1, 2, 3, 4]) = cal_merkle fst (map digest_of [1, 2, 3, 9])"
    by (rule merkle_ignores_tail [of _ 2]) simp_all
  show "digest_of 4 \<noteq> digest_of 9" by (simp add: digest_of_def)
qed

end
