(* ===== verification/Ordered_Index.thy ===== *)
theory Ordered_Index
  imports Chain_Types
begin

text \<open>
  The non-unique ordered indices of a \<^verbatim>\<open>boost::multi_index_container\<close>, as the fork database uses them: the
  elements as a list in the order of the index. A new element goes behind those with an equivalent key; an
  element whose key was modified stays where it is if the order allows it, and is inserted anew otherwise.
\<close>

section \<open>Operations\<close>

definition oi_insert :: "('k \<Rightarrow> 'k \<Rightarrow> bool) \<Rightarrow> ('a \<Rightarrow> 'k) \<Rightarrow> 'a \<Rightarrow> 'a list \<Rightarrow> 'a list" where
  "oi_insert lt key x xs =
     takeWhile (\<lambda>y. \<not> lt (key x) (key y)) xs @ x # dropWhile (\<lambda>y. \<not> lt (key x) (key y)) xs"

definition oi_replace :: "('k \<Rightarrow> 'k \<Rightarrow> bool) \<Rightarrow> ('a \<Rightarrow> 'k) \<Rightarrow> 'a \<Rightarrow> 'a list \<Rightarrow> 'a list" where
  "oi_replace lt key x xs =
     (let before = takeWhile (\<lambda>y. y \<noteq> x) xs; after = tl (dropWhile (\<lambda>y. y \<noteq> x) xs)
      in if (before = [] \<or> \<not> lt (key x) (key (last before))) \<and> (after = [] \<or> \<not> lt (key (hd after)) (key x))
      then xs else oi_insert lt key x (before @ after))"

definition lower_bound :: "('k \<Rightarrow> 'k \<Rightarrow> bool) \<Rightarrow> ('a \<Rightarrow> 'k) \<Rightarrow> 'k \<Rightarrow> 'a list \<Rightarrow> 'a list" where
  "lower_bound lt key k xs = dropWhile (\<lambda>y. lt (key y) k) xs"

text \<open>The elements from \<^verbatim>\<open>lower_bound\<close> to \<^verbatim>\<open>upper_bound\<close>.\<close>

definition equal_range :: "('k \<Rightarrow> 'k \<Rightarrow> bool) \<Rightarrow> ('a \<Rightarrow> 'k) \<Rightarrow> 'k \<Rightarrow> 'a list \<Rightarrow> 'a list" where
  "equal_range lt key k xs = takeWhile (\<lambda>y. \<not> lt k (key y)) (lower_bound lt key k xs)"

definition oi_sorted :: "('k \<Rightarrow> 'k \<Rightarrow> bool) \<Rightarrow> ('a \<Rightarrow> 'k) \<Rightarrow> 'a list \<Rightarrow> bool" where
  "oi_sorted lt key xs \<longleftrightarrow> sorted_wrt (\<lambda>x y. \<not> lt (key y) (key x)) xs"

lemma set_oi_insert [simp]: "set (oi_insert lt key x xs) = insert x (set xs)"
proof -
  have "set xs = set (takeWhile P xs) \<union> set (dropWhile P xs)" for P by (metis set_append takeWhile_dropWhile_id)
  then show ?thesis by (auto simp: oi_insert_def)
qed

lemma distinct_oi_insert [simp]: "distinct (oi_insert lt key x xs) \<longleftrightarrow> distinct xs \<and> x \<notin> set xs"
proof -
  define P where "P = (\<lambda>y. \<not> lt (key x) (key y))"
  define as bs where "as = takeWhile P xs" and "bs = dropWhile P xs"
  have "xs = as @ bs" by (simp add: as_def bs_def)
  moreover have "oi_insert lt key x xs = as @ x # bs" by (simp add: oi_insert_def as_def bs_def P_def)
  ultimately show ?thesis by auto
qed

lemma split_at_member:
  assumes "x \<in> set xs"
  shows "xs = takeWhile (\<lambda>y. y \<noteq> x) xs @ x # tl (dropWhile (\<lambda>y. y \<noteq> x) xs)"
proof -
  have "dropWhile (\<lambda>y. y \<noteq> x) xs \<noteq> []" using assms by (simp add: dropWhile_eq_Nil_conv)
  then have "dropWhile (\<lambda>y. y \<noteq> x) xs = x # tl (dropWhile (\<lambda>y. y \<noteq> x) xs)"
    using hd_dropWhile [of "\<lambda>y. y \<noteq> x" xs] by (metis list.collapse)
  then show ?thesis by (metis takeWhile_dropWhile_id)
qed

lemma set_oi_replace [simp]: "x \<in> set xs \<Longrightarrow> set (oi_replace lt key x xs) = set xs"
  using split_at_member [of x xs] by (auto simp: oi_replace_def Let_def) (metis Un_iff list.set_intros set_append set_ConsD)+

lemma distinct_oi_replace [simp]: "x \<in> set xs \<Longrightarrow> distinct xs \<Longrightarrow> distinct (oi_replace lt key x xs)"
proof -
  assume x: "x \<in> set xs" and "distinct xs"
  then have "distinct (takeWhile (\<lambda>y. y \<noteq> x) xs @ x # tl (dropWhile (\<lambda>y. y \<noteq> x) xs))"
    using split_at_member [OF x] by metis
  then show ?thesis using \<open>distinct xs\<close> by (auto simp: oi_replace_def Let_def)
qed

section \<open>Orders\<close>

text \<open>What \<^verbatim>\<open>std::less\<close> and its kin promise about a comparison.\<close>

locale strict_weak_order =
  fixes lt :: "'k \<Rightarrow> 'k \<Rightarrow> bool"
  assumes asym: "lt a b \<Longrightarrow> \<not> lt b a"
    and neg_trans: "\<not> lt a b \<Longrightarrow> \<not> lt b c \<Longrightarrow> \<not> lt a c"
begin

lemma trans: "lt a b \<Longrightarrow> lt b c \<Longrightarrow> lt a c"
  using asym neg_trans by blast

lemma less_le_trans: "lt a b \<Longrightarrow> \<not> lt c b \<Longrightarrow> lt a c"
  using asym neg_trans by blast

lemma insert_sorted:
  assumes "oi_sorted lt key xs"
  shows "oi_sorted lt key (oi_insert lt key x xs)"
proof -
  define P where "P = (\<lambda>y. \<not> lt (key x) (key y))"
  define as bs where "as = takeWhile P xs" and "bs = dropWhile P xs"
  have xs: "xs = as @ bs" by (simp add: as_def bs_def)
  have ins: "oi_insert lt key x xs = as @ x # bs" by (simp add: oi_insert_def as_def bs_def P_def)
  have srt: "sorted_wrt (\<lambda>x y. \<not> lt (key y) (key x)) (as @ bs)" using assms xs by (simp add: oi_sorted_def)
  have 1: "\<not> lt (key x) (key z)" if "z \<in> set as" for z
    using that unfolding as_def P_def by (rule set_takeWhileD [THEN conjunct2])
  have 2: "lt (key x) (key z)" if "z \<in> set bs" for z
  proof (cases bs)
    case (Cons d ds)
    have d: "lt (key x) (key d)" using hd_dropWhile [of P xs] Cons bs_def by (metis P_def list.distinct(1) list.sel(1))
    have "z = d \<or> \<not> lt (key z) (key d)" using srt that Cons by (auto simp: sorted_wrt_append)
    with d show ?thesis using less_le_trans by blast
  qed (use that in simp)
  have "\<not> lt (key z) (key x)" if "z \<in> set bs" for z using 2 [OF that] asym by blast
  then show ?thesis using srt 1 unfolding ins oi_sorted_def by (simp add: sorted_wrt_append)
qed

lemma sorted_remove1: "oi_sorted lt key xs \<Longrightarrow> oi_sorted lt key (remove1 x xs)"
  unfolding oi_sorted_def by (induction xs) (auto dest: notin_set_remove1)

lemma sorted_cong:
  "(\<And>y. y \<in> set xs \<Longrightarrow> key y = key' y) \<Longrightarrow> oi_sorted lt key xs \<longleftrightarrow> oi_sorted lt key' xs"
  unfolding oi_sorted_def by (induction xs) auto

lemma replace_sorted:
  assumes srt: "oi_sorted lt key xs" and x: "x \<in> set xs" and d: "distinct xs"
    and key: "\<And>y. y \<noteq> x \<Longrightarrow> key' y = key y"
  shows "oi_sorted lt key' (oi_replace lt key' x xs)"
proof -
  define bf af where "bf = takeWhile (\<lambda>y. y \<noteq> x) xs" and "af = tl (dropWhile (\<lambda>y. y \<noteq> x) xs)"
  have xs: "xs = bf @ x # af" using split_at_member [OF x] by (simp add: bf_def af_def)
  have no: "x \<notin> set bf" "x \<notin> set af" using d xs by auto
  have rest: "oi_sorted lt key' (bf @ af)"
  proof -
    have "oi_sorted lt key (bf @ af)" using srt unfolding xs oi_sorted_def by (auto simp: sorted_wrt_append)
    moreover have "\<And>y. y \<in> set (bf @ af) \<Longrightarrow> key y = key' y" using no key by (metis Un_iff set_append)
    ultimately show ?thesis using sorted_cong [of "bf @ af" key key'] by blast
  qed
  show ?thesis
  proof (cases "(bf = [] \<or> \<not> lt (key' x) (key' (last bf))) \<and> (af = [] \<or> \<not> lt (key' (hd af)) (key' x))")
    case True
    have b: "\<not> lt (key' x) (key' y)" if "y \<in> set bf" for y
    proof -
      have "bf \<noteq> []" using that by auto
      then have "bf = butlast bf @ [last bf]" by simp
      then have "y = last bf \<or> \<not> lt (key' (last bf)) (key' y)"
        using rest that unfolding oi_sorted_def by (metis (no_types, lifting) Un_iff in_set_conv_decomp_last
            list.set_intros(1) set_append sorted_wrt_append set_ConsD append_Cons empty_iff list.set(1))
      then show ?thesis using True \<open>bf \<noteq> []\<close> neg_trans by blast
    qed
    have a: "\<not> lt (key' y) (key' x)" if "y \<in> set af" for y
    proof -
      obtain z zs where z: "af = z # zs" using \<open>y \<in> set af\<close> by (cases af) auto
      then have "y = z \<or> \<not> lt (key' y) (key' z)"
        using rest that unfolding oi_sorted_def by (auto simp: sorted_wrt_append)
      then show ?thesis using True z neg_trans by auto
    qed
    have "oi_sorted lt key' (bf @ x # af)"
      using rest a b unfolding oi_sorted_def by (auto simp: sorted_wrt_append)
    moreover have "oi_replace lt key' x xs = xs"
      unfolding oi_replace_def Let_def bf_def [symmetric] af_def [symmetric] using True by (rule if_P)
    ultimately show ?thesis using xs by simp
  next
    case False
    then have "oi_replace lt key' x xs = oi_insert lt key' x (bf @ af)"
      by (auto simp: oi_replace_def Let_def simp flip: bf_def af_def)
    then show ?thesis using insert_sorted [OF rest] by simp
  qed
qed

lemma set_lower_bound:
  assumes "oi_sorted lt key xs"
  shows "set (lower_bound lt key k xs) = {y \<in> set xs. \<not> lt (key y) k}"
  using assms
proof (induction xs)
  case (Cons x xs)
  then have ih: "set (lower_bound lt key k xs) = {y \<in> set xs. \<not> lt (key y) k}" by (simp add: oi_sorted_def)
  show ?case
  proof (cases "lt (key x) k")
    case False
    then have "\<not> lt (key y) k" if "y \<in> set xs" for y
      using Cons.prems that neg_trans by (auto simp: oi_sorted_def)
    with False show ?thesis by (auto simp: lower_bound_def)
  qed (use ih in \<open>auto simp: lower_bound_def\<close>)
qed (simp add: lower_bound_def)

lemma sorted_lower_bound: "oi_sorted lt key xs \<Longrightarrow> oi_sorted lt key (lower_bound lt key k xs)"
  unfolding lower_bound_def oi_sorted_def by (induction xs) auto

lemma set_takeWhile_upper:
  assumes "oi_sorted lt key xs"
  shows "set (takeWhile (\<lambda>y. \<not> lt k (key y)) xs) = {y \<in> set xs. \<not> lt k (key y)}"
  using assms
proof (induction xs)
  case (Cons x xs)
  then have ih: "set (takeWhile (\<lambda>y. \<not> lt k (key y)) xs) = {y \<in> set xs. \<not> lt k (key y)}" by (simp add: oi_sorted_def)
  show ?case
  proof (cases "lt k (key x)")
    case True
    then have "lt k (key y)" if "y \<in> set xs" for y
      using Cons.prems that less_le_trans [OF True] by (simp add: oi_sorted_def)
    with True show ?thesis by auto
  qed (use ih in auto)
qed simp

lemma set_equal_range:
  assumes "oi_sorted lt key xs"
  shows "set (equal_range lt key k xs) = {y \<in> set xs. \<not> lt (key y) k \<and> \<not> lt k (key y)}"
  unfolding equal_range_def
  using set_takeWhile_upper [OF sorted_lower_bound [OF assms]] set_lower_bound [OF assms] by auto

lemma hd_minimal:
  assumes "oi_sorted lt key (x # xs)" and "y \<in> set (x # xs)"
  shows "\<not> lt (key y) (key x)"
  using assms asym by (auto simp: oi_sorted_def)

end

section \<open>The comparisons of the fork database\<close>

text \<open>\<^verbatim>\<open>by_number_less\<close>: smaller numbers first, of one number the main chain first.\<close>

definition number_less :: "u32 \<times> bool \<Rightarrow> u32 \<times> bool \<Rightarrow> bool" where
  "number_less a b \<longleftrightarrow> fst a < fst b \<or> fst a = fst b \<and> snd a \<and> \<not> snd b"

text \<open>\<^verbatim>\<open>by_longest_num\<close>: everything downwards.\<close>

definition longest_less :: "u32 \<times> u32 \<times> u32 \<times> bool \<Rightarrow> u32 \<times> u32 \<times> u32 \<times> bool \<Rightarrow> bool" where
  "longest_less a b \<longleftrightarrow> (case (a, b) of ((c1, d1, n1, m1), (c2, d2, n2, m2)) \<Rightarrow>
     c1 > c2 \<or> c1 = c2 \<and> (d1 > d2 \<or> d1 = d2 \<and> (n1 > n2 \<or> n1 = n2 \<and> (m1 \<and> \<not> m2))))"

lemma bytes_less_asym: "bytes_less a b \<Longrightarrow> \<not> bytes_less b a"
  by (induction a b rule: bytes_less.induct) auto

lemma bytes_less_linear:
  "length a = length b \<Longrightarrow> \<not> bytes_less a b \<Longrightarrow> \<not> bytes_less b a \<Longrightarrow> a = b"
  by (induction a b rule: list_induct2) auto

lemma bytes_less_neg_trans:
  assumes "length a = length b" and "length b = length c" and "\<not> bytes_less a b" and "\<not> bytes_less b c"
  shows "\<not> bytes_less a c"
  using assms by (induction a b c rule: list_induct3) auto

lemma sha256_bytes_inject: "sha256_bytes a = sha256_bytes b \<Longrightarrow> a = b"
proof -
  assume "sha256_bytes a = sha256_bytes b"
  then have "le64 (hash0 a) = le64 (hash0 b)" "le64 (hash1 a) = le64 (hash1 b)"
    "le64 (hash2 a) = le64 (hash2 b)" "le64 (hash3 a) = le64 (hash3 b)"
    by (simp_all add: sha256_bytes_def)
  then have "hash0 a = hash0 b" "hash1 a = hash1 b" "hash2 a = hash2 b" "hash3 a = hash3 b"
    by (metis of_le64_le64)+
  then show ?thesis by (cases a; cases b) simp
qed

lemma sha256_less_linear: "\<not> sha256_less a b \<Longrightarrow> \<not> sha256_less b a \<Longrightarrow> a = b"
  unfolding sha256_less_def by (rule sha256_bytes_inject, rule bytes_less_linear) (simp_all add: sha256_bytes_def)

interpretation pre_order: strict_weak_order sha256_less
proof
  show "\<not> sha256_less b a" if "sha256_less a b" for a b
    using that by (simp add: sha256_less_def bytes_less_asym)
  show "\<not> sha256_less a c" if "\<not> sha256_less a b" "\<not> sha256_less b c" for a b c
    using that bytes_less_neg_trans [of "sha256_bytes a" "sha256_bytes b" "sha256_bytes c"] by (simp add: sha256_less_def)
qed

interpretation number_order: strict_weak_order number_less
  by unfold_locales (auto simp: number_less_def)

interpretation longest_order: strict_weak_order longest_less
  by unfold_locales (auto simp: longest_less_def)

end
