(* ===== verification/Chain_Block.thy ===== *)
theory Chain_Block
  imports Chain_Types
begin

text \<open>
  \<^verbatim>\<open>block_pack\<close>: a block with what consensus keeps about it. How a pack is derived from its
  predecessor's (slot, builder, round, dPoS irreversibility), from a received block, and how
  confirmations of verifiers are collected.
\<close>

section \<open>block\_pack\<close>

record block_brief =
  brief_builder :: account_name
  brief_num :: u32
  brief_id :: sha256

record block_pack =
  pk_num :: u32
  pk_id :: sha256
  new_header :: signed_block_header
  bld_info :: builder_info
  round_slot :: u32
  current_builders :: builder_rule
  new_builders :: builder_rule
  confirmations :: "block_confirmation list"
  main_chain :: bool
  last_block_num :: u32
  last_confirmed_num :: u32
  last_confirmed_id :: sha256
  irreversible_confirmed :: bool
  dpos_irreversible_num :: u32
  dpos_irreversible_id :: sha256
  last_block_of_builders :: "block_brief list"
  validated :: bool
  new_round :: bool
  pk_block :: signed_block

definition empty_header :: signed_block_header where
  "empty_header = \<lparr>previous = empty_sha256, timestamp = 0, trxs_mroot = empty_sha256, builder = 0,
     next_builders = None, builder_signature = []\<rparr>"

definition empty_block :: signed_block where
  "empty_block = signed_block_header.extend empty_header (signed_block.fields [])"

definition empty_info :: builder_info where
  "empty_info = \<lparr>builder_name = 0, block_signing_key = empty_public_key\<rparr>"

text \<open>The pack of \<^verbatim>\<open>std::make_shared<block_pack>()\<close>.\<close>

definition new_pack :: block_pack where
  "new_pack = \<lparr>pk_num = 0, pk_id = empty_sha256, new_header = empty_header, bld_info = empty_info,
     round_slot = 0, current_builders = empty_rule, new_builders = empty_rule, confirmations = [],
     main_chain = False, last_block_num = 0, last_confirmed_num = 0, last_confirmed_id = empty_sha256,
     irreversible_confirmed = False, dpos_irreversible_num = 0, dpos_irreversible_id = empty_sha256,
     last_block_of_builders = [], validated = False, new_round = False, pk_block = empty_block\<rparr>"

definition prev_id :: "block_pack \<Rightarrow> sha256" where
  "prev_id p = previous (new_header p)"

section \<open>Confirmations\<close>

abbreviation (input) skip_confirmation :: u32 where "skip_confirmation \<equiv> 0x40000"

text \<open>
  \<open>None\<close> in the result: the early return, which leaves the pack as it is. The loop over the
  confirmations returns in its first iteration.
\<close>

definition add_confirmation :: "crypto \<Rightarrow> block_confirmation \<Rightarrow> u32 \<Rightarrow> block_pack \<Rightarrow> chain_exc + block_pack" where
  "add_confirmation cr conf skip p =
     (if skip AND skip_confirmation = 0
      then if confirmations p \<noteq> [] then Inr p
        else case confirmation_signer_valid cr (get_sign_key (current_builders p) (conf_verifier conf)) conf of
          Inl e \<Rightarrow> Inl e
        | Inr False \<Rightarrow> Inl ConfirmationValidate
        | Inr True \<Rightarrow> Inr (p\<lparr>confirmations := confirmations p @ [conf]\<rparr>)
      else Inr (p\<lparr>confirmations := confirmations p @ [conf]\<rparr>))"

definition enough_confirmation :: "block_pack \<Rightarrow> bool" where
  "enough_confirmation p \<longleftrightarrow> length (confirmations p) \<ge> rule_number (current_builders p) * 2 div 3"

section \<open>The dPoS irreversible block\<close>

definition set_dpos_irreversible :: "u32 \<Rightarrow> sha256 \<Rightarrow> block_pack \<Rightarrow> block_pack" where
  "set_dpos_irreversible num i p = p\<lparr>dpos_irreversible_id := i, dpos_irreversible_num := num\<rparr>"

definition generate_dpos :: "block_pack \<Rightarrow> block_pack \<Rightarrow> block_pack" where
  "generate_dpos pre p =
     (let last_brief = \<lparr>brief_builder = builder (new_header pre), brief_num = pk_num pre, brief_id = pk_id pre\<rparr>;
          briefs = last_block_of_builders pre
      in if briefs = []
      then (set_dpos_irreversible (dpos_irreversible_num pre) (dpos_irreversible_id pre) p)
             \<lparr>last_block_of_builders := last_block_of_builders p @ [last_brief]\<rparr>
      else if brief_builder (last briefs) = builder (new_header pre)
      then (set_dpos_irreversible (dpos_irreversible_num pre) (dpos_irreversible_id pre) p)
             \<lparr>last_block_of_builders := butlast briefs @ [last_brief]\<rparr>
      else if length briefs < dpos_irreversible_need
      then (set_dpos_irreversible (dpos_irreversible_num pre) (dpos_irreversible_id pre) p)
             \<lparr>last_block_of_builders := briefs @ [last_brief]\<rparr>
      else (set_dpos_irreversible (brief_num (hd briefs)) (brief_id (hd briefs)) p)
             \<lparr>last_block_of_builders := tl briefs @ [last_brief]\<rparr>)"

section \<open>Packs from a predecessor and from a block\<close>

definition init_default :: "u32 \<Rightarrow> builder_info \<Rightarrow> builder_rule \<Rightarrow> block_pack \<Rightarrow> block_pack" where
  "init_default time bld cur p =
     (let blk = empty_block\<lparr>timestamp := time, builder := builder_name bld, previous := empty_sha256\<rparr>;
          h = (new_header p)\<lparr>timestamp := time, builder := builder_name bld, previous := empty_sha256\<rparr>
      in p\<lparr>pk_block := blk, new_header := h, pk_num := block_num h, bld_info := bld, round_slot := 0,
           current_builders := cur, main_chain := True, validated := False, new_round := True\<rparr>)"

definition init_by_pre_pack :: "block_pack \<Rightarrow> u32 \<Rightarrow> bool \<Rightarrow> block_pack \<Rightarrow> chain_exc + block_pack" where
  "init_by_pre_pack pre when mainchain p =
     (let delta_slot = get_delta_slot_at_time (timestamp (new_header pre)) when;
          new_slot = round_slot pre + delta_slot
      in case select_builder (current_builders pre) (new_builders pre) new_slot of
        Inl e \<Rightarrow> Inl e
      | Inr info \<Rightarrow>
        let p = p\<lparr>pk_block := empty_block, last_block_num := last_block_num pre,
              last_confirmed_num := last_confirmed_num pre, last_confirmed_id := last_confirmed_id pre,
              pk_num := pk_num pre + 1, bld_info := info,
              new_header := (new_header p)\<lparr>previous := pk_id pre, timestamp := when, builder := builder_name info\<rparr>,
              main_chain := mainchain, new_round := (new_slot \<ge> blocks_per_round)\<rparr>;
            p = (if new_slot \<ge> blocks_per_round
                 then (if \<not> rule_is_empty (new_builders pre)
                       then p\<lparr>current_builders := new_builders pre\<rparr>
                       else p\<lparr>current_builders := current_builders pre, new_builders := new_builders pre\<rparr>)
                      \<lparr>round_slot := new_slot mod blocks_per_round\<rparr>
                 else p\<lparr>current_builders := current_builders pre, new_builders := new_builders pre,
                        round_slot := new_slot\<rparr>)
        in Inr (generate_dpos pre p))"

definition generate_by_block :: "crypto \<Rightarrow> signed_block \<Rightarrow> block_pack \<Rightarrow> block_pack" where
  "generate_by_block cr b p =
     (let p = p\<lparr>pk_block := b, pk_id := header_id cr b, pk_num := block_num b\<rparr>;
          p = (case next_builders b of None \<Rightarrow> p | Some r \<Rightarrow> p\<lparr>new_builders := r\<rparr>)
      in p\<lparr>new_header := signed_block_header.truncate b\<rparr>)"

definition pack_refresh ::
  "crypto \<Rightarrow> signed_block \<Rightarrow> builder_rule \<Rightarrow> builder_rule \<Rightarrow> u16 \<Rightarrow> bool \<Rightarrow> bool \<Rightarrow> block_pack \<Rightarrow> chain_exc + block_pack" where
  "pack_refresh cr b cur nxt roundslot confirmed irr_confirmed p =
     (let p = p\<lparr>current_builders := cur, new_builders := nxt, round_slot := ucast roundslot\<rparr>
      in case select_builder cur nxt (ucast roundslot) of
        Inl e \<Rightarrow> Inl e
      | Inr info \<Rightarrow>
        let p = generate_by_block cr b (p\<lparr>bld_info := info\<rparr>);
            p = p\<lparr>last_block_num := pk_num p\<rparr>
        in Inr ((if confirmed then p\<lparr>last_confirmed_num := pk_num p, last_confirmed_id := pk_id p\<rparr>
                 else p\<lparr>last_confirmed_num := 0, last_confirmed_id := empty_sha256\<rparr>)
                \<lparr>irreversible_confirmed := irr_confirmed\<rparr>))"

definition set_next_builders :: "builder_rule \<Rightarrow> block_pack \<Rightarrow> chain_exc + block_pack" where
  "set_next_builders nxt p =
     (if rule_version (current_builders p) + 1 \<noteq> rule_version nxt then Inl FcAssert
      else if rule_number (new_builders p) \<noteq> 0 then Inl FcAssert
      else Inr (p\<lparr>new_header := (new_header p)\<lparr>next_builders := Some nxt\<rparr>, new_builders := nxt\<rparr>))"

section \<open>Confirmations received\<close>

text \<open>The confirmations that arrive for a block, one after the other; one that is rejected leaves the pack as it was.\<close>

fun receive_confirmations :: "crypto \<Rightarrow> u32 \<Rightarrow> block_confirmation list \<Rightarrow> block_pack \<Rightarrow> block_pack" where
  "receive_confirmations cr skip [] p = p"
| "receive_confirmations cr skip (c # cs) p =
     receive_confirmations cr skip cs (case add_confirmation cr c skip p of Inl _ \<Rightarrow> p | Inr p' \<Rightarrow> p')"

lemma add_confirmation_result:
  assumes "add_confirmation cr c 0 p = Inr p'"
  shows "current_builders p' = current_builders p \<and>
    (length (confirmations p) \<le> 1 \<longrightarrow> length (confirmations p') \<le> 1)"
  using assms by (auto simp: add_confirmation_def split: if_splits sum.splits bool.splits)

lemma receive_confirmations_stuck:
  "length (confirmations p) \<le> 1 \<Longrightarrow>
   length (confirmations (receive_confirmations cr 0 cs p)) \<le> 1 \<and>
   current_builders (receive_confirmations cr 0 cs p) = current_builders p"
proof (induction cs arbitrary: p)
  case (Cons c cs)
  then show ?case
    using add_confirmation_result [of cr c p] by (auto split: sum.splits)
qed simp

section \<open>The schedule\<close>

lemma rule_at_own_slot:
  assumes "i < rule_number r" and "rule_number r < 2 ^ 32"
  shows "rule_at r (of_nat i) = Inr (rule_builders r ! i)"
proof -
  have "unat ((of_nat i :: u32) mod of_nat (rule_number r)) = i"
    using assms by (simp add: unat_mod unat_of_nat_u32)
  then show ?thesis using assms by (simp add: rule_at_def)
qed

section \<open>The chain of packs\<close>

text \<open>
  \<open>pack_step pre p\<close>: \<open>p\<close> is the finished pack of a block that was started on \<open>pre\<close>. Between
  \<^verbatim>\<open>init_by_pre_pack\<close> and the end of the block the identifier, the signature and the root are
  filled in; the number, the builder and the dPoS fields stay.
\<close>

definition pack_step :: "block_pack \<Rightarrow> block_pack \<Rightarrow> bool" where
  "pack_step pre p \<longleftrightarrow> (\<exists>when mc q. init_by_pre_pack pre when mc new_pack = Inr q \<and>
     pk_num p = pk_num q \<and> prev_id p = prev_id q \<and> builder (new_header p) = builder (new_header q) \<and>
     dpos_irreversible_num p = dpos_irreversible_num q \<and> dpos_irreversible_id p = dpos_irreversible_id q \<and>
     last_block_of_builders p = last_block_of_builders q)"

text \<open>The packs of a chain from the head back to the first one.\<close>

inductive pack_chain :: "block_pack list \<Rightarrow> bool" where
  first: "last_block_of_builders g = [] \<Longrightarrow> dpos_irreversible_num g = 0 \<Longrightarrow> pack_chain [g]"
| extend: "pack_chain (pre # ps) \<Longrightarrow> pack_step pre p \<Longrightarrow> pk_num pre < - 1 \<Longrightarrow> pack_chain (p # pre # ps)"

definition brief_of :: "block_pack \<Rightarrow> block_brief" where
  "brief_of p = \<lparr>brief_builder = builder (new_header p), brief_num = pk_num p, brief_id = pk_id p\<rparr>"

lemma init_by_pre_pack_dpos:
  assumes "init_by_pre_pack pre w mc new_pack = Inr q"
  shows "pk_num q = pk_num pre + 1 \<and> prev_id q = pk_id pre \<and>
    (\<exists>q0. last_block_of_builders q0 = [] \<and>
      dpos_irreversible_num q = dpos_irreversible_num (generate_dpos pre q0) \<and>
      dpos_irreversible_id q = dpos_irreversible_id (generate_dpos pre q0) \<and>
      last_block_of_builders q = last_block_of_builders (generate_dpos pre q0))"
proof -
  obtain q0 where q0: "q = generate_dpos pre q0" "last_block_of_builders q0 = []" "pk_num q0 = pk_num pre + 1"
    "prev_id q0 = pk_id pre"
    using assms by (auto simp: init_by_pre_pack_def Let_def new_pack_def prev_id_def split: sum.splits)
  have "pk_num q = pk_num q0" "prev_id q = prev_id q0"
    by (simp_all add: q0(1) generate_dpos_def Let_def set_dpos_irreversible_def prev_id_def)
  with q0 show ?thesis by auto
qed

lemma pack_step_dpos:
  assumes "pack_step pre p"
  shows "pk_num p = pk_num pre + 1 \<and> prev_id p = pk_id pre \<and>
    (let bs = last_block_of_builders pre
     in if bs \<noteq> [] \<and> brief_builder (last bs) \<noteq> builder (new_header pre) \<and> length bs \<ge> dpos_irreversible_need
     then dpos_irreversible_num p = brief_num (hd bs) \<and> dpos_irreversible_id p = brief_id (hd bs) \<and>
       last_block_of_builders p = tl bs @ [brief_of pre]
     else dpos_irreversible_num p = dpos_irreversible_num pre \<and> dpos_irreversible_id p = dpos_irreversible_id pre \<and>
       last_block_of_builders p =
         (if bs \<noteq> [] \<and> brief_builder (last bs) = builder (new_header pre) then butlast bs else bs) @ [brief_of pre])"
proof -
  obtain w mc q where q: "init_by_pre_pack pre w mc new_pack = Inr q"
    "pk_num p = pk_num q" "prev_id p = prev_id q" "dpos_irreversible_num p = dpos_irreversible_num q"
    "dpos_irreversible_id p = dpos_irreversible_id q" "last_block_of_builders p = last_block_of_builders q"
    using assms unfolding pack_step_def by blast
  with init_by_pre_pack_dpos [OF q(1)] show ?thesis
    by (auto simp: generate_dpos_def Let_def set_dpos_irreversible_def brief_of_def)
qed

text \<open>
  What the head of a chain knows: its briefs are those of some of its ancestors, oldest first and numbered upwards, at most
  \<^verbatim>\<open>dpos_irreversible_need\<close> of them, neighbours by different builders; the irreversible block is the first
  pack's choice or an ancestor older than all briefs.
\<close>

definition dpos_ok :: "block_pack list \<Rightarrow> bool" where
  "dpos_ok ps \<longleftrightarrow> (case ps of [] \<Rightarrow> False | p # anc \<Rightarrow>
     let bs = last_block_of_builders p; g = last ps
     in length bs \<le> dpos_irreversible_need \<and> set bs \<subseteq> brief_of ` set anc \<and>
       sorted_wrt (\<lambda>a b. brief_num a < brief_num b) bs \<and> (\<forall>b \<in> set bs. brief_num b < pk_num p) \<and>
       distinct_adj (map brief_builder bs) \<and>
       (bs \<noteq> [] \<longrightarrow> anc \<noteq> [] \<and> last bs = brief_of (hd anc)) \<and> (bs = [] \<longrightarrow> anc = []) \<and>
       ((dpos_irreversible_num p = dpos_irreversible_num g \<and> dpos_irreversible_id p = dpos_irreversible_id g) \<or>
        (\<exists>a \<in> set anc. pk_num a = dpos_irreversible_num p \<and> pk_id a = dpos_irreversible_id p \<and>
           (\<forall>b \<in> set bs. dpos_irreversible_num p < brief_num b))))"

lemma distinct_adj_snoc:
  "distinct_adj (xs @ [x]) \<longleftrightarrow> distinct_adj xs \<and> (xs = [] \<or> last xs \<noteq> x)"
  by (auto simp: distinct_adj_append_iff)

lemma sorted_wrt_snoc:
  "sorted_wrt R (xs @ [x]) \<longleftrightarrow> sorted_wrt R xs \<and> (\<forall>y \<in> set xs. R y x)"
  by (auto simp: sorted_wrt_append)

text \<open>The briefs that stay, with the one of the finished predecessor at the end.\<close>

lemma briefs_snoc:
  assumes bs: "sorted_wrt (\<lambda>a b. brief_num a < brief_num b) bs" "\<forall>b \<in> set bs. brief_num b < pk_num pre"
    "distinct_adj (map brief_builder bs)" "length bs \<le> dpos_irreversible_need"
    and nxt: "pk_num pre < - 1"
    and keep: "keep = (if bs \<noteq> [] \<and> brief_builder (last bs) = builder (new_header pre) then butlast bs
      else if length bs \<ge> dpos_irreversible_need then tl bs else bs)"
  shows "sorted_wrt (\<lambda>a b. brief_num a < brief_num b) (keep @ [brief_of pre]) \<and>
    (\<forall>b \<in> set (keep @ [brief_of pre]). brief_num b < pk_num pre + 1) \<and>
    distinct_adj (map brief_builder (keep @ [brief_of pre])) \<and>
    length (keep @ [brief_of pre]) \<le> dpos_irreversible_need \<and> set keep \<subseteq> set bs"
proof -
  have sub: "set keep \<subseteq> set bs" unfolding keep by (cases bs) (auto dest: in_set_butlastD)
  have srt: "sorted_wrt (\<lambda>a b. brief_num a < brief_num b) keep"
  proof -
    have "sorted_wrt (\<lambda>a b. brief_num a < brief_num b) (tl bs)" using bs(1) by (cases bs) auto
    moreover have "sorted_wrt (\<lambda>a b. brief_num a < brief_num b) (butlast bs)"
      using bs(1) by (cases bs rule: rev_cases) (auto simp: sorted_wrt_append)
    ultimately show ?thesis using bs(1) by (simp add: keep)
  qed
  have adj: "distinct_adj (map brief_builder keep) \<and> (keep = [] \<or> brief_builder (last keep) \<noteq> builder (new_header pre))"
  proof (cases "bs \<noteq> [] \<and> brief_builder (last bs) = builder (new_header pre)")
    case True
    then have "bs = keep @ [last bs]" by (simp add: keep)
    then have "map brief_builder bs = map brief_builder keep @ [brief_builder (last bs)]" by (metis list.simps(8,9) map_append)
    then show ?thesis using bs(3) True by (auto simp: distinct_adj_snoc last_map)
  next
    case False
    then show ?thesis using bs(3) unfolding keep by (cases bs) (auto simp: distinct_adj_Cons split: list.splits)
  qed
  have len: "length keep < dpos_irreversible_need" unfolding keep using bs(4) by (cases bs) auto
  have less: "w < pk_num pre + 1" if "w \<le> pk_num pre" for w
    using that nxt by (auto simp: inc_less_eq_iff simp flip: not_le)
  show ?thesis
    using sub srt adj len bs(2) less
    by (auto simp: sorted_wrt_snoc distinct_adj_snoc last_map brief_of_def order_less_imp_le)
qed

lemma dpos_ok_chain: "pack_chain ps \<Longrightarrow> dpos_ok ps \<and> dpos_irreversible_num (last ps) = 0"
proof (induction rule: pack_chain.induct)
  case (first g)
  then show ?case by (simp add: dpos_ok_def)
next
  case (extend pre ps p)
  let ?bs = "last_block_of_builders pre"
  define keep where keep: "keep = (if ?bs \<noteq> [] \<and> brief_builder (last ?bs) = builder (new_header pre) then butlast ?bs
      else if length ?bs \<ge> dpos_irreversible_need then tl ?bs else ?bs)"
  note st = pack_step_dpos [OF extend.hyps(2)]
  have ok: "dpos_ok (pre # ps)" using extend.IH by simp
  have p: "last_block_of_builders p = keep @ [brief_of pre]"
    using st ok by (auto simp: keep Let_def dpos_ok_def split: if_splits)
  have b: "sorted_wrt (\<lambda>a b. brief_num a < brief_num b) (keep @ [brief_of pre]) \<and>
    (\<forall>b \<in> set (keep @ [brief_of pre]). brief_num b < pk_num pre + 1) \<and>
    distinct_adj (map brief_builder (keep @ [brief_of pre])) \<and>
    length (keep @ [brief_of pre]) \<le> dpos_irreversible_need \<and> set keep \<subseteq> set ?bs"
    using ok extend.hyps(3) keep by (intro briefs_snoc) (auto simp: dpos_ok_def Let_def)
  have sub: "set (keep @ [brief_of pre]) \<subseteq> brief_of ` set (pre # ps)"
    using b ok by (auto simp: dpos_ok_def Let_def)
  have irr: "(dpos_irreversible_num p = dpos_irreversible_num (last (pre # ps)) \<and>
        dpos_irreversible_id p = dpos_irreversible_id (last (pre # ps))) \<or>
      (\<exists>a \<in> set (pre # ps). pk_num a = dpos_irreversible_num p \<and> pk_id a = dpos_irreversible_id p \<and>
         (\<forall>b \<in> set (keep @ [brief_of pre]). dpos_irreversible_num p < brief_num b))"
  proof (cases "?bs \<noteq> [] \<and> brief_builder (last ?bs) \<noteq> builder (new_header pre) \<and> length ?bs \<ge> dpos_irreversible_need")
    case True
    then have "dpos_irreversible_num p = brief_num (hd ?bs)" "dpos_irreversible_id p = brief_id (hd ?bs)" "keep = tl ?bs"
      using st by (auto simp: Let_def keep)
    moreover have "hd ?bs \<in> set ?bs" using True by simp
    moreover have "\<forall>b \<in> set (tl ?bs). brief_num (hd ?bs) < brief_num b"
      using ok True by (cases ?bs) (auto simp: dpos_ok_def Let_def)
    moreover obtain a where "a \<in> set ps" "hd ?bs = brief_of a"
      using ok calculation(4) by (auto simp: dpos_ok_def Let_def)
    ultimately show ?thesis using ok by (auto simp: dpos_ok_def Let_def brief_of_def)
  next
    case False
    then have same: "dpos_irreversible_num p = dpos_irreversible_num pre" "dpos_irreversible_id p = dpos_irreversible_id pre"
      using st by (auto simp: Let_def)
    have "dpos_irreversible_num pre < pk_num pre"
      if "a \<in> set ps" "\<forall>b \<in> set ?bs. dpos_irreversible_num pre < brief_num b" for a
      using that ok by (cases ?bs) (auto simp: dpos_ok_def Let_def)
    then show ?thesis
      using ok same b by (auto simp: dpos_ok_def Let_def brief_of_def; blast)
  qed
  show ?case unfolding dpos_ok_def using b sub irr st p extend.IH by (simp add: Let_def)
qed

lemma pack_chain_ne: "pack_chain ps \<Longrightarrow> ps \<noteq> []"
  by (auto elim: pack_chain.cases)


lemma pack_chain_irreversible_mono:
  assumes "pack_chain (p # pre # ps)"
  shows "dpos_irreversible_num pre \<le> dpos_irreversible_num p \<and> dpos_irreversible_num p < pk_num p"
proof -
  have st: "pack_step pre p" "pack_chain (pre # ps)" using assms by (auto elim: pack_chain.cases)
  note ok = dpos_ok_chain [OF assms] dpos_ok_chain [OF st(2)]
  have ne: "last_block_of_builders p \<noteq> []" using pack_step_dpos [OF st(1)] by (auto simp: Let_def split: if_splits)
  have hd: "hd (last_block_of_builders p) \<in> set (last_block_of_builders p)" using ne by simp
  then have b: "brief_num (hd (last_block_of_builders p)) < pk_num p" using ok(1) by (auto simp: dpos_ok_def Let_def)
  have "dpos_irreversible_num p \<le> brief_num (hd (last_block_of_builders p))"
    using ok(1) hd by (auto simp: dpos_ok_def Let_def intro: order_less_imp_le)
  with b have lt: "dpos_irreversible_num p < pk_num p" by simp
  have "dpos_irreversible_num pre \<le> dpos_irreversible_num p"
    using pack_step_dpos [OF st(1)] ok(2)
    by (cases "last_block_of_builders pre") (auto simp: dpos_ok_def Let_def split: if_splits)
  with lt show ?thesis by simp
qed

lemma briefs_changing_builders:
  "pack_chain ps \<Longrightarrow> distinct_adj (map (\<lambda>p. builder (new_header p)) (tl ps)) \<Longrightarrow>
   last_block_of_builders (hd ps) = map brief_of (rev (take dpos_irreversible_need (tl ps))) \<and>
   (length ps > 15 \<longrightarrow> dpos_irreversible_num (hd ps) = pk_num (ps ! 15) \<and> dpos_irreversible_id (hd ps) = pk_id (ps ! 15))"
proof (induction rule: pack_chain.induct)
  case (first g)
  then show ?case by simp
next
  case (extend pre ps p)
  define bs where "bs = last_block_of_builders pre"
  have ih: "bs = map brief_of (rev (take 14 ps))"
    using extend by (auto simp: bs_def distinct_adj_Cons split: list.splits)
  have lst: "bs \<noteq> [] \<Longrightarrow> brief_builder (last bs) \<noteq> builder (new_header pre)"
    using extend.prems by (cases ps) (auto simp: ih brief_of_def last_map last_rev)
  have st: "last_block_of_builders p = (if length bs \<ge> 14 then tl bs else bs) @ [brief_of pre]"
    "length bs \<ge> 14 \<Longrightarrow> dpos_irreversible_num p = brief_num (hd bs) \<and> dpos_irreversible_id p = brief_id (hd bs)"
    using pack_step_dpos [OF extend.hyps(2)] lst by (auto simp: Let_def bs_def split: if_splits)
  show ?case
  proof (cases "length ps \<ge> 14")
    case True
    then have tk: "take 14 ps = take 13 ps @ [ps ! 13]" using take_Suc_conv_app_nth [of 13 ps] by simp
    have "length bs = 14" using True by (simp add: ih min_def)
    then show ?thesis using st True by (simp add: ih tk brief_of_def)
  next
    case False
    then show ?thesis using st by (simp add: ih)
  qed
qed

section \<open>A concrete chain\<close>

text \<open>A rule with two builders, its first pack, and the packs of the following slots.\<close>

definition two_rule :: builder_rule where
  "two_rule = \<lparr>rule_version = 0, rule_builders = [\<lparr>builder_name = 5, block_signing_key = empty_public_key\<rparr>,
     \<lparr>builder_name = 7, block_signing_key = empty_public_key\<rparr>]\<rparr>"

definition three_rule :: builder_rule where
  "three_rule = two_rule\<lparr>rule_builders := rule_builders two_rule @ [\<lparr>builder_name = 9, block_signing_key = empty_public_key\<rparr>]\<rparr>"

fun turns :: "nat \<Rightarrow> block_pack list" where
  "turns 0 = [init_default 100 (rule_builders two_rule ! 0) two_rule new_pack]"
| "turns (Suc n) = (case turns n of [] \<Rightarrow> [] | p # ps \<Rightarrow>
     (case init_by_pre_pack p (timestamp (new_header p) + 1) True new_pack of Inl _ \<Rightarrow> [] | Inr q \<Rightarrow> q # p # ps))"

lemma turns_chain:
  "(\<forall>p \<in> set (turns n). pk_num p < - 1) \<Longrightarrow> turns n \<noteq> [] \<Longrightarrow> pack_chain (turns n)"
proof (induction n)
  case 0
  then show ?case by (auto intro!: pack_chain.first simp: init_default_def new_pack_def Let_def)
next
  case (Suc n)
  then obtain p ps q where q: "turns n = p # ps" "init_by_pre_pack p (timestamp (new_header p) + 1) True new_pack = Inr q"
    "turns (Suc n) = q # p # ps"
    by (auto split: list.splits sum.splits)
  have "pack_step p q" unfolding pack_step_def using q(2) by blast
  moreover have "pk_num p < - 1" using Suc.prems(1) unfolding q(3) by simp
  moreover have "pack_chain (p # ps)" using Suc.IH Suc.prems(1) q(1) unfolding q(3) by simp
  ultimately show ?case unfolding q(3) by (intro pack_chain.extend)
qed

section \<open>Properties\<close>

text \<open>
  C6. Confirmations of the verifiers can never confirm a block when there are three or more builders. Whatever
  confirmations arrive for a pack that has none yet, valid or not, \<^verbatim>\<open>add_confirmation\<close> with the default
  checks stores at most one of them (it returns as soon as the pack has any confirmation), so that
  \<^verbatim>\<open>enough_confirmation\<close> stays false.
\<close>

theorem confirmations_never_enough:
  assumes "confirmations p = []" and "rule_number (current_builders p) \<ge> 3"
  shows "length (confirmations (receive_confirmations cr 0 cs p)) \<le> 1 \<and>
    \<not> enough_confirmation (receive_confirmations cr 0 cs p)"
proof -
  have "length (confirmations (receive_confirmations cr 0 cs p)) \<le> 1"
    "current_builders (receive_confirmations cr 0 cs p) = current_builders p"
    using receive_confirmations_stuck [of p cr cs] assms(1) by auto
  with assms(2) show ?thesis unfolding enough_confirmation_def by auto
qed

theorem confirmations_never_enough_witness:
  "\<not> enough_confirmation (receive_confirmations
     \<lparr>cr_header = \<lambda>_. empty_sha256, cr_confirmation = \<lambda>_. empty_sha256, cr_receipt = \<lambda>_. empty_sha256,
       cr_transaction = \<lambda>_. empty_sha256, cr_pair = \<lambda>_. empty_sha256,
       cr_recover = \<lambda>_ _. Some empty_public_key, cr_sign = \<lambda>_ _. []\<rparr> 0
     (replicate 9 \<lparr>conf_block_id = empty_sha256, conf_verifier = 7, conf_signature = []\<rparr>)
     (new_pack\<lparr>current_builders := three_rule\<rparr>))"
  by (rule conjunct2, rule confirmations_never_enough)
    (simp_all add: new_pack_def three_rule_def two_rule_def rule_number_def)

lemma slot_in_round:
  fixes s i n :: nat
  assumes "i < n"
  shows "\<exists>d. 1 \<le> d \<and> d \<le> n \<and> (s + d) mod n = i"
proof -
  let ?d = "(i + s * (n - 1) + (n - 1)) mod n + 1"
  have n: "n > 0" using assms by simp
  have "(s + ?d) mod n = (s + 1 + (i + s * (n - 1) + (n - 1))) mod n"
    by (simp add: add.commute add.left_commute mod_add_left_eq mod_add_right_eq)
      (metis (no_types, lifting) add.assoc add.commute mod_Suc_eq mod_add_right_eq)
  also have "s + 1 + (i + s * (n - 1) + (n - 1)) = i + (s + 1) * n"
    using n by (cases n) (auto simp: algebra_simps)
  finally have "(s + ?d) mod n = i" using assms by (simp only: mod_mult_self1 mod_less)
  moreover have "1 \<le> ?d \<and> ?d \<le> n" using n by (simp add: Suc_leI)
  ultimately show ?thesis by blast
qed



text \<open>
  C3. The dPoS irreversible block is a real one and only moves forward. On every chain of packs grown from a first
  pack by \<^verbatim>\<open>init_by_pre_pack\<close>, the irreversible number of the head is below the head's, is not
  below its predecessor's, and number and identifier are those of an ancestor, or still those of the first pack.
\<close>

theorem dpos_irreversible_ancestor:
  assumes "pack_chain (p # pre # ps)"
  shows "dpos_irreversible_num pre \<le> dpos_irreversible_num p \<and> dpos_irreversible_num p < pk_num p \<and>
    ((dpos_irreversible_num p = 0 \<and> dpos_irreversible_id p = dpos_irreversible_id (last (pre # ps))) \<or>
     (\<exists>a \<in> set (pre # ps). pk_num a = dpos_irreversible_num p \<and> pk_id a = dpos_irreversible_id p))"
  using dpos_ok_chain [OF assms] pack_chain_irreversible_mono [OF assms]
  by (auto simp: dpos_ok_def Let_def)

theorem dpos_irreversible_ancestor_witness:
  "dpos_irreversible_num (turns 18 ! 0) = 4 \<and> dpos_irreversible_num (turns 18 ! 0) < pk_num (turns 18 ! 0) \<and>
   dpos_irreversible_num (turns 18 ! 1) \<le> dpos_irreversible_num (turns 18 ! 0)"
proof -
  have "pack_chain (turns 18)" by (rule turns_chain) code_simp+
  moreover have "turns 18 = turns 18 ! 0 # turns 18 ! 1 # drop 2 (turns 18)" by code_simp
  ultimately have "pack_chain (turns 18 ! 0 # turns 18 ! 1 # drop 2 (turns 18))" by simp
  moreover have "dpos_irreversible_num (turns 18 ! 0) = 4" by code_simp
  ultimately show ?thesis using dpos_irreversible_ancestor by blast
qed

text \<open>
  C4. Irreversibility needs no majority of builders. As long as no two consecutive blocks have the same builder, the
  block fifteen back from the head is irreversible, with its number and identifier; only neighbouring builders are
  ever compared, so that two builders who take turns make each other's blocks irreversible, whatever the number of
  builders in the rule.
\<close>

theorem changing_builders_finality:
  assumes "pack_chain ps" and "length ps > 15" and "distinct_adj (map (\<lambda>p. builder (new_header p)) (tl ps))"
  shows "dpos_irreversible_num (hd ps) = pk_num (ps ! 15) \<and> dpos_irreversible_id (hd ps) = pk_id (ps ! 15)"
  using briefs_changing_builders [OF assms(1,3)] assms(2) by simp

theorem changing_builders_finality_witness:
  "set (map (\<lambda>p. builder (new_header p)) (turns 18)) = {5, 7} \<and>
   dpos_irreversible_num (hd (turns 18)) = pk_num (turns 18 ! 15)"
proof -
  have "pack_chain (turns 18)" by (rule turns_chain) code_simp+
  moreover have "length (turns 18) > 15" by code_simp
  moreover have "distinct_adj (map (\<lambda>p. builder (new_header p)) (tl (turns 18)))" by code_simp
  moreover have "set (map (\<lambda>p. builder (new_header p)) (turns 18)) = {5, 7}" by code_simp
  ultimately show ?thesis using changing_builders_finality by blast
qed

end
