(* ===== verification/Chain_Fork.thy ===== *)
theory Chain_Fork
  imports Ordered_Index Chain_Block
begin

text \<open>
  The fork database (\<^verbatim>\<open>forkchain.cpp\<close>): the packs of all blocks since the last confirmed one, the choice of
  the head, confirmation of a block with everything that depends on it, the removal of bad branches and the
  search for the point where two branches part.

  Packs are shared pointers, so there is a heap of packs, and the indices hold addresses.
  An operation that throws gives the exception together with the state it leaves. The handler of irreversible
  blocks belongs to the chain; it is the argument \<open>irr\<close>, a function on a state of its own.
\<close>

section \<open>State\<close>

record fork_context =
  fc_heap :: "nat \<Rightarrow> block_pack"
  fc_next :: nat
  fc_ids :: "nat list"
  fc_pre :: "nat list"
  fc_number :: "nat list"
  fc_longest :: "nat list"
  fc_head :: "nat option"
  fc_allblocks :: "nat list"

type_synonym 'st thrown = "(chain_exc \<times> 'st) + 'st"
type_synonym 's irr_handle = "block_pack \<Rightarrow> 's \<Rightarrow> 's thrown"

definition empty_fork :: fork_context where
  "empty_fork = \<lparr>fc_heap = (\<lambda>_. new_pack), fc_next = 0, fc_ids = [], fc_pre = [], fc_number = [], fc_longest = [],
     fc_head = None, fc_allblocks = []\<rparr>"

abbreviation pack_at :: "fork_context \<Rightarrow> nat \<Rightarrow> block_pack" where
  "pack_at c p \<equiv> fc_heap c p"

definition number_key :: "block_pack \<Rightarrow> u32 \<times> bool" where
  "number_key p = (pk_num p, main_chain p)"

definition longest_key :: "block_pack \<Rightarrow> u32 \<times> u32 \<times> u32 \<times> bool" where
  "longest_key p = (last_confirmed_num p, dpos_irreversible_num p, pk_num p, main_chain p)"

section \<open>The container\<close>

definition packs_find :: "fork_context \<Rightarrow> sha256 \<Rightarrow> nat option" where
  "packs_find c i = List.find (\<lambda>p. pk_id (pack_at c p) = i) (fc_ids c)"

text \<open>\<open>None\<close>: an element with this identifier is there already.\<close>

definition packs_insert :: "nat \<Rightarrow> fork_context \<Rightarrow> fork_context option" where
  "packs_insert p c =
     (if packs_find c (pk_id (pack_at c p)) \<noteq> None then None
      else Some (c\<lparr>fc_ids := fc_ids c @ [p],
        fc_pre := oi_insert sha256_less (\<lambda>q. prev_id (pack_at c q)) p (fc_pre c),
        fc_number := oi_insert number_less (\<lambda>q. number_key (pack_at c q)) p (fc_number c),
        fc_longest := oi_insert longest_less (\<lambda>q. longest_key (pack_at c q)) p (fc_longest c)\<rparr>))"

definition packs_erase :: "nat \<Rightarrow> fork_context \<Rightarrow> fork_context" where
  "packs_erase p c = c\<lparr>fc_ids := remove1 p (fc_ids c), fc_pre := remove1 p (fc_pre c),
     fc_number := remove1 p (fc_number c), fc_longest := remove1 p (fc_longest c)\<rparr>"

definition packs_modify :: "nat \<Rightarrow> (block_pack \<Rightarrow> block_pack) \<Rightarrow> fork_context \<Rightarrow> fork_context" where
  "packs_modify p f c =
     (let h = (fc_heap c)(p := f (pack_at c p))
      in c\<lparr>fc_heap := h,
        fc_pre := oi_replace sha256_less (\<lambda>q. prev_id (h q)) p (fc_pre c),
        fc_number := oi_replace number_less (\<lambda>q. number_key (h q)) p (fc_number c),
        fc_longest := oi_replace longest_less (\<lambda>q. longest_key (h q)) p (fc_longest c)\<rparr>)"

section \<open>fork\_context\<close>

definition get_block :: "fork_context \<Rightarrow> sha256 \<Rightarrow> nat option" where
  "get_block c i = packs_find c i"

text \<open>The key of \<^verbatim>\<open>lower_bound(num)\<close> is the number alone.\<close>

definition get_main_block_by_num :: "fork_context \<Rightarrow> u32 \<Rightarrow> nat option" where
  "get_main_block_by_num c num =
     (case dropWhile (\<lambda>p. pk_num (pack_at c p) < num) (fc_number c) of
        [] \<Rightarrow> None
      | p # _ \<Rightarrow> if pk_num (pack_at c p) \<noteq> num \<or> \<not> main_chain (pack_at c p) then None else Some p)"

text \<open>\<^verbatim>\<open>*begin()\<close> of an empty index is undefined.\<close>

definition update_head :: "fork_context \<Rightarrow> fork_context thrown" where
  "update_head c = (case fc_longest c of [] \<Rightarrow> Inl (Undefined, c) | p # _ \<Rightarrow> Inr (c\<lparr>fc_head := Some p\<rparr>))"

definition set_confirmed :: "u32 \<Rightarrow> sha256 \<Rightarrow> block_pack \<Rightarrow> block_pack" where
  "set_confirmed num i p = p\<lparr>last_block_num := num, last_confirmed_num := num, last_confirmed_id := i\<rparr>"

text \<open>
  The loops of \<^verbatim>\<open>set_last_confirmed\<close>. The first and the second follow the links between the packs; as they
  change neither identifiers nor links, they do not end exactly if they visit more packs than there are.
\<close>

fun confirm_back :: "nat \<Rightarrow> u32 \<Rightarrow> sha256 \<Rightarrow> sha256 \<Rightarrow> fork_context \<Rightarrow> fork_context thrown" where
  "confirm_back n num i pre_id c =
     (case packs_find c pre_id of
        None \<Rightarrow> Inr c
      | Some q \<Rightarrow> if pre_id = empty_sha256 then Inr c
        else (case n of 0 \<Rightarrow> Inl (NoReturn, c)
          | Suc m \<Rightarrow> confirm_back m num i (prev_id (pack_at c q)) (packs_modify q (set_confirmed num i) c)))"

fun next_ids :: "nat \<Rightarrow> nat \<Rightarrow> sha256 list \<Rightarrow> fork_context \<Rightarrow> sha256 list option" where
  "next_ids n i idlist c =
     (if i < length idlist
      then (case n of 0 \<Rightarrow> None
        | Suc m \<Rightarrow> next_ids m (Suc i) (idlist @ map (\<lambda>p. pk_id (pack_at c p))
            (equal_range sha256_less (\<lambda>q. prev_id (pack_at c q)) (idlist ! i) (fc_pre c))) c)
      else Some idlist)"

declare confirm_back.simps [simp del] next_ids.simps [simp del]

fun confirm_ids :: "u32 \<Rightarrow> sha256 \<Rightarrow> sha256 list \<Rightarrow> fork_context \<Rightarrow> fork_context" where
  "confirm_ids num i [] c = c"
| "confirm_ids num i (j # js) c =
     confirm_ids num i js (case packs_find c j of None \<Rightarrow> c | Some q \<Rightarrow> packs_modify q (set_confirmed num i) c)"

definition set_last_confirmed :: "sha256 \<Rightarrow> fork_context \<Rightarrow> fork_context thrown" where
  "set_last_confirmed last_id c =
     (case packs_find c last_id of
        None \<Rightarrow> Inl (FcAssert, c)
      | Some cp \<Rightarrow>
        let num = pk_num (pack_at c cp);
            c1 = packs_modify cp (set_confirmed num last_id) c
        in case confirm_back (length (fc_ids c)) num last_id (prev_id (pack_at c1 cp)) c1 of
          Inl e \<Rightarrow> Inl e
        | Inr c2 \<Rightarrow>
          (case next_ids (length (fc_ids c)) 0 [last_id] c2 of
             None \<Rightarrow> Inl (NoReturn, c2)
           | Some idlist \<Rightarrow> Inr (confirm_ids num last_id (tl idlist) c2)))"

fun fire_irreversible :: "'s irr_handle \<Rightarrow> sha256 list \<Rightarrow> 's \<times> fork_context \<Rightarrow> ('s \<times> fork_context) thrown" where
  "fire_irreversible irr [] (s, c) = Inr (s, c)"
| "fire_irreversible irr (j # js) (s, c) =
     (case get_block c j of
        None \<Rightarrow> Inl (Undefined, s, c)
      | Some p \<Rightarrow> (case irr (pack_at c p) s of
          Inl (e, s') \<Rightarrow> Inl (e, s', c)
        | Inr s' \<Rightarrow> fire_irreversible irr js
            (s', c\<lparr>fc_heap := (fc_heap c)(p := (pack_at c p)\<lparr>irreversible_confirmed := True\<rparr>)\<rparr>)))"

fun erase_ids :: "sha256 list \<Rightarrow> fork_context \<Rightarrow> fork_context" where
  "erase_ids [] c = c"
| "erase_ids (j # js) c = erase_ids js (case packs_find c j of None \<Rightarrow> c | Some q \<Rightarrow> packs_erase q c)"

definition on_last_confirmed_grow ::
  "'s irr_handle \<Rightarrow> sha256 \<Rightarrow> u32 \<Rightarrow> 's \<times> fork_context \<Rightarrow> ('s \<times> fork_context) thrown" where
  "on_last_confirmed_grow irr i num sc =
     (let c = snd sc;
          scan = map (pack_at c) (takeWhile (\<lambda>p. pk_num (pack_at c p) \<le> num) (fc_number c));
          confirmedlist = map pk_id (filter (\<lambda>p. last_confirmed_id p = i \<and> \<not> irreversible_confirmed p) scan);
          remlist = map pk_id (filter (\<lambda>p. last_confirmed_id p = i \<longrightarrow> pk_id p \<noteq> i) scan)
      in case fire_irreversible irr confirmedlist sc of
        Inl e \<Rightarrow> Inl e
      | Inr (s, c) \<Rightarrow> Inr (s, erase_ids remlist c))"

definition fork_add_pack ::
  "crypto \<Rightarrow> 's irr_handle \<Rightarrow> nat \<Rightarrow> 's \<times> fork_context \<Rightarrow> ('s \<times> fork_context) thrown" where
  "fork_add_pack cr irr p sc =
     (case sc of (s, c) \<Rightarrow>
      if pk_id (pack_at c p) \<noteq> header_id cr (pk_block (pack_at c p)) then Inl (FcAssert, s, c)
      else case packs_insert p c of
        None \<Rightarrow> Inl (FcAssert, s, c)
      | Some c \<Rightarrow> (case update_head (c\<lparr>fc_allblocks := fc_allblocks c @ [p]\<rparr>) of
          Inl (e, c) \<Rightarrow> Inl (e, s, c)
        | Inr c \<Rightarrow> (case (fc_number c, fc_head c) of
            (e # _, Some h) \<Rightarrow>
              let earliest = pack_at c e; head = pack_at c h
              in if pk_num earliest < last_confirmed_num head
                 then on_last_confirmed_grow irr (last_confirmed_id head) (last_confirmed_num head) (s, c)
                 else if pk_num earliest < dpos_irreversible_num head
                 then (case set_last_confirmed (dpos_irreversible_id head) c of
                     Inl (e, c) \<Rightarrow> Inl (e, s, c)
                   | Inr c \<Rightarrow> on_last_confirmed_grow irr (dpos_irreversible_id head) (dpos_irreversible_num head) (s, c))
                 else Inr (s, c)
          | _ \<Rightarrow> Inl (Undefined, s, c))))"

text \<open>The pack of a received block; the result is its address.\<close>

definition fork_add_block ::
  "crypto \<Rightarrow> 's irr_handle \<Rightarrow> signed_block \<Rightarrow> 's \<times> fork_context \<Rightarrow> (chain_exc \<times> 's \<times> fork_context) + (nat \<times> 's \<times> fork_context)" where
  "fork_add_block cr irr b sc =
     (case sc of (s, c) \<Rightarrow>
      case packs_find c (previous b) of
        None \<Rightarrow> Inl (FcAssert, s, c)
      | Some pre \<Rightarrow> (case init_by_pre_pack (pack_at c pre) (timestamp b) False new_pack of
          Inl e \<Rightarrow> Inl (e, s, c)
        | Inr pack \<Rightarrow>
          if builder (new_header pack) \<noteq> builder b then Inl (BlockAttack, s, c)
          else case is_signer_valid cr (block_signing_key (bld_info pack)) b of
            Inl e \<Rightarrow> Inl (e, s, c)
          | Inr False \<Rightarrow> Inl (BlockAttack, s, c)
          | Inr True \<Rightarrow>
            let p = fc_next c;
                c = c\<lparr>fc_heap := (fc_heap c)(p := generate_by_block cr b pack), fc_next := Suc p\<rparr>
            in case fork_add_pack cr irr p (s, c) of Inl e \<Rightarrow> Inl e | Inr sc \<Rightarrow> Inr (p, sc)))"

definition force_confirm ::
  "'s irr_handle \<Rightarrow> sha256 \<Rightarrow> u32 \<Rightarrow> 's \<times> fork_context \<Rightarrow> ('s \<times> fork_context) thrown" where
  "force_confirm irr i num sc =
     (case set_last_confirmed i (snd sc) of
        Inl (e, c) \<Rightarrow> Inl (e, fst sc, c)
      | Inr c \<Rightarrow> on_last_confirmed_grow irr i num (fst sc, c))"

section \<open>remove\_chain\<close>

text \<open>
  The list of blocks to remove from the position of the loop on. Every round removes one block and appends all
  blocks from \<^verbatim>\<open>lower_bound\<close> to the end of the index of predecessors.
\<close>

definition remove_round :: "sha256 \<Rightarrow> fork_context \<Rightarrow> fork_context \<times> sha256 list" where
  "remove_round i c =
     (let c = (case packs_find c i of None \<Rightarrow> c | Some q \<Rightarrow> packs_erase q c)
      in (c, map (\<lambda>p. pk_id (pack_at c p)) (lower_bound sha256_less (\<lambda>q. prev_id (pack_at c q)) i (fc_pre c))))"

partial_function (option) remove_loop :: "sha256 list \<Rightarrow> fork_context \<Rightarrow> fork_context option" where
  "remove_loop remove_blocks c =
     (case remove_blocks of [] \<Rightarrow> Some c
      | i # js \<Rightarrow> (case remove_round i c of (c, children) \<Rightarrow> remove_loop (js @ children) c))"

declare remove_loop.simps [code]

definition remove_chain :: "sha256 \<Rightarrow> fork_context \<Rightarrow> fork_context thrown" where
  "remove_chain begin_id c = (case remove_loop [begin_id] c of None \<Rightarrow> Inl (NoReturn, c) | Some c \<Rightarrow> update_head c)"

section \<open>forkdatabase\<close>

text \<open>
  The file \<^verbatim>\<open>fork_memory.bin\<close> after unpacking: its header and the packs that could be read. Too few packs
  for the size in the header is the \<^verbatim>\<open>out_of_range_exception\<close> that leaves the head unset.
\<close>

record fork_file =
  ff_size :: u32
  ff_head_id :: sha256
  ff_packs :: "block_pack list"

fun fork_load_packs :: "nat \<Rightarrow> block_pack list \<Rightarrow> fork_context \<Rightarrow> bool \<times> fork_context" where
  "fork_load_packs 0 ps c = (True, c)"
| "fork_load_packs (Suc n) [] c = (False, c)"
| "fork_load_packs (Suc n) (p # ps) c =
     (let a = fc_next c; c = c\<lparr>fc_heap := (fc_heap c)(a := p), fc_next := Suc a\<rparr>
      in fork_load_packs n ps (case packs_insert a c of None \<Rightarrow> c | Some c \<Rightarrow> c))"

definition fork_open :: "fork_file option \<Rightarrow> fork_context" where
  "fork_open file =
     (case file of None \<Rightarrow> empty_fork
      | Some f \<Rightarrow> (case fork_load_packs (unat (ff_size f)) (ff_packs f) empty_fork of
          (ok, c) \<Rightarrow> if ok then c\<lparr>fc_head := get_block c (ff_head_id f)\<rparr> else c))"

definition fork_close :: "fork_context \<Rightarrow> chain_exc + fork_file option" where
  "fork_close c =
     (if fc_ids c = [] then Inr None
      else case fc_head c of None \<Rightarrow> Inl Undefined
      | Some h \<Rightarrow> Inr (Some \<lparr>ff_size = of_nat (length (fc_ids c)), ff_head_id = pk_id (pack_at c h),
          ff_packs = map (pack_at c) (fc_ids c)\<rparr>))"

definition fork_add_confirmation ::
  "crypto \<Rightarrow> block_confirmation \<Rightarrow> u32 \<Rightarrow> fork_context \<Rightarrow> fork_context thrown" where
  "fork_add_confirmation cr conf skip c =
     (case get_block c (conf_block_id conf) of
        None \<Rightarrow> Inl (FcAssert, c)
      | Some p \<Rightarrow> (case add_confirmation cr conf skip (pack_at c p) of
          Inl e \<Rightarrow> Inl (e, c)
        | Inr pack \<Rightarrow>
          let c = c\<lparr>fc_heap := (fc_heap c)(p := pack)\<rparr>
          in if enough_confirmation pack \<and> last_confirmed_num pack < pk_num pack
             then set_last_confirmed (pk_id pack) c else Inr c))"

definition change_main_chain_flag :: "sha256 \<Rightarrow> bool \<Rightarrow> fork_context \<Rightarrow> fork_context thrown" where
  "change_main_chain_flag i flag c =
     (case packs_find c i of
        None \<Rightarrow> Inl (FcAssert, c)
      | Some p \<Rightarrow> if main_chain (pack_at c p) = flag then Inr c
        else Inr (packs_modify p (\<lambda>q. q\<lparr>main_chain := flag\<rparr>) c))"

record fetch_branch =
  fork_node :: nat
  first_branch :: "nat list"
  second_branch :: "nat list"

text \<open>
  The loops of \<^verbatim>\<open>fetch_branch_from_fork\<close>: going down from one block to the number of the other, and down both
  branches together. They visit different (pairs of) packs or do not end.
\<close>

fun walk_down :: "nat \<Rightarrow> fork_context \<Rightarrow> nat \<Rightarrow> u32 \<Rightarrow> nat list \<Rightarrow> chain_exc + (nat \<times> nat list)" where
  "walk_down n c b num acc =
     (if pk_num (pack_at c b) > num
      then (case n of 0 \<Rightarrow> Inl NoReturn
        | Suc m \<Rightarrow> (case get_block c (prev_id (pack_at c b)) of
            None \<Rightarrow> Inl FcAssert | Some b' \<Rightarrow> walk_down m c b' num (acc @ [b])))
      else Inr (b, acc))"

fun walk_both :: "nat \<Rightarrow> fork_context \<Rightarrow> nat \<Rightarrow> nat \<Rightarrow> nat list \<Rightarrow> nat list \<Rightarrow> chain_exc + (nat \<times> nat list \<times> nat list)" where
  "walk_both n c b1 b2 acc1 acc2 =
     (if pk_id (pack_at c b1) \<noteq> pk_id (pack_at c b2)
      then (case n of 0 \<Rightarrow> Inl NoReturn
        | Suc m \<Rightarrow> (case (get_block c (prev_id (pack_at c b1)), get_block c (prev_id (pack_at c b2))) of
            (Some d1, Some d2) \<Rightarrow> walk_both m c d1 d2 (acc1 @ [b1]) (acc2 @ [b2])
          | _ \<Rightarrow> Inl FcAssert))
      else Inr (b1, acc1, acc2))"

declare walk_down.simps [simp del] walk_both.simps [simp del]

definition fetch_branch_from_fork :: "fork_context \<Rightarrow> sha256 \<Rightarrow> sha256 \<Rightarrow> chain_exc + fetch_branch" where
  "fetch_branch_from_fork c firstid secondid =
     (case (get_block c firstid, get_block c secondid) of
        (Some b1, Some b2) \<Rightarrow>
          (case walk_down (length (fc_ids c)) c b1 (pk_num (pack_at c b2)) [] of
             Inl e \<Rightarrow> Inl e
           | Inr (b1, fst_acc) \<Rightarrow>
             (case walk_down (length (fc_ids c)) c b2 (pk_num (pack_at c b1)) [] of
                Inl e \<Rightarrow> Inl e
              | Inr (b2, snd_acc) \<Rightarrow>
                if pk_num (pack_at c b1) \<noteq> pk_num (pack_at c b2) then Inl FcAssert
                else (case walk_both (length (fc_ids c) * length (fc_ids c)) c b1 b2 fst_acc snd_acc of
                   Inl e \<Rightarrow> Inl e
                 | Inr (b, xs, ys) \<Rightarrow> (case get_block c (pk_id (pack_at c b)) of
                     None \<Rightarrow> Inl FcAssert
                   | Some f \<Rightarrow> Inr \<lparr>fork_node = f, first_branch = xs, second_branch = ys\<rparr>))))
      | _ \<Rightarrow> Inl FcAssert)"

end
