(* ===== verification/Chain_Fork_Confirm.thy ===== *)
theory Chain_Fork_Confirm
  imports Chain_Fork
begin

text \<open>
  The invariant of the fork database (its four indices hold the same packs, each in its order, with different
  identifiers, every pack linked to its predecessor by number), that the container's operations keep it, and what
  \<^verbatim>\<open>set_last_confirmed\<close> does: it ends, and settles exactly the ancestors and descendants of the block.
\<close>

section \<open>The invariant\<close>

definition pack_linked :: "block_pack \<Rightarrow> bool" where
  "pack_linked p \<longleftrightarrow> pk_num p = num_from_id (pk_id p) \<and> pk_num p = num_from_id (prev_id p) + 1 \<and> pk_num p \<noteq> 0"

definition fork_ok :: "fork_context \<Rightarrow> bool" where
  "fork_ok c \<longleftrightarrow> distinct (fc_ids c) \<and> inj_on (\<lambda>p. pk_id (pack_at c p)) (set (fc_ids c)) \<and>
     set (fc_pre c) = set (fc_ids c) \<and> distinct (fc_pre c) \<and> oi_sorted sha256_less (\<lambda>p. prev_id (pack_at c p)) (fc_pre c) \<and>
     set (fc_number c) = set (fc_ids c) \<and> distinct (fc_number c) \<and> oi_sorted number_less (\<lambda>p. number_key (pack_at c p)) (fc_number c) \<and>
     set (fc_longest c) = set (fc_ids c) \<and> distinct (fc_longest c) \<and> oi_sorted longest_less (\<lambda>p. longest_key (pack_at c p)) (fc_longest c) \<and>
     (\<forall>p \<in> set (fc_ids c). pack_linked (pack_at c p) \<and> p < fc_next c)"

lemma fork_okD:
  assumes "fork_ok c"
  shows "distinct (fc_ids c)" "inj_on (\<lambda>p. pk_id (pack_at c p)) (set (fc_ids c))"
    "set (fc_pre c) = set (fc_ids c)" "distinct (fc_pre c)" "oi_sorted sha256_less (\<lambda>p. prev_id (pack_at c p)) (fc_pre c)"
    "set (fc_number c) = set (fc_ids c)" "distinct (fc_number c)" "oi_sorted number_less (\<lambda>p. number_key (pack_at c p)) (fc_number c)"
    "set (fc_longest c) = set (fc_ids c)" "distinct (fc_longest c)" "oi_sorted longest_less (\<lambda>p. longest_key (pack_at c p)) (fc_longest c)"
    "\<And>p. p \<in> set (fc_ids c) \<Longrightarrow> pack_linked (pack_at c p)" "\<And>p. p \<in> set (fc_ids c) \<Longrightarrow> p < fc_next c"
  using assms by (simp_all add: fork_ok_def)

lemma empty_fork_ok: "fork_ok empty_fork"
  by (simp add: fork_ok_def empty_fork_def oi_sorted_def)

lemma packs_find_member: "packs_find c i = Some p \<Longrightarrow> p \<in> set (fc_ids c) \<and> pk_id (pack_at c p) = i"
  unfolding packs_find_def by (rule find_SomeD)

lemma packs_find_None: "packs_find c i = None \<longleftrightarrow> (\<forall>p \<in> set (fc_ids c). pk_id (pack_at c p) \<noteq> i)"
  by (auto simp: packs_find_def find_None_iff)

lemma packs_find_Some:
  assumes "fork_ok c"
  shows "packs_find c i = Some p \<longleftrightarrow> p \<in> set (fc_ids c) \<and> pk_id (pack_at c p) = i"
proof (cases "packs_find c i")
  case None
  then show ?thesis using packs_find_None [of c i] by auto
next
  case (Some q)
  then show ?thesis using packs_find_member [OF Some] fork_okD(2) [OF assms] by (auto dest: inj_onD)
qed

section \<open>The container keeps it\<close>

lemma packs_insert_ok:
  assumes ok: "fork_ok c" and ins: "packs_insert p c = Some c'" and p: "pack_linked (pack_at c p)" "p < fc_next c"
  shows "fork_ok c' \<and> set (fc_ids c') = insert p (set (fc_ids c)) \<and> p \<notin> set (fc_ids c) \<and> fc_heap c' = fc_heap c \<and> fc_next c' = fc_next c \<and> fc_head c' = fc_head c"
proof -
  note d = fork_okD [OF ok]
  have new: "\<forall>q \<in> set (fc_ids c). pk_id (pack_at c q) \<noteq> pk_id (pack_at c p)"
    using ins by (auto simp: packs_insert_def packs_find_None split: if_splits)
  have nin: "p \<notin> set (fc_ids c)" using new by auto
  have c': "c' = c\<lparr>fc_ids := fc_ids c @ [p],
        fc_pre := oi_insert sha256_less (\<lambda>q. prev_id (pack_at c q)) p (fc_pre c),
        fc_number := oi_insert number_less (\<lambda>q. number_key (pack_at c q)) p (fc_number c),
        fc_longest := oi_insert longest_less (\<lambda>q. longest_key (pack_at c q)) p (fc_longest c)\<rparr>"
    using ins by (simp add: packs_insert_def split: if_splits)
  have "inj_on (\<lambda>p. pk_id (pack_at c p)) (insert p (set (fc_ids c)))"
    using d(2) new nin by (simp add: inj_on_insert) (metis imageE)
  then have "fork_ok c'"
    using d p nin pre_order.insert_sorted [OF d(5), of p] number_order.insert_sorted [OF d(8), of p]
      longest_order.insert_sorted [OF d(11), of p]
    by (simp add: fork_ok_def c')
  then show ?thesis using nin by (simp add: c')
qed

lemma packs_erase_ok:
  assumes ok: "fork_ok c"
  shows "fork_ok (packs_erase p c)" "set (fc_ids (packs_erase p c)) = set (fc_ids c) - {p}"
    "fc_heap (packs_erase p c) = fc_heap c" "fc_next (packs_erase p c) = fc_next c" "fc_head (packs_erase p c) = fc_head c"
proof -
  note d = fork_okD [OF ok]
  show "fork_ok (packs_erase p c)"
    using d pre_order.sorted_remove1 [OF d(5), of p] number_order.sorted_remove1 [OF d(8), of p]
      longest_order.sorted_remove1 [OF d(11), of p]
    by (auto simp: fork_ok_def packs_erase_def intro: inj_on_subset)
  show "set (fc_ids (packs_erase p c)) = set (fc_ids c) - {p}" using d by (simp add: packs_erase_def)
qed (simp_all add: packs_erase_def)

definition same_place :: "block_pack \<Rightarrow> block_pack \<Rightarrow> bool" where
  "same_place p q \<longleftrightarrow> pk_id p = pk_id q \<and> prev_id p = prev_id q \<and> pk_num p = pk_num q"

lemma pack_linked_same_place: "same_place p q \<Longrightarrow> pack_linked p \<longleftrightarrow> pack_linked q"
  by (simp add: same_place_def pack_linked_def)

lemma packs_modify_fields [simp]:
  "fc_ids (packs_modify p f c) = fc_ids c" "fc_next (packs_modify p f c) = fc_next c" "fc_head (packs_modify p f c) = fc_head c"
  "fc_heap (packs_modify p f c) = (fc_heap c)(p := f (pack_at c p))"
  by (simp_all add: packs_modify_def Let_def)

lemma inj_ids_cong:
  "inj_on (\<lambda>p. pk_id (h p)) A \<Longrightarrow> (\<And>q. pk_id (h' q) = pk_id (h q)) \<Longrightarrow> inj_on (\<lambda>p. pk_id (h' p)) A"
  by (simp add: inj_on_def)

lemma packs_modify_ok:
  assumes ok: "fork_ok c" and p: "p \<in> set (fc_ids c)" and f: "same_place (f (pack_at c p)) (pack_at c p)"
  shows "fork_ok (packs_modify p f c)"
proof -
  note d = fork_okD [OF ok]
  let ?h = "(fc_heap c)(p := f (pack_at c p))"
  have l: "pack_linked (?h q)" if "q \<in> set (fc_ids c)" for q
    using d(12) [OF that] pack_linked_same_place [OF f] by auto
  have i: "inj_on (\<lambda>p. pk_id (?h p)) (set (fc_ids c))"
    by (rule inj_ids_cong [OF d(2)]) (use f in \<open>simp add: same_place_def\<close>)
  have s: "oi_sorted sha256_less (\<lambda>q. prev_id (?h q)) (oi_replace sha256_less (\<lambda>q. prev_id (?h q)) p (fc_pre c))"
    "oi_sorted number_less (\<lambda>q. number_key (?h q)) (oi_replace number_less (\<lambda>q. number_key (?h q)) p (fc_number c))"
    "oi_sorted longest_less (\<lambda>q. longest_key (?h q)) (oi_replace longest_less (\<lambda>q. longest_key (?h q)) p (fc_longest c))"
    using d p by (auto intro!: pre_order.replace_sorted [OF d(5)] number_order.replace_sorted [OF d(8)]
        longest_order.replace_sorted [OF d(11)])
  have m: "p \<in> set (fc_pre c)" "p \<in> set (fc_number c)" "p \<in> set (fc_longest c)" using p d by auto
  show ?thesis
    unfolding fork_ok_def
    using d i s l m by (simp add: packs_modify_def Let_def del: fun_upd_apply)
qed

text \<open>A write through a pointer that touches no key.\<close>

definition poke :: "nat \<Rightarrow> block_pack \<Rightarrow> fork_context \<Rightarrow> fork_context" where
  "poke p q c = c\<lparr>fc_heap := (fc_heap c)(p := q)\<rparr>"

lemma poke_fields [simp]:
  "fc_ids (poke p q c) = fc_ids c" "fc_next (poke p q c) = fc_next c" "fc_head (poke p q c) = fc_head c"
  "fc_heap (poke p q c) = (fc_heap c)(p := q)" "fc_number (poke p q c) = fc_number c"
  by (simp_all add: poke_def)

lemma poke_ok:
  assumes ok: "fork_ok c"
    and q: "p \<in> set (fc_ids c) \<Longrightarrow> same_place q (pack_at c p) \<and> longest_key q = longest_key (pack_at c p)"
  shows "fork_ok (poke p q c)"
proof -
  note d = fork_okD [OF ok]
  let ?h = "(fc_heap c)(p := q)"
  have k: "prev_id (?h x) = prev_id (pack_at c x)" "number_key (?h x) = number_key (pack_at c x)"
    "longest_key (?h x) = longest_key (pack_at c x)" "pk_id (?h x) = pk_id (pack_at c x)" "pack_linked (?h x)"
    if "x \<in> set (fc_ids c)" for x
    using q that d(12) [OF that] pack_linked_same_place [of q "pack_at c p"]
    by (auto simp: same_place_def number_key_def longest_key_def)
  have "inj_on (\<lambda>p. pk_id (?h p)) (set (fc_ids c))"
    using d(2) k(4) by (simp add: inj_on_def del: fun_upd_apply)
  moreover have "oi_sorted sha256_less (\<lambda>x. prev_id (?h x)) (fc_pre c)"
    using d(3,5) k(1) pre_order.sorted_cong [of "fc_pre c" "\<lambda>x. prev_id (?h x)" "\<lambda>x. prev_id (pack_at c x)"] by simp
  moreover have "oi_sorted number_less (\<lambda>x. number_key (?h x)) (fc_number c)"
    using d(6,8) k(2) number_order.sorted_cong [of "fc_number c" "\<lambda>x. number_key (?h x)" "\<lambda>x. number_key (pack_at c x)"] by simp
  moreover have "oi_sorted longest_less (\<lambda>x. longest_key (?h x)) (fc_longest c)"
    using d(9,11) k(3) longest_order.sorted_cong [of "fc_longest c" "\<lambda>x. longest_key (?h x)" "\<lambda>x. longest_key (pack_at c x)"] by simp
  ultimately show ?thesis using d k(5) unfolding fork_ok_def poke_def by (simp del: fun_upd_apply)
qed


section \<open>Ancestors\<close>

text \<open>Links from the identifier of a pack to that of its predecessor; their closure leads from a block to its ancestors.\<close>

definition links :: "fork_context \<Rightarrow> (sha256 \<times> sha256) set" where
  "links c = {(pk_id (pack_at c p), prev_id (pack_at c p)) | p. p \<in> set (fc_ids c)}"

lemma links_modify [simp]:
  assumes "same_place (f (pack_at c q)) (pack_at c q)"
  shows "links (packs_modify q f c) = links c"
proof -
  have "pk_id (((fc_heap c)(q := f (pack_at c q))) p) = pk_id (pack_at c p)"
    "prev_id (((fc_heap c)(q := f (pack_at c q))) p) = prev_id (pack_at c p)" for p
    using assms by (simp_all add: same_place_def)
  then show ?thesis by (simp add: links_def del: fun_upd_apply)
qed

lemma linksI: "p \<in> set (fc_ids c) \<Longrightarrow> (pk_id (pack_at c p), prev_id (pack_at c p)) \<in> links c"
  by (auto simp: links_def)

lemma links_step:
  assumes ok: "fork_ok c" and q: "q \<in> set (fc_ids c)"
  shows "(pk_id (pack_at c q), y) \<in> (links c)\<^sup>* \<longleftrightarrow> y = pk_id (pack_at c q) \<or> (prev_id (pack_at c q), y) \<in> (links c)\<^sup>*"
proof
  assume "(pk_id (pack_at c q), y) \<in> (links c)\<^sup>*"
  then show "y = pk_id (pack_at c q) \<or> (prev_id (pack_at c q), y) \<in> (links c)\<^sup>*"
  proof (cases rule: converse_rtranclE)
    case (step z)
    then obtain p where p: "p \<in> set (fc_ids c)" "pk_id (pack_at c p) = pk_id (pack_at c q)" "z = prev_id (pack_at c p)"
      by (auto simp: links_def)
    then have "p = q" using fork_okD(2) [OF ok] q by (auto dest: inj_onD)
    with step p show ?thesis by simp
  qed simp
next
  assume "y = pk_id (pack_at c q) \<or> (prev_id (pack_at c q), y) \<in> (links c)\<^sup>*"
  then show "(pk_id (pack_at c q), y) \<in> (links c)\<^sup>*" using linksI [OF q] by (auto intro: converse_rtrancl_into_rtrancl)
qed

lemma links_unknown:
  assumes "packs_find c i = None" and "(i, y) \<in> (links c)\<^sup>*"
  shows "y = i"
  using assms(2)
proof (cases rule: converse_rtranclE)
  case (step z)
  then show ?thesis using assms(1) packs_find_None [of c i] by (auto simp: links_def)
qed simp

lemma num_empty [simp]: "num_from_id empty_sha256 = 0"
  by (simp add: num_from_id_def empty_sha256_def endian_reverse_u32_def)

lemma link_num:
  assumes "fork_ok c" and "q \<in> set (fc_ids c)"
  shows "unat (num_from_id (pk_id (pack_at c q))) = Suc (unat (num_from_id (prev_id (pack_at c q))))"
    "pk_num (pack_at c q) = num_from_id (pk_id (pack_at c q))" "pk_id (pack_at c q) \<noteq> empty_sha256"
proof -
  have l: "pk_num (pack_at c q) = num_from_id (pk_id (pack_at c q))"
    "pk_num (pack_at c q) = num_from_id (prev_id (pack_at c q)) + 1" "pk_num (pack_at c q) \<noteq> 0"
    using fork_okD(12) [OF assms] by (auto simp: pack_linked_def)
  then show "pk_num (pack_at c q) = num_from_id (pk_id (pack_at c q))" "pk_id (pack_at c q) \<noteq> empty_sha256" by auto
  show "unat (num_from_id (pk_id (pack_at c q))) = Suc (unat (num_from_id (prev_id (pack_at c q))))"
    using l(1,3) eq_diff_eq [THEN iffD2, OF l(2) [symmetric]] u32_pred [of "pk_num (pack_at c q)"] u32_neq_0 [of "pk_num (pack_at c q)"] by simp
qed

lemma links_num: "(x, y) \<in> (links c)\<^sup>* \<Longrightarrow> fork_ok c \<Longrightarrow> unat (num_from_id y) \<le> unat (num_from_id x)"
proof (induction rule: rtrancl_induct)
  case (step y z)
  then obtain p where "p \<in> set (fc_ids c)" "y = pk_id (pack_at c p)" "z = prev_id (pack_at c p)" by (auto simp: links_def)
  then show ?case using link_num(1) [OF step.prems] step by fastforce
qed simp

section \<open>set\_last\_confirmed\<close>

lemma same_place_confirmed [simp]: "same_place (set_confirmed num i p) p"
  by (simp add: same_place_def set_confirmed_def prev_id_def)

lemma set_confirmed_twice [simp]: "set_confirmed num i (set_confirmed num i p) = set_confirmed num i p"
  by (simp add: set_confirmed_def)

definition not_above :: "fork_context \<Rightarrow> sha256 \<Rightarrow> nat set" where
  "not_above c i = {q \<in> set (fc_ids c). unat (num_from_id (pk_id (pack_at c q))) \<le> unat (num_from_id i)}"

lemma not_above_pred:
  assumes "fork_ok c" and "q \<in> set (fc_ids c)"
  shows "card (not_above c (prev_id (pack_at c q))) < card (not_above c (pk_id (pack_at c q)))"
proof (rule psubset_card_mono)
  show "finite (not_above c (pk_id (pack_at c q)))" by (simp add: not_above_def)
  have "q \<notin> not_above c (prev_id (pack_at c q))" "q \<in> not_above c (pk_id (pack_at c q))"
    using link_num(1) [OF assms] assms(2) by (auto simp: not_above_def)
  moreover have "not_above c (prev_id (pack_at c q)) \<subseteq> not_above c (pk_id (pack_at c q))"
    using link_num(1) [OF assms] by (auto simp: not_above_def)
  ultimately show "not_above c (prev_id (pack_at c q)) \<subset> not_above c (pk_id (pack_at c q))" by blast
qed

lemma not_above_le: "card (not_above c i) \<le> length (fc_ids c)"
proof -
  have "card (not_above c i) \<le> card (set (fc_ids c))" by (rule card_mono) (auto simp: not_above_def)
  then show ?thesis using card_length le_trans by blast
qed

text \<open>\<open>marked num i A c c'\<close>: \<open>c'\<close> is \<open>c\<close> with the packs of \<open>A\<close> confirmed by the block \<open>i\<close>.\<close>

definition marked :: "u32 \<Rightarrow> sha256 \<Rightarrow> sha256 set \<Rightarrow> fork_context \<Rightarrow> fork_context \<Rightarrow> bool" where
  "marked num i A c c' \<longleftrightarrow> fork_ok c' \<and> fc_ids c' = fc_ids c \<and> fc_next c' = fc_next c \<and> fc_head c' = fc_head c \<and> links c' = links c \<and>
     (\<forall>p. pack_at c' p = (if p \<in> set (fc_ids c) \<and> pk_id (pack_at c p) \<in> A then set_confirmed num i (pack_at c p) else pack_at c p))"

lemma marked_id: "fork_ok c \<Longrightarrow> (\<And>p. p \<in> set (fc_ids c) \<Longrightarrow> pk_id (pack_at c p) \<notin> A) \<Longrightarrow> marked num i A c c"
  by (auto simp: marked_def)

lemma marked_modify:
  assumes "fork_ok c" and "q \<in> set (fc_ids c)"
  shows "marked num i {pk_id (pack_at c q)} c (packs_modify q (set_confirmed num i) c)"
  using assms packs_modify_ok [OF assms] fork_okD(2) [OF assms(1)] by (auto simp: marked_def inj_on_def)

lemma marked_trans:
  assumes 1: "marked num i A c c'" and 2: "marked num i B c' c''"
  shows "marked num i (A \<union> B) c c''"
proof -
  have "pk_id (pack_at c' p) = pk_id (pack_at c p)" for p
    using 1 by (simp add: marked_def set_confirmed_def)
  with 1 2 show ?thesis by (auto simp: marked_def)
qed

lemma confirm_back_marked:
  "fork_ok c \<Longrightarrow> card (not_above c pre) \<le> n \<Longrightarrow>
   \<exists>c'. confirm_back n num i pre c = Inr c' \<and> marked num i {x. (pre, x) \<in> (links c)\<^sup>*} c c'"
proof (induction n arbitrary: pre c rule: less_induct)
  case (less n)
  show ?case
  proof (cases "packs_find c pre")
    case None
    then have "marked num i {x. (pre, x) \<in> (links c)\<^sup>*} c c"
      using links_unknown [OF None] packs_find_None [of c pre] by (intro marked_id [OF less.prems(1)]) auto
    then show ?thesis using None by (subst confirm_back.simps) simp
  next
    case (Some q)
    then have q: "q \<in> set (fc_ids c)" "pk_id (pack_at c q) = pre" using packs_find_member by auto
    define c1 where "c1 = packs_modify q (set_confirmed num i) c"
    have m: "marked num i {pre} c c1" using marked_modify [OF less.prems(1) q(1)] q(2) by (simp add: c1_def)
    have na: "not_above c1 x = not_above c x" for x
      using m by (auto simp: not_above_def marked_def set_confirmed_def)
    have lt: "card (not_above c (prev_id (pack_at c q))) < n"
      using not_above_pred [OF less.prems(1) q(1)] less.prems(2) q(2) by simp
    then obtain k where k: "n = Suc k" "card (not_above c (prev_id (pack_at c q))) \<le> k" by (cases n) auto
    have "\<exists>c'. confirm_back k num i (prev_id (pack_at c q)) c1 = Inr c' \<and>
        marked num i {x. (prev_id (pack_at c q), x) \<in> (links c1)\<^sup>*} c1 c'"
      using m k na by (intro less.IH) (auto simp: marked_def)
    then obtain c' where c': "confirm_back k num i (prev_id (pack_at c q)) c1 = Inr c'"
      "marked num i {x. (prev_id (pack_at c q), x) \<in> (links c)\<^sup>*} c1 c'"
      using m by (auto simp: marked_def)
    have "{x. (pre, x) \<in> (links c)\<^sup>*} = {pre} \<union> {x. (prev_id (pack_at c q), x) \<in> (links c)\<^sup>*}"
      using links_step [OF less.prems(1) q(1)] q(2) by auto
    then have "marked num i {x. (pre, x) \<in> (links c)\<^sup>*} c c'" using marked_trans [OF m c'(2)] by simp
    moreover have "pre \<noteq> empty_sha256" using link_num(3) [OF less.prems(1) q(1)] q(2) by simp
    ultimately show ?thesis
      using Some c'(1) k(1) by (subst confirm_back.simps) (simp add: c1_def)
  qed
qed


definition children :: "fork_context \<Rightarrow> sha256 set \<Rightarrow> sha256 set" where
  "children c X = {pk_id (pack_at c p) | p. p \<in> set (fc_ids c) \<and> prev_id (pack_at c p) \<in> X}"

definition descendants :: "fork_context \<Rightarrow> sha256 \<Rightarrow> sha256 set" where
  "descendants c r = {pk_id (pack_at c p) | p. p \<in> set (fc_ids c) \<and> (pk_id (pack_at c p), r) \<in> (links c)\<^sup>*}"

lemma equal_range_children:
  assumes "fork_ok c"
  shows "set (map (\<lambda>p. pk_id (pack_at c p)) (equal_range sha256_less (\<lambda>q. prev_id (pack_at c q)) x (fc_pre c))) = children c {x}"
    "distinct (map (\<lambda>p. pk_id (pack_at c p)) (equal_range sha256_less (\<lambda>q. prev_id (pack_at c q)) x (fc_pre c)))"
proof -
  note d = fork_okD [OF assms]
  let ?r = "equal_range sha256_less (\<lambda>q. prev_id (pack_at c q)) x (fc_pre c)"
  have s: "set ?r = {y \<in> set (fc_ids c). prev_id (pack_at c y) = x}"
    using pre_order.set_equal_range [OF d(5), of x] sha256_less_linear pre_order.asym [of x x] d(3) by auto
  then show "set (map (\<lambda>p. pk_id (pack_at c p)) ?r) = children c {x}" by (auto simp: children_def)
  have "distinct ?r" using d(4) by (simp add: equal_range_def lower_bound_def)
  moreover have "inj_on (\<lambda>p. pk_id (pack_at c p)) (set ?r)" using d(2) s by (auto intro: inj_on_subset)
  ultimately show "distinct (map (\<lambda>p. pk_id (pack_at c p)) ?r)" by (simp add: distinct_map)
qed

lemma descendants_closed:
  assumes ok: "fork_ok c" and r: "r \<in> X" and X: "children c X \<subseteq> X"
  shows "descendants c r \<subseteq> X"
proof -
  have "x \<in> X" if "(x, r) \<in> (links c)\<^sup>*" for x
    using that
  proof (induction rule: converse_rtrancl_induct)
    case (step y z)
    then show ?case using X by (auto simp: links_def children_def)
  qed (rule r)
  then show ?thesis by (auto simp: descendants_def)
qed

lemma child_new:
  assumes ok: "fork_ok c" and lst: "distinct xs" "i < length xs" "set xs = insert r (children c (set (take i xs)))"
    and desc: "\<And>x. x \<in> set xs \<Longrightarrow> (x, r) \<in> (links c)\<^sup>*"
  shows "set xs \<inter> children c {xs ! i} = {}"
proof -
  have False if x: "x \<in> set xs" "x \<in> children c {xs ! i}" for x
  proof -
    obtain p where p: "p \<in> set (fc_ids c)" "x = pk_id (pack_at c p)" "prev_id (pack_at c p) = xs ! i"
      using x(2) by (auto simp: children_def)
    show False
    proof (cases "x = r")
      case True
      have "(xs ! i, r) \<in> (links c)\<^sup>*" using desc lst(2) by simp
      then have "unat (num_from_id r) \<le> unat (num_from_id (xs ! i))" by (rule links_num [OF _ ok])
      then show False using link_num(1) [OF ok p(1)] p True by simp
    next
      case False
      then obtain q where q: "q \<in> set (fc_ids c)" "x = pk_id (pack_at c q)" "prev_id (pack_at c q) \<in> set (take i xs)"
        using x(1) lst(3) by (auto simp: children_def)
      then have "q = p" using p fork_okD(2) [OF ok] by (auto dest: inj_onD)
      then have "xs ! i \<in> set (take i xs)" using p q by simp
      then show False using lst(1,2) by (auto simp: in_set_conv_nth nth_eq_iff_index_eq)
    qed
  qed
  then show ?thesis by blast
qed

lemma next_ids_descendants:
  "fork_ok c \<Longrightarrow> distinct xs \<Longrightarrow> i \<le> length xs \<Longrightarrow> xs \<noteq> [] \<Longrightarrow> hd xs = r \<Longrightarrow>
   set xs \<subseteq> (\<lambda>p. pk_id (pack_at c p)) ` set (fc_ids c) \<Longrightarrow> set xs = insert r (children c (set (take i xs))) \<Longrightarrow>
   (\<forall>x \<in> set xs. (x, r) \<in> (links c)\<^sup>*) \<Longrightarrow> length (fc_ids c) \<le> n + i \<Longrightarrow>
   \<exists>ys. next_ids n i xs c = Some ys \<and> ys \<noteq> [] \<and> hd ys = r \<and> distinct ys \<and> set ys = descendants c r"
proof (induction n arbitrary: i xs rule: less_induct)
  case (less n)
  note ok = \<open>fork_ok c\<close>
  show ?case
  proof (cases "i < length xs")
    case False
    then have "take i xs = xs" by simp
    then have "r \<in> set xs" "children c (set xs) \<subseteq> set xs" using less.prems(7) by (metis insertI1, metis subset_insertI)
    then have "descendants c r \<subseteq> set xs" by (rule descendants_closed [OF ok])
    moreover have "set xs \<subseteq> descendants c r" using less.prems(6,8) by (auto simp: descendants_def)
    ultimately have "set xs = descendants c r" by (rule antisym [rotated])
    then show ?thesis using less.prems(2,4,5) False by (subst next_ids.simps) simp
  next
    case True
    define new where "new = map (\<lambda>p. pk_id (pack_at c p)) (equal_range sha256_less (\<lambda>q. prev_id (pack_at c q)) (xs ! i) (fc_pre c))"
    have new: "set new = children c {xs ! i}" "distinct new"
      using equal_range_children [OF ok] by (simp_all add: new_def)
    have "length xs \<le> length (fc_ids c)"
    proof -
      have "card (set xs) \<le> card (set (fc_ids c))" using less.prems(6) by (rule surj_card_le [OF finite_set])
      then show ?thesis using less.prems(2) distinct_card [of xs] card_length [of "fc_ids c"] by simp
    qed
    then obtain m where m: "n = Suc m" using True less.prems(9) by (cases n) auto
    have "\<exists>ys. next_ids m (Suc i) (xs @ new) c = Some ys \<and> ys \<noteq> [] \<and> hd ys = r \<and> distinct ys \<and> set ys = descendants c r"
    proof (rule less.IH)
      show "distinct (xs @ new)"
        using child_new [OF ok less.prems(2) True less.prems(7)] less.prems(2,8) new by auto
      show "set (xs @ new) \<subseteq> (\<lambda>p. pk_id (pack_at c p)) ` set (fc_ids c)"
        using less.prems(6) new by (auto simp: children_def)
      show "set (xs @ new) = insert r (children c (set (take (Suc i) (xs @ new))))"
        using less.prems(7) new True by (auto simp: take_Suc_conv_app_nth children_def)
      show "\<forall>x \<in> set (xs @ new). (x, r) \<in> (links c)\<^sup>*"
      proof
        fix x assume "x \<in> set (xs @ new)"
        then consider "x \<in> set xs" | p where "p \<in> set (fc_ids c)" "x = pk_id (pack_at c p)" "prev_id (pack_at c p) = xs ! i"
          using new by (auto simp: children_def)
        then show "(x, r) \<in> (links c)\<^sup>*"
        proof cases
          case 2
          moreover have "(xs ! i, r) \<in> (links c)\<^sup>*" using less.prems(8) True by simp
          ultimately show ?thesis using linksI [OF 2(1)] by (metis converse_rtrancl_into_rtrancl)
        qed (use less.prems(8) in blast)
      qed
    qed (use less.prems True m in auto)
    then show ?thesis using True m by (subst next_ids.simps) (simp add: new_def)
  qed
qed

lemma confirm_ids_marked:
  "fork_ok c \<Longrightarrow> marked num i (set js) c (confirm_ids num i js c)"
proof (induction js arbitrary: c)
  case Nil
  then show ?case by (auto intro: marked_id)
next
  case (Cons j js)
  show ?case
  proof (cases "packs_find c j")
    case None
    have "marked num i {j} c c" using packs_find_None [of c j] None by (intro marked_id [OF Cons.prems]) auto
    from marked_trans [OF this Cons.IH [OF Cons.prems]] show ?thesis using None by simp
  next
    case (Some q)
    then have q: "q \<in> set (fc_ids c)" "pk_id (pack_at c q) = j" using packs_find_member by auto
    have m: "marked num i {j} c (packs_modify q (set_confirmed num i) c)"
      using marked_modify [OF Cons.prems q(1)] q(2) by simp
    then have "fork_ok (packs_modify q (set_confirmed num i) c)" by (simp add: marked_def)
    from marked_trans [OF m Cons.IH [OF this]] show ?thesis using Some by simp
  qed
qed

text \<open>The blocks that a confirmed block settles: itself, its ancestors and its descendants.\<close>

definition relatives :: "fork_context \<Rightarrow> sha256 \<Rightarrow> sha256 set" where
  "relatives c i = {x. (i, x) \<in> (links c)\<^sup>* \<or> (x, i) \<in> (links c)\<^sup>*}"

lemma descendants_insert:
  assumes "cp \<in> set (fc_ids c)" and "pk_id (pack_at c cp) = i"
  shows "i \<in> descendants c i"
  using assms by (auto simp: descendants_def)

lemma marked_descendants: "marked num i A c c' \<Longrightarrow> descendants c' r = descendants c r"
proof -
  assume m: "marked num i A c c'"
  then have "pk_id (pack_at c' p) = pk_id (pack_at c p)" for p by (simp add: marked_def set_confirmed_def)
  with m show ?thesis by (simp add: descendants_def marked_def)
qed

lemma marked_cong:
  assumes "marked num i A c c'" and "\<And>p. p \<in> set (fc_ids c) \<Longrightarrow> pk_id (pack_at c p) \<in> A \<longleftrightarrow> pk_id (pack_at c p) \<in> B"
  shows "marked num i B c c'"
  using assms unfolding marked_def by auto

lemma set_last_confirmed_marked:
  assumes ok: "fork_ok c" and cp: "packs_find c i = Some cp"
  shows "\<exists>c'. set_last_confirmed i c = Inr c' \<and> marked (pk_num (pack_at c cp)) i (relatives c i) c c'"
proof -
  have q: "cp \<in> set (fc_ids c)" "pk_id (pack_at c cp) = i" using packs_find_member [OF cp] by auto
  define num where "num = pk_num (pack_at c cp)"
  define c1 where "c1 = packs_modify cp (set_confirmed num i) c"
  have m1: "marked num i {i} c c1" using marked_modify [OF ok q(1)] q(2) by (simp add: c1_def)
  then have ok1: "fork_ok c1" "links c1 = links c" "fc_ids c1 = fc_ids c" by (simp_all add: marked_def)
  have pre: "prev_id (pack_at c1 cp) = prev_id (pack_at c cp)"
    using m1 by (simp add: marked_def set_confirmed_def prev_id_def)
  obtain c2 where c2: "confirm_back (length (fc_ids c)) num i (prev_id (pack_at c cp)) c1 = Inr c2"
    "marked num i {x. (prev_id (pack_at c cp), x) \<in> (links c)\<^sup>*} c1 c2"
    using confirm_back_marked [OF ok1(1)] not_above_le [of c1] ok1(2,3) by metis
  note m2 = marked_trans [OF m1 c2(2)]
  then have ok2: "fork_ok c2" "links c2 = links c" "fc_ids c2 = fc_ids c" by (simp_all add: marked_def)
  have "i \<in> descendants c2 i" using marked_descendants [OF m2] descendants_insert [OF q] by simp
  then obtain ys where ys: "next_ids (length (fc_ids c)) 0 [i] c2 = Some ys" "ys \<noteq> []" "hd ys = i" "set ys = descendants c i"
    using next_ids_descendants [OF ok2(1), of "[i]" 0 i "length (fc_ids c)"] ok2(3) marked_descendants [OF m2]
    by (auto simp: children_def descendants_def)
  have sy: "insert i (set (tl ys)) = descendants c i" using ys by (cases ys) auto
  define c3 where "c3 = confirm_ids num i (tl ys) c2"
  have "marked num i (({i} \<union> {x. (prev_id (pack_at c cp), x) \<in> (links c)\<^sup>*}) \<union> set (tl ys)) c c3"
    unfolding c3_def by (rule marked_trans [OF m2 confirm_ids_marked [OF ok2(1)]])
  then have "marked num i (relatives c i) c c3"
  proof (rule marked_cong)
    fix p assume p: "p \<in> set (fc_ids c)"
    have "pk_id (pack_at c p) \<in> insert i (set (tl ys)) \<longleftrightarrow> (pk_id (pack_at c p), i) \<in> (links c)\<^sup>*"
      unfolding sy using p by (auto simp: descendants_def)
    moreover have "(i, x) \<in> (links c)\<^sup>* \<longleftrightarrow> x = i \<or> (prev_id (pack_at c cp), x) \<in> (links c)\<^sup>*" for x
      using links_step [OF ok q(1)] q(2) by simp
    ultimately show "pk_id (pack_at c p) \<in> {i} \<union> {x. (prev_id (pack_at c cp), x) \<in> (links c)\<^sup>*} \<union> set (tl ys) \<longleftrightarrow>
        pk_id (pack_at c p) \<in> relatives c i"
      by (auto simp: relatives_def)
  qed
  moreover have "set_last_confirmed i c = Inr c3"
    unfolding set_last_confirmed_def c3_def cp option.case Let_def num_def [symmetric] c1_def [symmetric] pre c2(1) sum.case ys(1) ..
  ultimately show ?thesis by (auto simp: num_def)
qed

end
