(* ===== verification/Chain_Fork_Inv.thy ===== *)
theory Chain_Fork_Inv
  imports Chain_Fork_Confirm
begin

text \<open>
  What the other operations of the fork database do: the calls of the irreversible handler and the packs that
  \<^verbatim>\<open>on_last_confirmed_grow\<close> keeps, the head after a new block, the end of \<^verbatim>\<open>remove_chain\<close>, and that every
  operation keeps the invariant, also when it throws.
\<close>

section \<open>Irreversible blocks\<close>

text \<open>The handler called for one pack after the other.\<close>

fun run_handler :: "'s irr_handle \<Rightarrow> block_pack list \<Rightarrow> 's \<Rightarrow> 's thrown" where
  "run_handler irr [] s = Inr s"
| "run_handler irr (p # ps) s = (case irr p s of Inl e \<Rightarrow> Inl e | Inr s' \<Rightarrow> run_handler irr ps s')"

abbreviation ids_of :: "fork_context \<Rightarrow> nat list \<Rightarrow> sha256 list" where
  "ids_of c ps \<equiv> map (\<lambda>p. pk_id (pack_at c p)) ps"

text \<open>\<open>c'\<close> is \<open>c\<close> with the packs of \<open>A\<close> irreversible.\<close>

definition settled :: "nat set \<Rightarrow> fork_context \<Rightarrow> fork_context \<Rightarrow> bool" where
  "settled A c c' \<longleftrightarrow> fork_ok c' \<and> fc_ids c' = fc_ids c \<and> fc_next c' = fc_next c \<and> fc_head c' = fc_head c \<and>
     (\<forall>p. pack_at c' p = (if p \<in> A then (pack_at c p)\<lparr>irreversible_confirmed := True\<rparr> else pack_at c p))"

lemma settled_trans: "settled A c c' \<Longrightarrow> settled B c' c'' \<Longrightarrow> settled (A \<union> B) c c''"
  by (auto simp: settled_def)

lemma settled_poke:
  assumes "fork_ok c"
  shows "settled {p} c (poke p ((pack_at c p)\<lparr>irreversible_confirmed := True\<rparr>) c)"
  using poke_ok [OF assms, of p "(pack_at c p)\<lparr>irreversible_confirmed := True\<rparr>"]
  by (auto simp: settled_def same_place_def longest_key_def prev_id_def)

lemma settled_id: "settled A c c' \<Longrightarrow> pk_id (pack_at c' p) = pk_id (pack_at c p)"
  by (simp add: settled_def)

lemma fire_irreversible_Cons:
  assumes "fork_ok c" and "p \<in> set (fc_ids c)"
  shows "fire_irreversible irr (pk_id (pack_at c p) # js) (s, c) =
    (case irr (pack_at c p) s of Inl (e, s') \<Rightarrow> Inl (e, s', c)
     | Inr s' \<Rightarrow> fire_irreversible irr js (s', poke p ((pack_at c p)\<lparr>irreversible_confirmed := True\<rparr>) c))"
  using packs_find_Some [OF assms(1), of "pk_id (pack_at c p)" p] assms(2)
  by (simp add: get_block_def poke_def split: sum.splits)

lemma fire_irreversible_runs:
  "fork_ok c \<Longrightarrow> distinct ps \<Longrightarrow> set ps \<subseteq> set (fc_ids c) \<Longrightarrow>
   (case run_handler irr (map (pack_at c) ps) s of
      Inr s' \<Rightarrow> \<exists>c'. fire_irreversible irr (ids_of c ps) (s, c) = Inr (s', c') \<and> settled (set ps) c c'
    | Inl (e, s') \<Rightarrow> \<exists>c' A. fire_irreversible irr (ids_of c ps) (s, c) = Inl (e, s', c') \<and> settled A c c' \<and> A \<subseteq> set ps)"
proof (induction ps arbitrary: s c)
  case Nil
  then show ?case by (simp add: settled_def)
next
  case (Cons p ps)
  define c1 where "c1 = poke p ((pack_at c p)\<lparr>irreversible_confirmed := True\<rparr>) c"
  have m: "settled {p} c c1" using settled_poke [OF Cons.prems(1)] by (simp add: c1_def)
  have f: "fire_irreversible irr (ids_of c (p # ps)) (s, c) =
    (case irr (pack_at c p) s of Inl (e, s') \<Rightarrow> Inl (e, s', c) | Inr s' \<Rightarrow> fire_irreversible irr (ids_of c1 ps) (s', c1))"
  proof -
    have "ids_of c1 ps = ids_of c ps" using settled_id [OF m] by (simp only: map_eq_conv) simp
    moreover have "p \<in> set (fc_ids c)" using Cons.prems(3) by simp
    ultimately show ?thesis using fire_irreversible_Cons [OF Cons.prems(1)] unfolding c1_def by (simp only: list.map)
  qed
  have same: "map (pack_at c1) ps = map (pack_at c) ps" using Cons.prems(2) by (auto simp: c1_def)
  have c1: "fork_ok c1" "set ps \<subseteq> set (fc_ids c1)" "distinct ps" using m Cons.prems by (auto simp: settled_def)
  show ?case
  proof (cases "irr (pack_at c p) s")
    case (Inl es)
    then show ?thesis using f Cons.prems(1) by (cases es) (auto simp: settled_def intro!: exI [of _ "{}"])
  next
    case (Inr s')
    note ih = Cons.IH [OF c1(1,3,2), of s']
    show ?thesis
    proof (cases "run_handler irr (map (pack_at c) ps) s'")
      case (Inl es)
      obtain e s'' where es: "es = (e, s'')" by (cases es)
      obtain c' A where "fire_irreversible irr (ids_of c1 ps) (s', c1) = Inl (e, s'', c')" "settled A c1 c'" "A \<subseteq> set ps"
        using ih unfolding same Inl es by auto
      moreover from this(2) have "settled ({p} \<union> A) c c'" by (rule settled_trans [OF m])
      ultimately show ?thesis
        using f Inr Inl es by (auto intro!: exI [of _ "insert p A"])
    next
      case (Inr s'')
      obtain c' where "fire_irreversible irr (ids_of c1 ps) (s', c1) = Inr (s'', c')" "settled (set ps) c1 c'"
        using ih unfolding same Inr by auto
      moreover from this(2) have "settled ({p} \<union> set ps) c c'" by (rule settled_trans [OF m])
      ultimately show ?thesis using f Inr \<open>irr (pack_at c p) s = Inr s'\<close> by simp
    qed
  qed
qed

lemma erase_ids_result:
  "fork_ok c \<Longrightarrow> fork_ok (erase_ids js c) \<and> fc_heap (erase_ids js c) = fc_heap c \<and> fc_next (erase_ids js c) = fc_next c \<and>
   fc_head (erase_ids js c) = fc_head c \<and>
   set (fc_ids (erase_ids js c)) = {p \<in> set (fc_ids c). pk_id (pack_at c p) \<notin> set js}"
proof (induction js arbitrary: c)
  case (Cons j js)
  show ?case
  proof (cases "packs_find c j")
    case None
    then show ?thesis using Cons packs_find_None [of c j] by auto
  next
    case (Some q)
    note e = packs_erase_ok [OF Cons.prems, of q]
    have "pk_id (pack_at c p) = j \<longleftrightarrow> p = q" if "p \<in> set (fc_ids c)" for p
      using packs_find_Some [OF Cons.prems, of j p] Some that by auto
    then show ?thesis using Some Cons.IH [OF e(1)] e by auto
  qed
qed simp

lemma number_order_num:
  assumes "fork_ok c"
  shows "sorted_wrt (\<lambda>p q. pk_num (pack_at c p) \<le> pk_num (pack_at c q)) (fc_number c)"
  using fork_okD(8) [OF assms] unfolding oi_sorted_def
  by (rule sorted_wrt_mono_rel [rotated]) (auto simp: number_less_def number_key_def not_less)

lemma takeWhile_num:
  "sorted_wrt (\<lambda>p q. f p \<le> (f q :: u32)) xs \<Longrightarrow> takeWhile (\<lambda>p. f p \<le> n) xs = filter (\<lambda>p. f p \<le> n) xs"
proof (induction xs)
  case (Cons x xs)
  show ?case
  proof (cases "f x \<le> n")
    case False
    then have "\<forall>y \<in> set xs. \<not> f y \<le> n" using Cons.prems by (auto intro: order_trans)
    then show ?thesis using False by (simp add: filter_False)
  qed (use Cons in simp)
qed simp

text \<open>The packs up to a number that a block has confirmed and that are not irreversible yet, in the order of their numbers.\<close>

definition to_settle :: "sha256 \<Rightarrow> u32 \<Rightarrow> fork_context \<Rightarrow> nat list" where
  "to_settle i num c = filter (\<lambda>p. pk_num (pack_at c p) \<le> num \<and> last_confirmed_id (pack_at c p) = i \<and>
     \<not> irreversible_confirmed (pack_at c p)) (fc_number c)"

lemma grow_lists:
  assumes "fork_ok c"
  shows "map pk_id (filter (\<lambda>p. last_confirmed_id p = i \<and> \<not> irreversible_confirmed p)
      (map (pack_at c) (takeWhile (\<lambda>p. pk_num (pack_at c p) \<le> num) (fc_number c)))) = ids_of c (to_settle i num c)"
    "set (map pk_id (filter (\<lambda>p. last_confirmed_id p = i \<longrightarrow> pk_id p \<noteq> i)
      (map (pack_at c) (takeWhile (\<lambda>p. pk_num (pack_at c p) \<le> num) (fc_number c))))) =
     {pk_id (pack_at c p) | p. p \<in> set (fc_ids c) \<and> pk_num (pack_at c p) \<le> num \<and>
       (last_confirmed_id (pack_at c p) = i \<longrightarrow> pk_id (pack_at c p) \<noteq> i)}"
  unfolding takeWhile_num [OF number_order_num [OF assms]]
  using fork_okD(6) [OF assms] by (auto simp: to_settle_def filter_map o_def conj_ac)

lemma grow_result:
  assumes ok: "fork_ok c"
  shows "case run_handler irr (map (pack_at c) (to_settle i num c)) s of
      Inr s' \<Rightarrow> \<exists>c'. on_last_confirmed_grow irr i num (s, c) = Inr (s', c') \<and> fork_ok c' \<and> fc_next c' = fc_next c \<and> fc_head c' = fc_head c \<and>
        set (fc_ids c') = {p \<in> set (fc_ids c). num < pk_num (pack_at c p) \<or>
          pk_id (pack_at c p) = i \<and> last_confirmed_id (pack_at c p) = i} \<and>
        (\<forall>p. pack_at c' p = (if p \<in> set (to_settle i num c) then (pack_at c p)\<lparr>irreversible_confirmed := True\<rparr> else pack_at c p))
    | Inl (e, s') \<Rightarrow> \<exists>c'. on_last_confirmed_grow irr i num (s, c) = Inl (e, s', c') \<and> (\<exists>A. settled A c c')"
proof -
  define ev where "ev = to_settle i num c"
  define rem where "rem = map pk_id (filter (\<lambda>p. last_confirmed_id p = i \<longrightarrow> pk_id p \<noteq> i)
      (map (pack_at c) (takeWhile (\<lambda>p. pk_num (pack_at c p) \<le> num) (fc_number c))))"
  have ev: "distinct ev" "set ev \<subseteq> set (fc_ids c)"
    using fork_okD(6,7) [OF ok] by (auto simp: ev_def to_settle_def)
  have g: "on_last_confirmed_grow irr i num (s, c) =
    (case fire_irreversible irr (ids_of c ev) (s, c) of Inl e \<Rightarrow> Inl e | Inr (s, c) \<Rightarrow> Inr (s, erase_ids rem c))"
    unfolding on_last_confirmed_grow_def Let_def snd_conv grow_lists(1) [OF ok] ev_def [symmetric] rem_def [symmetric] ..
  note f = fire_irreversible_runs [OF ok ev, of irr s]
  show ?thesis
  proof (cases "run_handler irr (map (pack_at c) ev) s")
    case (Inl es)
    then show ?thesis using f g by (auto simp flip: ev_def split: prod.splits)
  next
    case (Inr s')
    then obtain c1 where c1: "fire_irreversible irr (ids_of c ev) (s, c) = Inr (s', c1)" "settled (set ev) c c1"
      using f by auto
    have ok1: "fork_ok c1" using c1(2) by (simp add: settled_def)
    note e = erase_ids_result [OF ok1, of rem]
    have r: "x \<in> set rem \<longleftrightarrow> x \<in> {pk_id (pack_at c p) | p. p \<in> set (fc_ids c) \<and> pk_num (pack_at c p) \<le> num \<and>
       (last_confirmed_id (pack_at c p) = i \<longrightarrow> pk_id (pack_at c p) \<noteq> i)}" for x
      unfolding rem_def grow_lists(2) [OF ok] ..
    have "pk_id (pack_at c p) \<in> set rem \<longleftrightarrow> pk_num (pack_at c p) \<le> num \<and>
       (last_confirmed_id (pack_at c p) = i \<longrightarrow> pk_id (pack_at c p) \<noteq> i)" if "p \<in> set (fc_ids c)" for p
      using r that fork_okD(2) [OF ok] by (auto dest: inj_onD)
    then have "set (fc_ids (erase_ids rem c1)) = {p \<in> set (fc_ids c). num < pk_num (pack_at c p) \<or>
          pk_id (pack_at c p) = i \<and> last_confirmed_id (pack_at c p) = i}"
      using e c1(2) settled_id [OF c1(2)] by (auto simp: settled_def)
    then show ?thesis using Inr g c1 e by (simp add: settled_def flip: ev_def)
  qed
qed


section \<open>Every operation keeps the invariant\<close>

text \<open>The state an operation leaves, whether it returns or throws.\<close>

definition left_state :: "'st thrown \<Rightarrow> 'st" where
  "left_state r = (case r of Inl (e, st) \<Rightarrow> st | Inr st \<Rightarrow> st)"

lemma left_state_simps [simp]: "left_state (Inr st) = st" "left_state (Inl (e, st)) = st"
  by (simp_all add: left_state_def)

lemma grow_ok:
  assumes "fork_ok c"
  shows "fork_ok (snd (left_state (on_last_confirmed_grow irr i num (s, c)))) \<and>
    fc_next (snd (left_state (on_last_confirmed_grow irr i num (s, c)))) = fc_next c"
  using grow_result [OF assms, of irr i num s] by (auto simp: settled_def split: sum.splits prod.splits)

lemma set_last_confirmed_unknown: "packs_find c i = None \<Longrightarrow> set_last_confirmed i c = Inl (FcAssert, c)"
  by (simp add: set_last_confirmed_def)

lemma set_last_confirmed_ok:
  assumes "fork_ok c"
  shows "fork_ok (left_state (set_last_confirmed i c)) \<and> fc_next (left_state (set_last_confirmed i c)) = fc_next c"
proof (cases "packs_find c i")
  case None
  then show ?thesis using assms by (simp add: set_last_confirmed_unknown)
next
  case (Some cp)
  then show ?thesis using set_last_confirmed_marked [OF assms Some] by (auto simp: marked_def)
qed

lemma fork_ok_cong:
  "fc_heap c' = fc_heap c \<Longrightarrow> fc_next c' = fc_next c \<Longrightarrow> fc_ids c' = fc_ids c \<Longrightarrow> fc_pre c' = fc_pre c \<Longrightarrow>
   fc_number c' = fc_number c \<Longrightarrow> fc_longest c' = fc_longest c \<Longrightarrow> fork_ok c' = fork_ok c"
  by (simp add: fork_ok_def)

text \<open>What adding a pack does first: the index entries, the list of all blocks and the new head.\<close>

lemma insert_head:
  assumes ok: "fork_ok c" and ins: "packs_insert p c = Some c1" and p: "pack_linked (pack_at c p)" "p < fc_next c"
  shows "\<exists>h e es c2. update_head (c1\<lparr>fc_allblocks := fc_allblocks c1 @ [p]\<rparr>) = Inr c2 \<and> fork_ok c2 \<and>
    fc_head c2 = Some h \<and> fc_number c2 = e # es \<and> fc_heap c2 = fc_heap c \<and> fc_next c2 = fc_next c \<and>
    set (fc_ids c2) = insert p (set (fc_ids c)) \<and> h \<in> insert p (set (fc_ids c)) \<and>
    (\<forall>q \<in> insert p (set (fc_ids c)). \<not> longest_less (longest_key (pack_at c q)) (longest_key (pack_at c h))) \<and>
    (\<forall>q \<in> insert p (set (fc_ids c)). pk_num (pack_at c e) \<le> pk_num (pack_at c q))"
proof -
  note i = packs_insert_ok [OF assms]
  then have ok1: "fork_ok c1" by simp
  note d = fork_okD [OF ok1]
  obtain h hs where h: "fc_longest c1 = h # hs" using d(9) i by (cases "fc_longest c1") auto
  obtain e es where e: "fc_number c1 = e # es" using d(6) i by (cases "fc_number c1") auto
  define c2 where "c2 = c1\<lparr>fc_allblocks := fc_allblocks c1 @ [p], fc_head := Some h\<rparr>"
  have "fork_ok c2" using ok1 fork_ok_cong [of c2 c1] by (simp add: c2_def)
  moreover have "update_head (c1\<lparr>fc_allblocks := fc_allblocks c1 @ [p]\<rparr>) = Inr c2" by (simp add: update_head_def h c2_def)
  moreover have "\<not> longest_less (longest_key (pack_at c q)) (longest_key (pack_at c h))" if "q \<in> insert p (set (fc_ids c))" for q
  proof -
    have "q \<in> set (h # hs)" using d(9) h i that by auto
    moreover have "oi_sorted longest_less (\<lambda>p. longest_key (pack_at c p)) (h # hs)" using d(11) h i by simp
    ultimately show ?thesis by (rule longest_order.hd_minimal [rotated])
  qed
  moreover have "pk_num (pack_at c e) \<le> pk_num (pack_at c q)" if "q \<in> insert p (set (fc_ids c))" for q
    using number_order_num [OF ok1] d(6) e i that by auto
  moreover have "h \<in> insert p (set (fc_ids c))" using d(9) h i by auto
  moreover have "fc_head c2 = Some h \<and> fc_number c2 = e # es \<and> fc_heap c2 = fc_heap c \<and> fc_next c2 = fc_next c \<and>
    set (fc_ids c2) = insert p (set (fc_ids c))" using e i by (simp add: c2_def)
  ultimately show ?thesis
    by (intro exI [of _ h] exI [of _ e] exI [of _ es] exI [of _ c2]) (simp only: simp_thms, simp)
qed

lemma fork_add_pack_cases:
  assumes ok: "fork_ok c" and p: "pack_linked (pack_at c p)" "p < fc_next c"
  obtains (throws) "fork_add_pack cr irr p (s, c) = Inl (FcAssert, s, c)"
  | (adds) h e c2 where "fork_ok c2" "fc_head c2 = Some h" "fc_heap c2 = fc_heap c" "fc_next c2 = fc_next c"
    "set (fc_ids c2) = insert p (set (fc_ids c))" "h \<in> insert p (set (fc_ids c))"
    "\<forall>q \<in> insert p (set (fc_ids c)). \<not> longest_less (longest_key (pack_at c q)) (longest_key (pack_at c h))"
    "\<forall>q \<in> insert p (set (fc_ids c)). pk_num (pack_at c e) \<le> pk_num (pack_at c q)"
    "fork_add_pack cr irr p (s, c) =
       (if pk_num (pack_at c e) < last_confirmed_num (pack_at c h)
        then on_last_confirmed_grow irr (last_confirmed_id (pack_at c h)) (last_confirmed_num (pack_at c h)) (s, c2)
        else if pk_num (pack_at c e) < dpos_irreversible_num (pack_at c h)
        then (case set_last_confirmed (dpos_irreversible_id (pack_at c h)) c2 of
            Inl (e, c) \<Rightarrow> Inl (e, s, c)
          | Inr c3 \<Rightarrow> on_last_confirmed_grow irr (dpos_irreversible_id (pack_at c h)) (dpos_irreversible_num (pack_at c h)) (s, c3))
        else Inr (s, c2))"
proof (cases "pk_id (pack_at c p) \<noteq> header_id cr (pk_block (pack_at c p)) \<or> packs_insert p c = None")
  case True
  then have "fork_add_pack cr irr p (s, c) = Inl (FcAssert, s, c)" by (auto simp: fork_add_pack_def)
  then show ?thesis by (rule throws)
next
  case False
  then obtain c1 where c1: "packs_insert p c = Some c1" "pk_id (pack_at c p) = header_id cr (pk_block (pack_at c p))" by auto
  from insert_head [OF ok c1(1) p] obtain h e es c2 where
    c2: "update_head (c1\<lparr>fc_allblocks := fc_allblocks c1 @ [p]\<rparr>) = Inr c2" "fork_ok c2" "fc_head c2 = Some h" "fc_number c2 = e # es"
      "fc_heap c2 = fc_heap c" "fc_next c2 = fc_next c" "set (fc_ids c2) = insert p (set (fc_ids c))" "h \<in> insert p (set (fc_ids c))"
      "\<forall>q \<in> insert p (set (fc_ids c)). \<not> longest_less (longest_key (pack_at c q)) (longest_key (pack_at c h))"
      "\<forall>q \<in> insert p (set (fc_ids c)). pk_num (pack_at c e) \<le> pk_num (pack_at c q)"
    by blast
  show ?thesis
    by (rule adds [OF c2(2,3,5-10)])
      (simp add: fork_add_pack_def c1 c2(1,3,4,5) Let_def)
qed

lemma fork_add_pack_ok:
  assumes "fork_ok c" and "pack_linked (pack_at c p)" and "p < fc_next c"
  shows "fork_ok (snd (left_state (fork_add_pack cr irr p (s, c)))) \<and>
    fc_next (snd (left_state (fork_add_pack cr irr p (s, c)))) = fc_next c"
proof (cases rule: fork_add_pack_cases [OF assms, of cr irr s, case_names 1 2])
  case 1
  then show ?thesis using assms(1) by simp
next
  case (2 h e c2)
  show ?thesis
  proof (cases "set_last_confirmed (dpos_irreversible_id (pack_at c h)) c2")
    case (Inl a)
    then show ?thesis
      using 2 grow_ok [OF 2(1), of irr _ _ s] set_last_confirmed_ok [OF 2(1), of "dpos_irreversible_id (pack_at c h)"]
      by (cases a) simp
  next
    case (Inr c3)
    have ok3: "fork_ok c3" "fc_next c3 = fc_next c2"
      using set_last_confirmed_ok [OF 2(1), of "dpos_irreversible_id (pack_at c h)"] Inr by simp_all
    show ?thesis using 2 grow_ok [OF 2(1), of irr _ _ s] grow_ok [OF ok3(1), of irr _ _ s] ok3(2) Inr by simp
  qed
qed


lemma fork_add_pack_error:
  assumes ok: "fork_ok c" and p: "pack_linked (pack_at c p)" "p < fc_next c"
    and irr: "\<And>q s s'. irr q s \<noteq> Inl (e, s')"
    and r: "fork_add_pack cr irr p (s, c) = Inl (e, sc)"
  shows "e = FcAssert"
proof -
  have run: "run_handler irr qs s \<noteq> Inl (e, s')" for qs s s'
    using irr by (induction qs arbitrary: s) (auto split: sum.splits)
  have grow: "on_last_confirmed_grow irr i num (s, c') \<noteq> Inl (e, sc)" if "fork_ok c'" for i num c'
    using grow_result [OF that, of irr i num s] run by (auto split: sum.splits prod.splits)
  show ?thesis
  proof (cases rule: fork_add_pack_cases [OF ok p, of cr irr s, case_names 1 2])
    case 1
    then show ?thesis using r by simp
  next
    case (2 h e0 c2)
    show ?thesis
    proof (cases "packs_find c2 (dpos_irreversible_id (pack_at c h))")
      case None
      then show ?thesis using 2 grow r set_last_confirmed_unknown [OF None] by (auto split: if_splits)
    next
      case (Some q)
      then obtain c3 where "set_last_confirmed (dpos_irreversible_id (pack_at c h)) c2 = Inr c3" "fork_ok c3"
        using set_last_confirmed_marked [OF 2(1) Some] by (auto simp: marked_def)
      then show ?thesis using 2 grow r by (auto split: if_splits)
    qed
  qed
qed

lemma fork_alloc_ok:
  assumes "fork_ok c"
  shows "fork_ok (c\<lparr>fc_heap := (fc_heap c)(fc_next c := q), fc_next := Suc (fc_next c)\<rparr>)"
proof -
  have n: "fc_next c \<notin> set (fc_ids c)" using fork_okD(13) [OF assms] by blast
  have "fork_ok (poke (fc_next c) q c)" by (rule poke_ok [OF assms]) (use n in blast)
  then have "fork_ok ((poke (fc_next c) q c)\<lparr>fc_next := Suc (fc_next c)\<rparr>)"
    by (auto simp: fork_ok_def poke_def less_Suc_eq)
  then show ?thesis by (simp add: poke_def)
qed

lemma generate_by_block_linked:
  assumes "block_num b \<noteq> 0"
  shows "pack_linked (generate_by_block cr b p)"
  using assms by (auto simp: pack_linked_def generate_by_block_def Let_def prev_id_def header_id_def block_num_def
      signed_block_header.truncate_def split: option.splits)

definition left_state' :: "(chain_exc \<times> 'st) + (nat \<times> 'st) \<Rightarrow> 'st" where
  "left_state' r = (case r of Inl (e, st) \<Rightarrow> st | Inr (p, st) \<Rightarrow> st)"

lemma left_state'_simps [simp]: "left_state' (Inr (p, st)) = st" "left_state' (Inl (e, st)) = st"
  by (simp_all add: left_state'_def)

lemma fork_add_block_ok:
  assumes "fork_ok c" and "block_num b \<noteq> 0"
  shows "fork_ok (snd (left_state' (fork_add_block cr irr b (s, c))))"
proof -
  have "fork_ok (snd (left_state (fork_add_pack cr irr (fc_next c)
      (s, c\<lparr>fc_heap := (fc_heap c)(fc_next c := generate_by_block cr b pack), fc_next := Suc (fc_next c)\<rparr>))))" for pack
    by (rule fork_add_pack_ok [OF fork_alloc_ok [OF assms(1)], THEN conjunct1])
      (simp_all add: generate_by_block_linked [OF assms(2)])
  then have "fork_add_pack cr irr (fc_next c) (s, c\<lparr>fc_heap := (fc_heap c)(fc_next c := generate_by_block cr b pack),
      fc_next := Suc (fc_next c)\<rparr>) = r \<Longrightarrow> fork_ok (snd (left_state r))" for pack r by metis
  from this [of _ "Inl (_, _, _)"] this [of _ "Inr (_, _)"] show ?thesis
    using assms(1) unfolding fork_add_block_def
    by (auto simp: Let_def split: option.splits sum.splits bool.splits)
qed

lemma force_confirm_ok:
  assumes "fork_ok c"
  shows "fork_ok (snd (left_state (force_confirm irr i num (s, c))))"
  using set_last_confirmed_ok [OF assms, of i] grow_ok [of _ irr i num s]
  by (auto simp: force_confirm_def split: sum.splits)

lemma add_confirmation_keys:
  "add_confirmation cr conf skip p = Inr q \<Longrightarrow> same_place q p \<and> longest_key q = longest_key p"
  by (auto simp: add_confirmation_def same_place_def longest_key_def prev_id_def split: if_splits sum.splits bool.splits)

lemma fork_add_confirmation_ok:
  assumes "fork_ok c"
  shows "fork_ok (left_state (fork_add_confirmation cr conf skip c))"
proof (cases "get_block c (conf_block_id conf)")
  case None
  then show ?thesis using assms by (simp add: fork_add_confirmation_def)
next
  case (Some p)
  show ?thesis
  proof (cases "add_confirmation cr conf skip (pack_at c p)")
    case (Inl e)
    then show ?thesis using assms Some by (simp add: fork_add_confirmation_def)
  next
    case (Inr q)
    have "fork_ok (poke p q c)" by (rule poke_ok [OF assms]) (use add_confirmation_keys [OF Inr] in blast)
    then show ?thesis
      using Some Inr set_last_confirmed_ok [of "poke p q c" "pk_id q"]
      by (simp add: fork_add_confirmation_def Let_def flip: poke_def)
  qed
qed

lemma change_main_chain_flag_ok:
  assumes "fork_ok c"
  shows "fork_ok (left_state (change_main_chain_flag i flag c))"
proof (cases "packs_find c i")
  case None
  then show ?thesis using assms by (simp add: change_main_chain_flag_def)
next
  case (Some p)
  have "fork_ok (packs_modify p (\<lambda>q. q\<lparr>main_chain := flag\<rparr>) c)"
    using packs_find_member [OF Some] by (intro packs_modify_ok [OF assms]) (simp_all add: same_place_def prev_id_def)
  then show ?thesis using assms Some by (simp add: change_main_chain_flag_def)
qed

section \<open>remove\_chain\<close>

lemma remove_round_ok:
  assumes ok: "fork_ok c" and r: "remove_round i c = (c1, ch)"
  shows "fork_ok c1 \<and> fc_heap c1 = fc_heap c \<and> fc_next c1 = fc_next c \<and> fc_head c1 = fc_head c \<and>
    set (fc_ids c1) = {p \<in> set (fc_ids c). pk_id (pack_at c p) \<noteq> i} \<and>
    set ch = {pk_id (pack_at c p) | p. p \<in> set (fc_ids c1) \<and> \<not> sha256_less (prev_id (pack_at c p)) i}"
proof -
  have c1: "c1 = erase_ids [i] c" "ch = ids_of c1 (lower_bound sha256_less (\<lambda>q. prev_id (pack_at c1 q)) i (fc_pre c1))"
    using r by (auto simp: remove_round_def Let_def split: option.splits)
  note e = erase_ids_result [OF ok, of "[i]", folded c1(1)]
  then have "set ch = {pk_id (pack_at c p) | p. p \<in> set (fc_ids c1) \<and> \<not> sha256_less (prev_id (pack_at c p)) i}"
    using pre_order.set_lower_bound [of "\<lambda>q. prev_id (pack_at c1 q)" "fc_pre c1" i] fork_okD(3,5) [of c1] c1(2) by auto
  then show ?thesis using e by auto
qed

definition live :: "fork_context \<Rightarrow> sha256 \<Rightarrow> bool" where
  "live c i \<longleftrightarrow> (\<exists>p \<in> set (fc_ids c). pk_id (pack_at c p) = i)"

definition remove_order :: "((sha256 list \<times> fork_context) \<times> (sha256 list \<times> fork_context)) set" where
  "remove_order = measures [\<lambda>(q, c). card (set (fc_ids c)), \<lambda>(q, c). if \<exists>i \<in> set q. live c i then 0 else 1,
     \<lambda>(q, c). length (takeWhile (\<lambda>i. \<not> live c i) q)]"

lemma remove_order_step:
  assumes ok: "fork_ok c" and r: "remove_round i c = (c1, ch)"
  shows "((js @ ch, c1), (i # js, c)) \<in> remove_order"
proof -
  note k = remove_round_ok [OF ok r]
  show ?thesis
  proof (cases "live c i")
    case True
    then obtain p where "p \<in> set (fc_ids c)" "pk_id (pack_at c p) = i" by (auto simp: live_def)
    then have "set (fc_ids c1) \<subset> set (fc_ids c)" using k by auto
    then have "card (set (fc_ids c1)) < card (set (fc_ids c))" by (simp add: psubset_card_mono)
    then show ?thesis by (simp add: remove_order_def)
  next
    case False
    then have same: "set (fc_ids c1) = set (fc_ids c)" using k by (auto simp: live_def)
    then have lv: "live c1 = live c" using k by (auto simp: live_def fun_eq_iff)
    have chl: "\<forall>j \<in> set ch. live c j" using k same by (auto simp: live_def)
    have tw: "takeWhile (\<lambda>i. \<not> live c i) (js @ ch) = takeWhile (\<lambda>i. \<not> live c i) js"
      using chl by (cases ch) (auto simp: takeWhile_append takeWhile_eq_all_conv [THEN iffD2])
    show ?thesis
      using False same lv chl tw by (auto simp: remove_order_def)
  qed
qed

lemma remove_order_wf: "wf remove_order"
  by (simp add: remove_order_def)

lemma remove_loop_result:
  "fork_ok c \<Longrightarrow> \<exists>c'. remove_loop q c = Some c' \<and> fork_ok c' \<and> fc_heap c' = fc_heap c \<and> fc_next c' = fc_next c \<and>
     fc_head c' = fc_head c \<and> set (fc_ids c') \<subseteq> set (fc_ids c) \<and>
     (\<forall>i \<in> set q \<union> (\<lambda>p. pk_id (pack_at c p)) ` (set (fc_ids c) - set (fc_ids c')).
        \<forall>p \<in> set (fc_ids c'). pk_id (pack_at c p) \<noteq> i \<and> sha256_less (prev_id (pack_at c p)) i)"
proof (induction "(q, c)" arbitrary: q c rule: wf_induct_rule [OF remove_order_wf])
  case 2: 1
  show ?case
  proof (cases q)
    case Nil
    then show ?thesis using 2(2) by (subst remove_loop.simps) auto
  next
    case (Cons i js)
    obtain c1 ch where r: "remove_round i c = (c1, ch)" by (cases "remove_round i c")
    note k = remove_round_ok [OF 2(2) r]
    have "((js @ ch, c1), (q, c)) \<in> remove_order" using remove_order_step [OF 2(2) r] Cons by simp
    note step = this
    have ok1: "fork_ok c1" and h: "fc_heap c1 = fc_heap c" "fc_next c1 = fc_next c" "fc_head c1 = fc_head c" using k by simp_all
    from 2(1) [OF step ok1, unfolded h] obtain c' where c': "remove_loop (js @ ch) c1 = Some c'" "fork_ok c'" "fc_heap c' = fc_heap c"
      "fc_next c' = fc_next c" "fc_head c' = fc_head c" "set (fc_ids c') \<subseteq> set (fc_ids c1)"
      "\<forall>i \<in> set (js @ ch) \<union> (\<lambda>p. pk_id (pack_at c p)) ` (set (fc_ids c1) - set (fc_ids c')).
        \<forall>p \<in> set (fc_ids c'). pk_id (pack_at c p) \<noteq> i \<and> sha256_less (prev_id (pack_at c p)) i"
      by blast
    have i: "pk_id (pack_at c p) \<noteq> i \<and> sha256_less (prev_id (pack_at c p)) i" if "p \<in> set (fc_ids c')" for p
    proof -
      have "p \<in> set (fc_ids c1)" using that c'(6) by blast
      moreover have "pk_id (pack_at c p) \<notin> set ch" using c'(7) that by auto
      ultimately show ?thesis using k by auto
    qed
    have "pk_id (pack_at c p) \<noteq> j \<and> sha256_less (prev_id (pack_at c p)) j"
      if p: "p \<in> set (fc_ids c')" and j: "j \<in> set q \<union> (\<lambda>p. pk_id (pack_at c p)) ` (set (fc_ids c) - set (fc_ids c'))" for p j
    proof (cases "j = i")
      case False
      then have "j \<in> set (js @ ch) \<union> (\<lambda>p. pk_id (pack_at c p)) ` (set (fc_ids c1) - set (fc_ids c'))"
        using j k Cons by auto
      then show ?thesis using c'(7) p by blast
    qed (use i [OF p] in simp)
    moreover have "remove_loop q c = Some c'" using Cons r c'(1) by (subst remove_loop.simps) simp
    moreover have "set (fc_ids c') \<subseteq> set (fc_ids c)" using c'(6) k by auto
    ultimately show ?thesis using c' by blast
  qed
qed

lemma update_head_ok: "fork_ok c \<Longrightarrow> fork_ok (left_state (update_head c))"
  using fork_ok_cong [of "c\<lparr>fc_head := _\<rparr>" c] by (auto simp: update_head_def split: list.splits)

lemma remove_chain_ok: "fork_ok c \<Longrightarrow> fork_ok (left_state (remove_chain i c))"
  using remove_loop_result [of c "[i]"] update_head_ok by (auto simp: remove_chain_def)

end
