(* ===== verification/Chain_Fork_Branch.thy ===== *)
theory Chain_Fork_Branch
  imports Chain_Fork_Inv
begin

text \<open>
  The branches of the fork database: \<^verbatim>\<open>fetch_branch_from_fork\<close> finds the ways from two blocks down to the
  block where they part; the file the database is kept in; and the properties of the fork database.
\<close>

section \<open>Branches\<close>

text \<open>\<open>is_branch c b xs a\<close>: following the predecessors from the pack \<open>b\<close> visits \<open>xs\<close> and then reaches \<open>a\<close>.\<close>

fun is_branch :: "fork_context \<Rightarrow> nat \<Rightarrow> nat list \<Rightarrow> nat \<Rightarrow> bool" where
  "is_branch c b [] a \<longleftrightarrow> b = a"
| "is_branch c b (x # xs) a \<longleftrightarrow> x = b \<and> (case get_block c (prev_id (pack_at c b)) of None \<Rightarrow> False | Some d \<Rightarrow> is_branch c d xs a)"

lemma get_block_member:
  "fork_ok c \<Longrightarrow> get_block c i = Some d \<longleftrightarrow> d \<in> set (fc_ids c) \<and> pk_id (pack_at c d) = i"
  by (simp add: get_block_def packs_find_Some)

lemma pred_num:
  assumes "fork_ok c" and "b \<in> set (fc_ids c)" and "get_block c (prev_id (pack_at c b)) = Some d"
  shows "unat (pk_num (pack_at c b)) = Suc (unat (pk_num (pack_at c d)))" "d \<in> set (fc_ids c)"
  using assms link_num [OF assms(1,2)] link_num(2) [OF assms(1), of d] by (auto simp: get_block_member)

lemma is_branch_append: "is_branch c b (xs @ ys) a \<longleftrightarrow> (\<exists>d. is_branch c b xs d \<and> is_branch c d ys a)"
  by (induction xs arbitrary: b) (auto split: option.splits)

lemma is_branch_num:
  "fork_ok c \<Longrightarrow> b \<in> set (fc_ids c) \<Longrightarrow> is_branch c b xs a \<Longrightarrow>
   unat (pk_num (pack_at c b)) = length xs + unat (pk_num (pack_at c a)) \<and> a \<in> set (fc_ids c) \<and> set xs \<subseteq> set (fc_ids c) \<and>
   (\<forall>x \<in> set xs. unat (pk_num (pack_at c a)) < unat (pk_num (pack_at c x)) \<and> unat (pk_num (pack_at c x)) \<le> unat (pk_num (pack_at c b)))"
proof (induction xs arbitrary: b)
  case (Cons x xs)
  then obtain d where d: "x = b" "get_block c (prev_id (pack_at c b)) = Some d" "is_branch c d xs a" by (auto split: option.splits)
  note p = pred_num [OF Cons.prems(1,2) d(2)]
  from Cons.IH [OF Cons.prems(1) p(2) d(3)] p(1) d(1) Cons.prems(2) show ?case by auto
qed simp

lemma branch_length:
  assumes ok: "fork_ok c" and b: "b \<in> set (fc_ids c)" and br: "is_branch c b xs a"
  shows "length xs < length (fc_ids c)"
proof -
  have "\<exists>ys. ys = map (\<lambda>p. unat (pk_num (pack_at c p))) (xs @ [a]) \<and> distinct ys"
    using br b
  proof (induction xs arbitrary: b)
    case (Cons x xs)
    then obtain d where d: "x = b" "get_block c (prev_id (pack_at c b)) = Some d" "is_branch c d xs a" by (auto split: option.splits)
    note p = pred_num [OF ok Cons.prems(2) d(2)]
    have "\<forall>y \<in> set (xs @ [a]). unat (pk_num (pack_at c y)) \<le> unat (pk_num (pack_at c d))"
      using is_branch_num [OF ok p(2) d(3)] by auto
    then show ?case using Cons.IH [OF d(3) p(2)] p(1) d(1) by fastforce
  qed simp
  then have "distinct (xs @ [a])" by (auto simp: distinct_map)
  moreover have "set (xs @ [a]) \<subseteq> set (fc_ids c)" using is_branch_num [OF ok b br] by auto
  ultimately have "length (xs @ [a]) \<le> card (set (fc_ids c))" by (metis card_mono distinct_card finite_set)
  then show ?thesis using card_length [of "fc_ids c"] by simp
qed

lemma walk_down_branch:
  "fork_ok c \<Longrightarrow> b \<in> set (fc_ids c) \<Longrightarrow> is_branch c b ys a \<Longrightarrow> pk_num (pack_at c a) \<le> num \<Longrightarrow> length ys \<le> n \<Longrightarrow>
   \<exists>b' xs zs. walk_down n c b num acc = Inr (b', acc @ xs) \<and> is_branch c b xs b' \<and> is_branch c b' zs a \<and>
     pk_num (pack_at c b') \<le> num \<and> (\<forall>x \<in> set xs. num < pk_num (pack_at c x)) \<and>
     (num \<le> pk_num (pack_at c b) \<longrightarrow> pk_num (pack_at c b') = num) \<and> (pk_num (pack_at c b) \<le> num \<longrightarrow> xs = [] \<and> b' = b)"
proof (induction ys arbitrary: b n acc)
  case Nil
  then show ?case by (subst walk_down.simps) (auto intro!: exI [of _ "[]"] simp: not_less)
next
  case (Cons y ys)
  then obtain d where d: "y = b" "get_block c (prev_id (pack_at c b)) = Some d" "is_branch c d ys a" by (auto split: option.splits)
  note p = pred_num [OF Cons.prems(1,2) d(2)]
  show ?case
  proof (cases "pk_num (pack_at c b) > num")
    case False
    then show ?thesis
      using Cons.prems(3) by (subst walk_down.simps) (auto intro!: exI [of _ "[]"] exI [of _ "y # ys"] simp: not_less)
  next
    case True
    obtain m where m: "n = Suc m" "length ys \<le> m" using Cons.prems(5) by (cases n) auto
    have le: "num \<le> pk_num (pack_at c d)" using True p(1) by (simp add: u32_arith)
    from Cons.IH [OF Cons.prems(1) p(2) d(3) Cons.prems(4) m(2), of "acc @ [b]"] obtain b' xs zs where
      r: "walk_down m c d num (acc @ [b]) = Inr (b', (acc @ [b]) @ xs)" "is_branch c d xs b'" "is_branch c b' zs a"
        "pk_num (pack_at c b') \<le> num" "\<forall>x \<in> set xs. num < pk_num (pack_at c x)" "pk_num (pack_at c b') = num"
      using le by blast
    have "walk_down n c b num acc = Inr (b', acc @ b # xs)" using True m(1) d(2) r(1) by (subst walk_down.simps) simp
    then show ?thesis using r d(2) True by (intro exI [of _ b'] exI [of _ "b # xs"] exI [of _ zs]) auto
  qed
qed

lemma walk_both_branch:
  "fork_ok c \<Longrightarrow> b1 \<in> set (fc_ids c) \<Longrightarrow> b2 \<in> set (fc_ids c) \<Longrightarrow> is_branch c b1 ys a \<Longrightarrow> is_branch c b2 zs a \<Longrightarrow>
   pk_num (pack_at c b1) = pk_num (pack_at c b2) \<Longrightarrow> length ys \<le> n \<Longrightarrow>
   \<exists>b xs1 xs2. walk_both n c b1 b2 acc1 acc2 = Inr (b, acc1 @ xs1, acc2 @ xs2) \<and> is_branch c b1 xs1 b \<and> is_branch c b2 xs2 b \<and>
     set xs1 \<inter> set xs2 = {}"
proof (induction ys arbitrary: b1 b2 zs n acc1 acc2)
  case Nil
  have "zs = []" using is_branch_num [OF Nil.prems(1,2,4)] is_branch_num [OF Nil.prems(1,3,5)] Nil.prems(6) by simp
  then have "b1 = b2" using Nil by simp
  then show ?case by (subst walk_both.simps) (auto intro!: exI [of _ "[]"])
next
  case (Cons y ys)
  note ok = Cons.prems(1)
  show ?case
  proof (cases "pk_id (pack_at c b1) = pk_id (pack_at c b2)")
    case True
    then have "b1 = b2" using fork_okD(2) [OF ok] Cons.prems(2,3) by (auto dest: inj_onD)
    then show ?thesis by (subst walk_both.simps) (auto intro!: exI [of _ "[]"])
  next
    case False
    have len: "length zs = Suc (length ys)"
      using is_branch_num [OF ok Cons.prems(2,4)] is_branch_num [OF ok Cons.prems(3,5)] Cons.prems(6) by simp
    then obtain z zs' where zs: "zs = z # zs'" by (cases zs) auto
    obtain d1 where d1: "get_block c (prev_id (pack_at c b1)) = Some d1" "is_branch c d1 ys a"
      using Cons.prems(4) by (auto split: option.splits)
    obtain d2 where d2: "get_block c (prev_id (pack_at c b2)) = Some d2" "is_branch c d2 zs' a"
      using Cons.prems(5) zs by (auto split: option.splits)
    note p1 = pred_num [OF ok Cons.prems(2) d1(1)] and p2 = pred_num [OF ok Cons.prems(3) d2(1)]
    have same: "pk_num (pack_at c d1) = pk_num (pack_at c d2)" using p1(1) p2(1) Cons.prems(6) by (simp add: u32_eq)
    obtain m where m: "n = Suc m" "length ys \<le> m" using Cons.prems(7) by (cases n) auto
    from Cons.IH [OF ok p1(2) p2(2) d1(2) d2(2) same m(2), of "acc1 @ [b1]" "acc2 @ [b2]"] obtain b xs1 xs2 where
      r: "walk_both m c d1 d2 (acc1 @ [b1]) (acc2 @ [b2]) = Inr (b, (acc1 @ [b1]) @ xs1, (acc2 @ [b2]) @ xs2)"
        "is_branch c d1 xs1 b" "is_branch c d2 xs2 b" "set xs1 \<inter> set xs2 = {}"
      by blast
    have "walk_both n c b1 b2 acc1 acc2 = Inr (b, acc1 @ b1 # xs1, acc2 @ b2 # xs2)"
      using False m(1) d1(1) d2(1) r(1) by (subst walk_both.simps) simp
    moreover have "\<forall>x \<in> set xs1 \<union> set xs2. unat (pk_num (pack_at c x)) < unat (pk_num (pack_at c b1))"
      using is_branch_num [OF ok p1(2) r(2)] is_branch_num [OF ok p2(2) r(3)] p1(1) same by fastforce
    moreover have "b1 \<noteq> b2" using False by auto
    ultimately have "walk_both n c b1 b2 acc1 acc2 = Inr (b, acc1 @ b1 # xs1, acc2 @ b2 # xs2) \<and>
        set (b1 # xs1) \<inter> set (b2 # xs2) = {}"
      using r(4) Cons.prems(6) by fastforce
    then show ?thesis using r d1(1) d2(1) by (intro exI [of _ b] exI [of _ "b1 # xs1"] exI [of _ "b2 # xs2"]) simp
  qed
qed

lemma fetch_branch_result:
  assumes ok: "fork_ok c" and b1: "get_block c i1 = Some b1" and b2: "get_block c i2 = Some b2"
    and anc: "is_branch c b1 ys a" "is_branch c b2 zs a"
  shows "\<exists>r. fetch_branch_from_fork c i1 i2 = Inr r \<and> is_branch c b1 (first_branch r) (fork_node r) \<and>
    is_branch c b2 (second_branch r) (fork_node r) \<and> set (first_branch r) \<inter> set (second_branch r) = {}"
proof -
  let ?n = "length (fc_ids c)"
  have m: "b1 \<in> set (fc_ids c)" "b2 \<in> set (fc_ids c)" using b1 b2 ok by (auto simp: get_block_member)
  have l: "length ys \<le> ?n" "length zs \<le> ?n"
    using branch_length [OF ok m(1) anc(1)] branch_length [OF ok m(2) anc(2)] by auto
  have a: "pk_num (pack_at c a) \<le> pk_num (pack_at c b1)" "pk_num (pack_at c a) \<le> pk_num (pack_at c b2)"
    using is_branch_num [OF ok m(1) anc(1)] is_branch_num [OF ok m(2) anc(2)] by (auto simp: u32_arith)
  obtain e1 xs1 ys1 where w1: "walk_down ?n c b1 (pk_num (pack_at c b2)) [] = Inr (e1, [] @ xs1)" "is_branch c b1 xs1 e1"
    "is_branch c e1 ys1 a" "pk_num (pack_at c e1) \<le> pk_num (pack_at c b2)" "\<forall>x \<in> set xs1. pk_num (pack_at c b2) < pk_num (pack_at c x)"
    "pk_num (pack_at c b2) \<le> pk_num (pack_at c b1) \<longrightarrow> pk_num (pack_at c e1) = pk_num (pack_at c b2)"
    "pk_num (pack_at c b1) \<le> pk_num (pack_at c b2) \<longrightarrow> xs1 = [] \<and> e1 = b1"
    using walk_down_branch [OF ok m(1) anc(1) a(2) l(1), of "[]"] by blast
  have e1: "e1 \<in> set (fc_ids c)" "pk_num (pack_at c a) \<le> pk_num (pack_at c e1)"
    using is_branch_num [OF ok m(1) w1(2)] is_branch_num [OF ok _ w1(3)] by (auto simp: u32_arith)
  obtain e2 xs2 zs1 where w2: "walk_down ?n c b2 (pk_num (pack_at c e1)) [] = Inr (e2, [] @ xs2)" "is_branch c b2 xs2 e2"
    "is_branch c e2 zs1 a" "\<forall>x \<in> set xs2. pk_num (pack_at c e1) < pk_num (pack_at c x)"
    "pk_num (pack_at c e1) \<le> pk_num (pack_at c b2) \<longrightarrow> pk_num (pack_at c e2) = pk_num (pack_at c e1)"
    using walk_down_branch [OF ok m(2) anc(2) e1(2) l(2), of "[]"] by blast
  have e2: "e2 \<in> set (fc_ids c)" "pk_num (pack_at c e1) = pk_num (pack_at c e2)"
    using is_branch_num [OF ok m(2) w2(2)] w2(5) w1(4) by auto
  have "length ys1 \<le> ?n * ?n"
    using branch_length [OF ok e1(1) w1(3)] by (cases ?n) auto
  from walk_both_branch [OF ok e1(1) e2(1) w1(3) w2(3) e2(2) this, of xs1 xs2] obtain b us vs where
    w: "walk_both (?n * ?n) c e1 e2 xs1 xs2 = Inr (b, xs1 @ us, xs2 @ vs)" "is_branch c e1 us b" "is_branch c e2 vs b" "set us \<inter> set vs = {}"
    by blast
  have b: "b \<in> set (fc_ids c)" using is_branch_num [OF ok e1(1) w(2)] by simp
  then have g: "get_block c (pk_id (pack_at c b)) = Some b" by (simp add: get_block_member [OF ok])
  have r: "fetch_branch_from_fork c i1 i2 = Inr \<lparr>fork_node = b, first_branch = xs1 @ us, second_branch = xs2 @ vs\<rparr>"
    unfolding fetch_branch_from_fork_def b1 b2 using w1(1) w2(1) e2(2) w(1) g by simp
  have us: "\<forall>x \<in> set us. pk_num (pack_at c x) \<le> pk_num (pack_at c e1)" "\<forall>x \<in> set vs. pk_num (pack_at c x) \<le> pk_num (pack_at c e1)"
    using is_branch_num [OF ok e1(1) w(2)] is_branch_num [OF ok e2(1) w(3)] e2(2) by (auto simp: u32_arith)
  have x1: "\<forall>x \<in> set xs1. pk_num (pack_at c e1) < pk_num (pack_at c x)" using w1(4,5) by (auto intro: order_le_less_trans)
  have "xs1 = [] \<or> xs2 = []"
  proof (cases "pk_num (pack_at c b1) \<le> pk_num (pack_at c b2)")
    case False
    then have "pk_num (pack_at c e1) = pk_num (pack_at c b2)" using w1(6) by simp
    then have "\<forall>x \<in> set xs2. pk_num (pack_at c b2) < pk_num (pack_at c x)" using w2(4) by simp
    then show ?thesis using is_branch_num [OF ok m(2) w2(2)] by (cases xs2) (auto simp: u32_arith)
  qed (use w1(7) in simp)
  then have "set (xs1 @ us) \<inter> set (xs2 @ vs) = {}"
    using us x1 w2(4) w(4) by (auto simp: not_less [symmetric])
  then show ?thesis using r w1(2) w2(2) w(2,3) by (auto simp: is_branch_append)
qed

section \<open>The file\<close>

lemma fork_load_ok:
  "fork_ok c \<Longrightarrow> \<forall>p \<in> set ps. pack_linked p \<Longrightarrow> fork_ok (snd (fork_load_packs n ps c))"
proof (induction n ps c rule: fork_load_packs.induct)
  case (3 n p ps c)
  define c1 where "c1 = c\<lparr>fc_heap := (fc_heap c)(fc_next c := p), fc_next := Suc (fc_next c)\<rparr>"
  have ok1: "fork_ok c1" using fork_alloc_ok [OF 3(2)] by (simp add: c1_def)
  have "fork_ok (case packs_insert (fc_next c) c1 of None \<Rightarrow> c1 | Some c \<Rightarrow> c)"
  proof (cases "packs_insert (fc_next c) c1")
    case (Some c2)
    have "fork_ok c2" by (rule packs_insert_ok [OF ok1 Some, THEN conjunct1]) (use 3(3) in \<open>simp_all add: c1_def\<close>)
    then show ?thesis using Some by simp
  qed (use ok1 in simp)
  from 3(1) [OF refl refl, unfolded c1_def [symmetric], OF this] show ?case
    using 3(3) unfolding fork_load_packs.simps Let_def c1_def [symmetric] by simp
qed simp_all

lemma fork_load_all:
  "fork_ok c \<Longrightarrow> \<forall>p \<in> set ps. pack_linked p \<Longrightarrow> distinct (map pk_id ps) \<Longrightarrow>
   (\<forall>p \<in> set ps. \<forall>q \<in> set (fc_ids c). pk_id (pack_at c q) \<noteq> pk_id p) \<Longrightarrow>
   \<exists>c'. fork_load_packs (length ps) ps c = (True, c') \<and> fork_ok c' \<and>
     map (pack_at c') (fc_ids c') = map (pack_at c) (fc_ids c) @ ps"
proof (induction ps arbitrary: c)
  case (Cons p ps)
  define c1 where "c1 = c\<lparr>fc_heap := (fc_heap c)(fc_next c := p), fc_next := Suc (fc_next c)\<rparr>"
  have ok1: "fork_ok c1" using fork_alloc_ok [OF Cons.prems(1)] by (simp add: c1_def)
  have n: "fc_next c \<notin> set (fc_ids c)" using fork_okD(13) [OF Cons.prems(1)] by blast
  then have same: "pack_at c1 q = pack_at c q" if "q \<in> set (fc_ids c)" for q using that by (auto simp: c1_def)
  have "packs_find c1 (pk_id (pack_at c1 (fc_next c))) = None"
    using Cons.prems(4) same by (auto simp: packs_find_None c1_def)
  then obtain c2 where c2: "packs_insert (fc_next c) c1 = Some c2" "fc_ids c2 = fc_ids c @ [fc_next c]"
    by (auto simp: packs_insert_def c1_def)
  have ok2: "fork_ok c2" "fc_heap c2 = fc_heap c1"
    using packs_insert_ok [OF ok1 c2(1)] Cons.prems(2) by (auto simp: c1_def)
  have at: "map (pack_at c2) (fc_ids c2) = map (pack_at c) (fc_ids c) @ [p]"
    using same by (simp add: ok2(2) c2(2)) (simp add: c1_def)
  have "\<forall>r \<in> set ps. \<forall>q \<in> set (fc_ids c2). pk_id (pack_at c2 q) \<noteq> pk_id r"
    using Cons.prems(3,4) same by (auto simp: ok2(2) c2(2)) (auto simp: c1_def)
  then obtain c' where "fork_load_packs (length ps) ps c2 = (True, c')" "fork_ok c'"
    "map (pack_at c') (fc_ids c') = map (pack_at c2) (fc_ids c2) @ ps"
    using Cons.IH [OF ok2(1)] Cons.prems by auto
  then show ?case using at c2(1) by (simp add: Let_def flip: c1_def)
qed simp

section \<open>Reachable states\<close>

text \<open>
  The states of the fork database and the handler: opened from a file of sound packs, then changed by the chain's
  calls in any order, whether they return or throw. The chain makes and fills packs of its own before it adds them.
\<close>

inductive fork_run :: "crypto \<Rightarrow> 's irr_handle \<Rightarrow> 's \<times> fork_context \<Rightarrow> bool" for cr irr where
  opened: "(\<forall>f. file = Some f \<longrightarrow> (\<forall>p \<in> set (ff_packs f). pack_linked p)) \<Longrightarrow> fork_run cr irr (s, fork_open file)"
| alloc: "fork_run cr irr (s, c) \<Longrightarrow> fork_run cr irr (s, c\<lparr>fc_heap := (fc_heap c)(fc_next c := q), fc_next := Suc (fc_next c)\<rparr>)"
| fill: "fork_run cr irr (s, c) \<Longrightarrow> p \<notin> set (fc_ids c) \<Longrightarrow> fork_run cr irr (s, c\<lparr>fc_heap := (fc_heap c)(p := q)\<rparr>)"
| outside: "fork_run cr irr (s, c) \<Longrightarrow> fork_run cr irr (s', c)"
| add_pack: "fork_run cr irr (s, c) \<Longrightarrow> pack_linked (pack_at c p) \<Longrightarrow> p < fc_next c \<Longrightarrow>
    fork_run cr irr (left_state (fork_add_pack cr irr p (s, c)))"
| add_block: "fork_run cr irr (s, c) \<Longrightarrow> block_num b \<noteq> 0 \<Longrightarrow> fork_run cr irr (left_state' (fork_add_block cr irr b (s, c)))"
| confirm: "fork_run cr irr (s, c) \<Longrightarrow> fork_run cr irr (s, left_state (fork_add_confirmation cr conf skip c))"
| force: "fork_run cr irr (s, c) \<Longrightarrow> fork_run cr irr (left_state (force_confirm irr i num (s, c)))"
| flag: "fork_run cr irr (s, c) \<Longrightarrow> fork_run cr irr (s, left_state (change_main_chain_flag i b c))"
| remove: "fork_run cr irr (s, c) \<Longrightarrow> fork_run cr irr (s, left_state (remove_chain i c))"

lemma fork_open_ok:
  assumes "\<forall>f. fl = Some f \<longrightarrow> (\<forall>p \<in> set (ff_packs f). pack_linked p)"
  shows "fork_ok (fork_open fl)"
proof (cases fl)
  case (Some f)
  obtain b c where c: "fork_load_packs (unat (ff_size f)) (ff_packs f) empty_fork = (b, c)" by fastforce
  then have "fork_ok c" using fork_load_ok [OF empty_fork_ok, of "ff_packs f" "unat (ff_size f)"] assms Some by simp
  then show ?thesis using c Some fork_ok_cong [of "c\<lparr>fc_head := _\<rparr>" c] by (simp add: fork_open_def)
qed (simp add: fork_open_def empty_fork_ok)

lemma fork_run_ok: "fork_run cr irr sc \<Longrightarrow> fork_ok (snd sc)"
proof (induction rule: fork_run.induct)
  case (fill s c p q)
  then have "fork_ok (poke p q c)" by (intro poke_ok) auto
  then show ?case by (simp add: poke_def)
next
  case (add_pack s c p)
  then show ?case using fork_add_pack_ok [of c p cr irr s] by simp
qed (auto intro: fork_open_ok fork_alloc_ok fork_add_block_ok fork_add_confirmation_ok force_confirm_ok
    change_main_chain_flag_ok remove_chain_ok)

section \<open>A concrete database\<close>

text \<open>A first block, two blocks on it, and one more on the first of these.\<close>

definition demo_id :: "u64 \<Rightarrow> u32 \<Rightarrow> sha256" where
  "demo_id k n = block_id (Sha256 0 k 0 0) n"

definition demo_pack :: "u64 \<Rightarrow> u32 \<Rightarrow> sha256 \<Rightarrow> block_pack" where
  "demo_pack k n pre = new_pack\<lparr>pk_num := n, pk_id := demo_id k n, new_header := empty_header\<lparr>previous := pre\<rparr>\<rparr>"

definition demo_packs :: "block_pack list" where
  "demo_packs = [demo_pack 1 1 empty_sha256, demo_pack 2 2 (demo_id 1 1), demo_pack 3 2 (demo_id 1 1), demo_pack 4 3 (demo_id 2 2)]"

definition demo_fork :: fork_context where
  "demo_fork = fork_open (Some \<lparr>ff_size = 4, ff_head_id = demo_id 4 3, ff_packs = demo_packs\<rparr>)"

lemma demo_linked: "\<forall>p \<in> set demo_packs. pack_linked p"
  by (simp add: demo_packs_def demo_pack_def demo_id_def pack_linked_def prev_id_def new_pack_def empty_header_def)

lemma demo_run: "fork_run cr irr (s, demo_fork)"
  unfolding demo_fork_def by (rule fork_run.opened) (simp add: demo_linked)

lemma demo_ok: "fork_ok demo_fork"
  using fork_run_ok [OF demo_run] by simp

lemma demo_ids: "fc_ids demo_fork = [0, 1, 2, 3]"
  by code_simp

lemma demo_ids_at: "map (\<lambda>p. pk_id (pack_at demo_fork p)) [0, 1, 2, 3] = [demo_id 1 1, demo_id 2 2, demo_id 3 2, demo_id 4 3]"
  by code_simp

section \<open>Properties\<close>

text \<open>
  C10. The fork database stays sound. Opened from a file of linked packs, and after any sequence of its operations
  (adding blocks and packs, confirmations, forced confirmation, changes of the main chain flag, removal of
  chains), also those that threw, its four indices hold the same packs, each in its order, no two packs have the
  same identifier, and every pack carries the number of its identifier, one more than its predecessor's.
\<close>

theorem fork_database_sound:
  assumes "fork_run cr irr (s, c)"
  shows "fork_ok c"
  using fork_run_ok [OF assms] by simp

theorem fork_database_sound_witness: "fork_ok demo_fork"
  by (rule fork_database_sound [where s = "()" and irr = "\<lambda>_ s. Inr s"]) (rule demo_run)

text \<open>
  C11. Confirming a block settles its branch. For a block that the database has, \<^verbatim>\<open>set_last_confirmed\<close>
  returns (its loops end); the block, all its ancestors and all its descendants then name it as last confirmed
  block with its number, every other pack is unchanged, and the database is sound.
\<close>

theorem set_last_confirmed_settles:
  assumes "fork_ok c" and "packs_find c i = Some cp"
  shows "\<exists>c'. set_last_confirmed i c = Inr c' \<and> fork_ok c' \<and> fc_ids c' = fc_ids c \<and>
    (\<forall>p \<in> set (fc_ids c). pack_at c' p =
      (if (i, pk_id (pack_at c p)) \<in> (links c)\<^sup>* \<or> (pk_id (pack_at c p), i) \<in> (links c)\<^sup>*
       then (pack_at c p)\<lparr>last_block_num := pk_num (pack_at c cp), last_confirmed_num := pk_num (pack_at c cp), last_confirmed_id := i\<rparr>
       else pack_at c p))"
  using set_last_confirmed_marked [OF assms]
  by (auto simp: marked_def relatives_def set_confirmed_def)

theorem set_last_confirmed_settles_witness:
  "\<exists>c'. set_last_confirmed (demo_id 2 2) demo_fork = Inr c' \<and> last_confirmed_id (pack_at c' 3) = demo_id 2 2 \<and>
    last_confirmed_id (pack_at c' 0) = demo_id 2 2"
proof -
  have f: "packs_find demo_fork (demo_id 2 2) = Some 1" by code_simp
  have l: "(demo_id 4 3, demo_id 2 2) \<in> links demo_fork" "(demo_id 2 2, demo_id 1 1) \<in> links demo_fork"
    unfolding links_def by (simp, intro exI [of _ 3], code_simp) (simp, intro exI [of _ 1], code_simp)
  have p: "pk_id (pack_at demo_fork 3) = demo_id 4 3" "pk_id (pack_at demo_fork 0) = demo_id 1 1" by code_simp+
  show ?thesis
    using set_last_confirmed_settles [OF demo_ok f] l by (auto simp: demo_ids p)
qed

text \<open>
  C12. Irreversible events happen once and in order. When the handler accepts them,
  \<^verbatim>\<open>on_last_confirmed_grow\<close> calls it exactly for the packs up to the given number that the block has
  confirmed and that were not irreversible yet, in the order of their numbers; it keeps only the packs above the number and
  the confirmed block itself; and a further call with the same block would raise no event.
\<close>

theorem irreversible_once_in_order:
  assumes "fork_ok c" and "run_handler irr (map (pack_at c) (to_settle i num c)) s = Inr s'"
  shows "sorted_wrt (\<lambda>p q. pk_num (pack_at c p) \<le> pk_num (pack_at c q)) (to_settle i num c) \<and>
    (\<exists>c'. on_last_confirmed_grow irr i num (s, c) = Inr (s', c') \<and>
      set (fc_ids c') = {p \<in> set (fc_ids c). num < pk_num (pack_at c p) \<or>
        pk_id (pack_at c p) = i \<and> last_confirmed_id (pack_at c p) = i} \<and>
      to_settle i num c' = [])"
proof -
  from grow_result [OF assms(1), of irr i num s] assms(2) obtain c' where
    g: "on_last_confirmed_grow irr i num (s, c) = Inr (s', c')" "fork_ok c'"
      "set (fc_ids c') = {p \<in> set (fc_ids c). num < pk_num (pack_at c p) \<or>
        pk_id (pack_at c p) = i \<and> last_confirmed_id (pack_at c p) = i}"
      "\<forall>p. pack_at c' p = (if p \<in> set (to_settle i num c) then (pack_at c p)\<lparr>irreversible_confirmed := True\<rparr> else pack_at c p)"
    by auto
  have "to_settle i num c' = []"
    using g(3,4) fork_okD(6) [OF g(2)] fork_okD(6) [OF assms(1)] by (auto simp: to_settle_def filter_empty_conv split: if_splits)
  moreover have "sorted_wrt (\<lambda>p q. pk_num (pack_at c p) \<le> pk_num (pack_at c q)) (to_settle i num c)"
    unfolding to_settle_def by (rule sorted_wrt_filter [OF number_order_num [OF assms(1)]])
  ultimately show ?thesis using g by blast
qed


theorem irreversible_once_in_order_witness:
  "\<exists>c c'. set_last_confirmed (demo_id 2 2) demo_fork = Inr c \<and>
    on_last_confirmed_grow (\<lambda>p ns. Inr (ns @ [pk_num p])) (demo_id 2 2) 2 ([], c) = Inr ([1, 2], c') \<and>
    set (fc_ids c') \<subseteq> {1, 3}"
proof -
  define c where "c = left_state (set_last_confirmed (demo_id 2 2) demo_fork)"
  have c: "set_last_confirmed (demo_id 2 2) demo_fork = Inr c"
    using set_last_confirmed_settles [OF demo_ok, of "demo_id 2 2" 1] unfolding c_def by (auto simp: packs_find_Some [OF demo_ok] demo_ids demo_ids_at [simplified])
  have ok: "fork_ok c" using set_last_confirmed_ok [OF demo_ok, of "demo_id 2 2"] by (simp add: c_def)
  have "run_handler (\<lambda>p ns. Inr (ns @ [pk_num p])) (map (pack_at c) (to_settle (demo_id 2 2) 2 c)) [] = Inr [1, 2]"
    unfolding c_def by code_simp
  from irreversible_once_in_order [OF ok this] obtain c' where
    g: "on_last_confirmed_grow (\<lambda>p ns. Inr (ns @ [pk_num p])) (demo_id 2 2) 2 ([], c) = Inr ([1, 2], c')"
      "set (fc_ids c') = {p \<in> set (fc_ids c). 2 < pk_num (pack_at c p) \<or>
        pk_id (pack_at c p) = demo_id 2 2 \<and> last_confirmed_id (pack_at c p) = demo_id 2 2}" by blast
  moreover have "{p \<in> set (fc_ids c). 2 < pk_num (pack_at c p) \<or>
        pk_id (pack_at c p) = demo_id 2 2 \<and> last_confirmed_id (pack_at c p) = demo_id 2 2} \<subseteq> {1, 3}"
  proof -
    have "fc_ids c = [0, 1, 2, 3] \<and> (\<forall>p \<in> {0, 1, 2, 3}. pk_num (pack_at c p) = pk_num (pack_at demo_fork p) \<and>
        pk_id (pack_at c p) = pk_id (pack_at demo_fork p))"
      using set_last_confirmed_marked [OF demo_ok, of "demo_id 2 2" 1] c
      by (auto simp: packs_find_Some [OF demo_ok] demo_ids demo_ids_at [simplified] marked_def set_confirmed_def)
    moreover have "pk_num (pack_at demo_fork 0) = 1" "pk_num (pack_at demo_fork 2) = 2" "demo_id 1 1 \<noteq> demo_id 2 2" "demo_id 3 2 \<noteq> demo_id 2 2"
      by code_simp+
    ultimately show ?thesis using demo_ids_at by auto
  qed
  ultimately show ?thesis using c by blast
qed


definition demo_crypto :: crypto where
  "demo_crypto = \<lparr>cr_header = \<lambda>_. Sha256 0 5 0 0, cr_confirmation = \<lambda>_. empty_sha256, cr_receipt = \<lambda>_. empty_sha256,
     cr_transaction = \<lambda>_. empty_sha256, cr_pair = \<lambda>_. empty_sha256, cr_recover = \<lambda>_ _. Some empty_public_key,
     cr_sign = \<lambda>_ _. []\<rparr>"

definition demo_longer :: fork_context where
  "demo_longer = demo_fork\<lparr>fc_heap := (fc_heap demo_fork)(4 := (demo_pack 5 4 (demo_id 4 3))\<lparr>pk_block := empty_block\<lparr>previous := demo_id 4 3\<rparr>\<rparr>),
     fc_next := 5\<rparr>"


text \<open>
  C14. The fork point is found. For two blocks of the database with a common ancestor in it,
  \<^verbatim>\<open>fetch_branch_from_fork\<close> returns; its branches are the packs on the ways from the blocks down to the
  fork node, which is on both ways, and they have no pack in common, so that the node is the latest common ancestor.
\<close>

theorem fetch_branch_finds_fork:
  assumes "fork_ok c" and "get_block c i1 = Some b1" and "get_block c i2 = Some b2"
    and "is_branch c b1 ys a" and "is_branch c b2 zs a"
  shows "\<exists>r. fetch_branch_from_fork c i1 i2 = Inr r \<and> is_branch c b1 (first_branch r) (fork_node r) \<and>
    is_branch c b2 (second_branch r) (fork_node r) \<and> set (first_branch r) \<inter> set (second_branch r) = {}"
  by (rule fetch_branch_result [OF assms])

theorem fetch_branch_finds_fork_witness:
  "\<exists>r. fetch_branch_from_fork demo_fork (demo_id 4 3) (demo_id 3 2) = Inr r \<and> fork_node r = 0 \<and>
    is_branch demo_fork 3 (first_branch r) 0"
proof -
  have "get_block demo_fork (demo_id 4 3) = Some 3" "get_block demo_fork (demo_id 3 2) = Some 2"
    "is_branch demo_fork 3 [3, 1] 0" "is_branch demo_fork 2 [2] 0" by code_simp+
  from fetch_branch_finds_fork [OF demo_ok this] obtain r where
    r: "fetch_branch_from_fork demo_fork (demo_id 4 3) (demo_id 3 2) = Inr r" "is_branch demo_fork 3 (first_branch r) (fork_node r)"
    by blast
  have "(case fetch_branch_from_fork demo_fork (demo_id 4 3) (demo_id 3 2) of Inl e \<Rightarrow> False | Inr r \<Rightarrow> fork_node r = 0)" by code_simp
  then have "fork_node r = 0" using r(1) by simp
  with r show ?thesis by auto
qed

text \<open>
  C15. Removing a bad block removes too much. \<^verbatim>\<open>remove_chain\<close> ends; the block and all its descendants are
  gone afterwards. But with them every pack is gone whose predecessor's identifier is not below the block's in byte
  order, related or not: the loop over the children never compares identifiers.
\<close>

theorem remove_chain_removes:
  assumes "fork_ok c"
  shows "\<exists>c'. remove_loop [i] c = Some c' \<and> remove_chain i c = update_head c' \<and> fork_ok c' \<and>
    (\<forall>p \<in> set (fc_ids c'). p \<in> set (fc_ids c) \<and> pack_at c' p = pack_at c p \<and> (pk_id (pack_at c p), i) \<notin> (links c)\<^sup>* \<and>
      sha256_less (prev_id (pack_at c p)) i)"
proof -
  obtain c' where c': "remove_loop [i] c = Some c'" "fork_ok c'" "fc_heap c' = fc_heap c" "set (fc_ids c') \<subseteq> set (fc_ids c)"
    "\<forall>j \<in> set [i] \<union> (\<lambda>p. pk_id (pack_at c p)) ` (set (fc_ids c) - set (fc_ids c')).
        \<forall>p \<in> set (fc_ids c'). pk_id (pack_at c p) \<noteq> j \<and> sha256_less (prev_id (pack_at c p)) j"
    using remove_loop_result [OF assms, of "[i]"] by blast
  let ?gone = "set [i] \<union> (\<lambda>p. pk_id (pack_at c p)) ` (set (fc_ids c) - set (fc_ids c'))"
  have "x \<in> ?gone" if "(x, i) \<in> (links c)\<^sup>*" for x
    using that
  proof (induction rule: converse_rtrancl_induct)
    case (step x y)
    then obtain p where p: "p \<in> set (fc_ids c)" "x = pk_id (pack_at c p)" "y = prev_id (pack_at c p)" by (auto simp: links_def)
    have "p \<notin> set (fc_ids c')"
      using bspec [OF bspec [OF c'(5) step.IH], of p] p(3) pre_order.asym [of y y] by metis
    then show ?case using p by blast
  qed simp
  then have "(pk_id (pack_at c p), i) \<notin> (links c)\<^sup>*" if "p \<in> set (fc_ids c')" for p using c'(5) that by blast
  then show ?thesis using c' by (auto simp: remove_chain_def)
qed

theorem remove_chain_removes_witness:
  "\<exists>c'. remove_chain (demo_id 2 2) demo_fork = update_head c' \<and> 3 \<notin> set (fc_ids c') \<and> fork_ok c'"
proof -
  obtain c' where c': "remove_chain (demo_id 2 2) demo_fork = update_head c'" "fork_ok c'"
    "\<forall>p \<in> set (fc_ids c'). (pk_id (pack_at demo_fork p), demo_id 2 2) \<notin> (links demo_fork)\<^sup>*"
    using remove_chain_removes [OF demo_ok, of "demo_id 2 2"] by blast
  have "(pk_id (pack_at demo_fork 3), prev_id (pack_at demo_fork 3)) \<in> links demo_fork" by (rule linksI) (simp add: demo_ids)
  moreover have "prev_id (pack_at demo_fork 3) = demo_id 2 2" by code_simp
  ultimately show ?thesis using c' by auto
qed



end
