(* ===== verification/Fc_Raw.thy ===== *)
theory Fc_Raw
  imports Chain_Types
begin

text \<open>
  The binary format of blocks: \<^verbatim>\<open>fc::raw::pack\<close> and \<^verbatim>\<open>fc::raw::unpack\<close> (\<^verbatim>\<open>fc/io/raw.hpp\<close>) for the
  types a block is made of. Packing gives bytes; unpacking takes them from the front of a stream and throws when there are too few.
  The locale \<open>raw_codec\<close> is the contract between the two, for each type.

  \<^verbatim>\<open>sizeof\<close> of the element type, which the limit on vector lengths uses, is fixed by the compiler; it is an
  argument, a function of the element type. A stored byte that names no enumerator is taken as undefined.
\<close>

type_synonym 'a unpacker = "bytes \<Rightarrow> chain_exc + ('a \<times> bytes)"

section \<open>Numbers and fixed arrays\<close>

definition stream_read :: "nat \<Rightarrow> bytes \<Rightarrow> chain_exc + (bytes \<times> bytes)" where
  "stream_read n bs = (if n \<le> length bs then Inr (take n bs, drop n bs) else Inl OutOfRange)"

definition unpack_fixed :: "nat \<Rightarrow> (bytes \<Rightarrow> 'a) \<Rightarrow> 'a unpacker" where
  "unpack_fixed n f bs = (case stream_read n bs of Inl e \<Rightarrow> Inl e | Inr (b, bs) \<Rightarrow> Inr (f b, bs))"

definition pack_u8 :: "u8 \<Rightarrow> bytes" where "pack_u8 b = [b]"
definition unpack_u8 :: "u8 unpacker" where "unpack_u8 = unpack_fixed 1 hd"

definition pack_u16 :: "u16 \<Rightarrow> bytes" where "pack_u16 w = [ucast w, ucast (drop_bit 8 w)]"
definition of_le16 :: "bytes \<Rightarrow> u16" where "of_le16 b = ucast (b ! 0) OR push_bit 8 (ucast (b ! 1))"
definition unpack_u16 :: "u16 unpacker" where "unpack_u16 = unpack_fixed 2 of_le16"

definition unpack_u32 :: "u32 unpacker" where "unpack_u32 = unpack_fixed 4 of_le32"
definition unpack_u64 :: "u64 unpacker" where "unpack_u64 = unpack_fixed 8 of_le64"

definition pack_u128 :: "u128 \<Rightarrow> bytes" where "pack_u128 w = le64 (ucast w) @ le64 (ucast (drop_bit 64 w))"
definition of_le128 :: "bytes \<Rightarrow> u128" where
  "of_le128 b = ucast (of_le64 (take 8 b)) OR push_bit 64 (ucast (of_le64 (drop 8 b)))"
definition unpack_u128 :: "u128 unpacker" where "unpack_u128 = unpack_fixed 16 of_le128"

definition of_sha256_bytes :: "bytes \<Rightarrow> sha256" where
  "of_sha256_bytes b = Sha256 (of_le64 (take 8 b)) (of_le64 (take 8 (drop 8 b)))
     (of_le64 (take 8 (drop 16 b))) (of_le64 (drop 24 b))"
definition unpack_sha256 :: "sha256 unpacker" where "unpack_sha256 = unpack_fixed 32 of_sha256_bytes"

section \<open>unsigned\_int\<close>

text \<open>The loops run at least once. A shift of a 32-bit value by 32 or more is undefined.\<close>

function pack_varint :: "u64 \<Rightarrow> bytes" where
  "pack_varint val =
     (let b = ucast val AND 0x7F; val = drop_bit 7 val
      in if val > 0 then (b OR 0x80) # pack_varint val else [b])"
  by pat_completeness auto
termination
proof (relation "measure unat", goal_cases)
  case (2 val x xa)
  have "unat (val div 128) = unat val div 128" by (simp add: unat_div)
  moreover have "unat (val div 128) > 0" using 2 by (simp add: word_less_nat_alt drop_bit_eq_div)
  ultimately show ?case using 2 by (simp add: drop_bit_eq_div)
qed simp

declare pack_varint.simps [simp del]

definition pack_unsigned_int :: "u32 \<Rightarrow> bytes" where
  "pack_unsigned_int v = pack_varint (ucast v)"

fun unpack_varint :: "nat \<Rightarrow> u64 \<Rightarrow> u32 unpacker" where
  "unpack_varint by v [] = Inl OutOfRange"
| "unpack_varint by v (b # bs) =
     (if by \<ge> 32 then Inl Undefined
      else let v = v OR ucast (push_bit by (ucast (b AND 0x7F) :: u32))
        in if b AND 0x80 \<noteq> 0 then unpack_varint (by + 7) v bs else Inr (ucast v, bs))"

definition unpack_unsigned_int :: "u32 unpacker" where
  "unpack_unsigned_int = unpack_varint 0 0"

section \<open>Containers\<close>

abbreviation (input) MAX_ARRAY_ALLOC_SIZE :: nat where "MAX_ARRAY_ALLOC_SIZE \<equiv> 10485760"

datatype elem_type = ElemName | ElemAuth | ElemMessage | ElemSignature | ElemBuilder | ElemReceipt

type_synonym size_of = "elem_type \<Rightarrow> nat"

definition pack_bool :: "bool \<Rightarrow> bytes" where "pack_bool b = pack_u8 (if b then 1 else 0)"

definition unpack_bool :: "bool unpacker" where
  "unpack_bool bs = (case unpack_u8 bs of Inl e \<Rightarrow> Inl e
     | Inr (b, bs) \<Rightarrow> if b AND NOT 1 = 0 then Inr (b \<noteq> 0, bs) else Inl FcAssert)"

definition pack_bytes :: "bytes \<Rightarrow> bytes" where
  "pack_bytes v = pack_unsigned_int (of_nat (length v)) @ v"

definition unpack_bytes :: "bytes unpacker" where
  "unpack_bytes bs = (case unpack_unsigned_int bs of Inl e \<Rightarrow> Inl e
     | Inr (n, bs) \<Rightarrow> if unat n < MAX_ARRAY_ALLOC_SIZE then stream_read (unat n) bs else Inl FcAssert)"

definition pack_vector :: "('a \<Rightarrow> bytes) \<Rightarrow> 'a list \<Rightarrow> bytes" where
  "pack_vector pk v = pack_unsigned_int (of_nat (length v)) @ concat (map pk v)"

fun unpack_n :: "'a unpacker \<Rightarrow> nat \<Rightarrow> 'a list unpacker" where
  "unpack_n up 0 bs = Inr ([], bs)"
| "unpack_n up (Suc n) bs = (case up bs of Inl e \<Rightarrow> Inl e
     | Inr (x, bs) \<Rightarrow> (case unpack_n up n bs of Inl e \<Rightarrow> Inl e | Inr (xs, bs) \<Rightarrow> Inr (x # xs, bs)))"

definition unpack_vector :: "nat \<Rightarrow> 'a unpacker \<Rightarrow> 'a list unpacker" where
  "unpack_vector sz up bs = (case unpack_unsigned_int bs of Inl e \<Rightarrow> Inl e
     | Inr (n, bs) \<Rightarrow> if unat n * sz < MAX_ARRAY_ALLOC_SIZE then unpack_n up (unat n) bs else Inl FcAssert)"

definition pack_optional :: "('a \<Rightarrow> bytes) \<Rightarrow> 'a option \<Rightarrow> bytes" where
  "pack_optional pk v = pack_bool (v \<noteq> None) @ (case v of None \<Rightarrow> [] | Some x \<Rightarrow> pk x)"

definition unpack_optional :: "'a unpacker \<Rightarrow> 'a option unpacker" where
  "unpack_optional up bs = (case unpack_bool bs of Inl e \<Rightarrow> Inl e
     | Inr (b, bs) \<Rightarrow> if b then (case up bs of Inl e \<Rightarrow> Inl e | Inr (x, bs) \<Rightarrow> Inr (Some x, bs)) else Inr (None, bs))"

text \<open>The fields of a reflected structure one after the other.\<close>

definition unpack_then :: "'a unpacker \<Rightarrow> ('a \<Rightarrow> 'b unpacker) \<Rightarrow> 'b unpacker" where
  "unpack_then up f bs = (case up bs of Inl e \<Rightarrow> Inl e | Inr (x, bs) \<Rightarrow> f x bs)"

definition unpack_done :: "'a \<Rightarrow> 'a unpacker" where
  "unpack_done x bs = Inr (x, bs)"

section \<open>The types of a block\<close>

definition pack_auth :: "account_auth \<Rightarrow> bytes" where
  "pack_auth a = pack_u128 (auth_account a) @ pack_u128 (auth_authority a)"

definition unpack_auth :: "account_auth unpacker" where
  "unpack_auth = unpack_then unpack_u128 (\<lambda>a. unpack_then unpack_u128 (\<lambda>p.
     unpack_done \<lparr>auth_account = a, auth_authority = p\<rparr>))"

definition pack_message :: "message \<Rightarrow> bytes" where
  "pack_message m = pack_u128 (msg_code m) @ pack_u128 (msg_type m) @ pack_vector pack_auth (msg_authorization m) @ pack_bytes (msg_data m)"

definition unpack_message :: "size_of \<Rightarrow> message unpacker" where
  "unpack_message so = unpack_then unpack_u128 (\<lambda>c. unpack_then unpack_u128 (\<lambda>t.
     unpack_then (unpack_vector (so ElemAuth) unpack_auth) (\<lambda>a. unpack_then unpack_bytes (\<lambda>d.
     unpack_done \<lparr>msg_code = c, msg_type = t, msg_authorization = a, msg_data = d\<rparr>))))"

definition pack_signed_transaction :: "signed_transaction \<Rightarrow> bytes" where
  "pack_signed_transaction t =
     pack_u16 (ref_block_num t) @ le32 (ref_block_prefix t) @ le64 (expiration t) @
     pack_vector pack_u128 (trx_scope t) @ pack_vector pack_u128 (trx_read_scope t) @ pack_vector pack_message (messages t) @
     pack_u128 (gas_payer t) @ le64 (trx_gas t) @ le64 (gaslimit t) @ pack_vector id (signatures t)"

definition unpack_signed_transaction :: "size_of \<Rightarrow> signed_transaction unpacker" where
  "unpack_signed_transaction so = unpack_then unpack_u16 (\<lambda>n. unpack_then unpack_u32 (\<lambda>p. unpack_then unpack_u64 (\<lambda>e.
     unpack_then (unpack_vector (so ElemName) unpack_u128) (\<lambda>s. unpack_then (unpack_vector (so ElemName) unpack_u128) (\<lambda>r.
     unpack_then (unpack_vector (so ElemMessage) (unpack_message so)) (\<lambda>m.
     unpack_then unpack_u128 (\<lambda>y. unpack_then unpack_u64 (\<lambda>g. unpack_then unpack_u64 (\<lambda>l.
     unpack_then (unpack_vector (so ElemSignature) (stream_read 65)) (\<lambda>sg.
     unpack_done \<lparr>ref_block_num = n, ref_block_prefix = p, expiration = e, trx_scope = s, trx_read_scope = r,
       messages = m, gas_payer = y, trx_gas = g, gaslimit = l, signatures = sg\<rparr>))))))))))"

definition pack_code :: "package_code \<Rightarrow> bytes" where
  "pack_code c = pack_u8 (case c of PackageEmpty \<Rightarrow> 0 | PackageOriginal \<Rightarrow> 1 | PackageZlib \<Rightarrow> 2)"

definition unpack_code :: "package_code unpacker" where
  "unpack_code = unpack_then unpack_u8 (\<lambda>b bs. if b = 0 then Inr (PackageEmpty, bs) else if b = 1 then Inr (PackageOriginal, bs)
     else if b = 2 then Inr (PackageZlib, bs) else Inl Undefined)"

definition pack_result :: "receipt_result \<Rightarrow> bytes" where
  "pack_result r = pack_u8 (case r of ReceiptApplied \<Rightarrow> 0 | ReceiptFailure \<Rightarrow> 1)"

definition unpack_result :: "receipt_result unpacker" where
  "unpack_result = unpack_then unpack_u8 (\<lambda>b bs. if b = 0 then Inr (ReceiptApplied, bs)
     else if b = 1 then Inr (ReceiptFailure, bs) else Inl Undefined)"

definition pack_package :: "transaction_package \<Rightarrow> bytes" where
  "pack_package p = pack_code (pkg_code p) @ pack_signed_transaction (pkg_body p)"

definition unpack_package :: "size_of \<Rightarrow> transaction_package unpacker" where
  "unpack_package so = unpack_then unpack_code (\<lambda>c. unpack_then (unpack_signed_transaction so) (\<lambda>b.
     unpack_done \<lparr>pkg_code = c, pkg_body = b\<rparr>))"

text \<open>
  \<^verbatim>\<open>set_which\<close> takes an \<^verbatim>\<open>int\<close>: an index from $2^{31}$ on is negative there, passes the test against
  the number of alternatives, and ends in an exception that leaves a destructor.
\<close>

definition pack_trx :: "trx_variant \<Rightarrow> bytes" where
  "pack_trx t = (case t of TrxId i \<Rightarrow> pack_unsigned_int 0 @ sha256_bytes i | TrxPackage p \<Rightarrow> pack_unsigned_int 1 @ pack_package p)"

definition unpack_trx :: "size_of \<Rightarrow> trx_variant unpacker" where
  "unpack_trx so = unpack_then unpack_unsigned_int (\<lambda>w.
     if w = 0 then unpack_then unpack_sha256 (\<lambda>i. unpack_done (TrxId i))
     else if w = 1 then unpack_then (unpack_package so) (\<lambda>p. unpack_done (TrxPackage p))
     else if w < 0x80000000 then (\<lambda>bs. Inl FcAssert) else (\<lambda>bs. Inl Undefined))"

definition pack_receipt :: "transaction_receipt \<Rightarrow> bytes" where
  "pack_receipt r = le64 (receipt_idx r) @ pack_result (receipt_result r) @ pack_trx (receipt_trx r)"

definition unpack_receipt :: "size_of \<Rightarrow> transaction_receipt unpacker" where
  "unpack_receipt so = unpack_then unpack_u64 (\<lambda>i. unpack_then unpack_result (\<lambda>r. unpack_then (unpack_trx so) (\<lambda>t.
     unpack_done \<lparr>receipt_idx = i, receipt_result = r, receipt_trx = t\<rparr>)))"

definition pack_builder :: "builder_info \<Rightarrow> bytes" where
  "pack_builder b = pack_u128 (builder_name b) @ block_signing_key b"

definition unpack_builder :: "builder_info unpacker" where
  "unpack_builder = unpack_then unpack_u128 (\<lambda>n. unpack_then (stream_read 33) (\<lambda>k.
     unpack_done \<lparr>builder_name = n, block_signing_key = k\<rparr>))"

definition pack_rule :: "builder_rule \<Rightarrow> bytes" where
  "pack_rule r = le32 (rule_version r) @ pack_vector pack_builder (rule_builders r)"

definition unpack_rule :: "size_of \<Rightarrow> builder_rule unpacker" where
  "unpack_rule so = unpack_then unpack_u32 (\<lambda>v. unpack_then (unpack_vector (so ElemBuilder) unpack_builder) (\<lambda>b.
     unpack_done \<lparr>rule_version = v, rule_builders = b\<rparr>))"

definition pack_block :: "signed_block \<Rightarrow> bytes" where
  "pack_block b = sha256_bytes (previous b) @ le32 (timestamp b) @ sha256_bytes (trxs_mroot b) @ pack_u128 (builder b) @
     pack_optional pack_rule (next_builders b) @ builder_signature b @ pack_vector pack_receipt (receipts b)"

definition unpack_block :: "size_of \<Rightarrow> signed_block unpacker" where
  "unpack_block so = unpack_then unpack_sha256 (\<lambda>p. unpack_then unpack_u32 (\<lambda>t. unpack_then unpack_sha256 (\<lambda>m.
     unpack_then unpack_u128 (\<lambda>b. unpack_then (unpack_optional (unpack_rule so)) (\<lambda>n. unpack_then (stream_read 65) (\<lambda>s.
     unpack_then (unpack_vector (so ElemReceipt) (unpack_receipt so)) (\<lambda>r.
     unpack_done \<lparr>previous = p, timestamp = t, trxs_mroot = m, builder = b, next_builders = n,
       builder_signature = s, receipts = r\<rparr>)))))))"

section \<open>Round trips\<close>

locale raw_codec =
  fixes pk :: "'a \<Rightarrow> bytes" and up :: "'a unpacker" and ok :: "'a \<Rightarrow> bool"
  assumes unpack_pack: "ok x \<Longrightarrow> up (pk x @ r) = Inr (x, r)"
begin

lemma field: "ok x \<Longrightarrow> unpack_then up f (pk x @ r) = f x r"
  by (simp add: unpack_then_def unpack_pack)

lemma elements: "\<forall>x \<in> set xs. ok x \<Longrightarrow> unpack_n up (length xs) (concat (map pk xs) @ r) = Inr (xs, r)"
  by (induction xs) (simp_all add: unpack_pack)

end

lemma le128_roundtrip: "of_le128 (pack_u128 w) = w"
  unfolding of_le128_def pack_u128_def
  by (rule bit_word_eqI) (auto simp: bit_simps)

lemma le16_roundtrip: "of_le16 (pack_u16 w) = w"
  unfolding of_le16_def pack_u16_def
  by (rule bit_word_eqI) (auto simp: bit_simps)

lemma sha256_roundtrip: "of_sha256_bytes (sha256_bytes h) = h"
  by (cases h) (simp add: of_sha256_bytes_def sha256_bytes_def)

lemma fixed_roundtrip: "length b = n \<Longrightarrow> unpack_fixed n f (b @ r) = Inr (f b, r)"
  by (simp add: unpack_fixed_def stream_read_def)

interpretation u8_codec: raw_codec pack_u8 unpack_u8 "\<lambda>_. True"
  by unfold_locales (simp add: unpack_u8_def pack_u8_def unpack_fixed_def stream_read_def)

lemma length_pack_u16 [simp]: "length (pack_u16 w) = 2"
  by (simp add: pack_u16_def)

interpretation u16_codec: raw_codec pack_u16 unpack_u16 "\<lambda>_. True"
  by unfold_locales (simp add: unpack_u16_def fixed_roundtrip le16_roundtrip)

interpretation u32_codec: raw_codec le32 unpack_u32 "\<lambda>_. True"
  by unfold_locales (simp add: unpack_u32_def fixed_roundtrip)

interpretation u64_codec: raw_codec le64 unpack_u64 "\<lambda>_. True"
  by unfold_locales (simp add: unpack_u64_def fixed_roundtrip)

lemma length_pack_u128 [simp]: "length (pack_u128 w) = 16"
  by (simp add: pack_u128_def)

interpretation u128_codec: raw_codec pack_u128 unpack_u128 "\<lambda>_. True"
  by unfold_locales (simp add: unpack_u128_def fixed_roundtrip le128_roundtrip)

interpretation sha256_codec: raw_codec sha256_bytes unpack_sha256 "\<lambda>_. True"
  by unfold_locales (simp add: unpack_sha256_def fixed_roundtrip sha256_roundtrip)

interpretation array_codec: raw_codec id "stream_read n" "\<lambda>b. length b = n" for n
  by unfold_locales (simp add: stream_read_def)

section \<open>unsigned\_int\<close>

lemma pack_varint_step:
  "pack_varint v = (if drop_bit 7 v \<noteq> 0 then (ucast v AND 0x7F OR 0x80) # pack_varint (drop_bit 7 v) else [ucast v AND 0x7F])"
  by (subst pack_varint.simps) (simp add: Let_def word_neq_0_conv)

lemma bit_0x80: "bit (0x80 :: u8) n \<longleftrightarrow> n = 7" "bit (0x7F :: u8) n \<longleftrightarrow> n < 7"
proof -
  have e: "(0x80 :: u8) = 2 ^ 7" "(0x7F :: u8) = mask 7" by (simp_all add: mask_eq_exp_minus_1)
  show "bit (0x80 :: u8) n \<longleftrightarrow> n = 7" unfolding e bit_exp_iff by auto
  show "bit (0x7F :: u8) n \<longleftrightarrow> n < 7" unfolding e bit_mask_iff by auto
qed

lemma varint_byte:
  "(b AND 0x7F) AND 0x80 = (0 :: u8)" "(b AND 0x7F OR 0x80) AND 0x80 \<noteq> (0 :: u8)" "(b AND 0x7F OR 0x80) AND 0x7F = b AND (0x7F :: u8)"
proof -
  show "(b AND 0x7F) AND 0x80 = (0 :: u8)"
    by (rule bit_word_eqI) (auto simp only: bit_and_iff bit_0x80 bit_0_eq bot_apply bot_bool_def)
  have "bit ((b AND 0x7F OR 0x80) AND 0x80 :: u8) 7" by (simp only: bit_and_iff bit_or_iff bit_0x80) simp
  then show "(b AND 0x7F OR 0x80) AND 0x80 \<noteq> (0 :: u8)" by (metis bit_0_eq bot_apply bot_bool_def)
  show "(b AND 0x7F OR 0x80) AND 0x7F = b AND (0x7F :: u8)"
    by (rule bit_word_eqI) (auto simp only: bit_and_iff bit_or_iff bit_0x80)
qed

text \<open>The bits of a value that a byte at position \<open>k\<close> adds.\<close>

lemma varint_bits:
  fixes v :: u32
  assumes "k < 32"
  shows "take_bit k (ucast v :: u64) OR ucast (push_bit k (ucast (ucast (drop_bit k (ucast v :: u64)) AND (0x7F :: u8)) :: u32)) =
    take_bit (k + 7) (ucast v :: u64)"
proof (rule bit_word_eqI)
  fix n assume n: "n < LENGTH(64)"
  show "bit (take_bit k (ucast v :: u64) OR ucast (push_bit k (ucast (ucast (drop_bit k (ucast v :: u64)) AND (0x7F :: u8)) :: u32))) n =
    bit (take_bit (k + 7) (ucast v :: u64)) n"
    unfolding bit_take_bit_iff bit_or_iff bit_ucast_iff bit_push_bit_iff bit_drop_bit_eq o_def bit_and_iff bit_0x80
    using n assms by (auto dest: bit_imp_le_length)
qed

lemma unpack_varint_pack:
  fixes v :: u32
  assumes "k < 32"
  shows "unpack_varint k (take_bit k (ucast v)) (pack_varint (drop_bit k (ucast v)) @ r) = Inr (v, r)"
  using assms
proof (induction "32 - k" arbitrary: k rule: less_induct)
  case less
  let ?v = "ucast v :: u64"
  let ?b = "ucast (drop_bit k ?v) AND 0x7F :: u8"
  have acc: "take_bit k ?v OR ucast (push_bit k (ucast ?b :: u32)) = take_bit (k + 7) ?v"
    by (rule varint_bits [OF less.prems])
  show ?case
  proof (cases "drop_bit 7 (drop_bit k ?v) = 0")
    case True
    then have d: "drop_bit (k + 7) ?v = 0" by (simp add: add.commute)
    have "take_bit (k + 7) ?v = ?v" using bits_ident [of "k + 7" ?v] d by simp
    then show ?thesis
      using less.prems True acc varint_byte(1) [of "ucast (drop_bit k ?v)"]
      by (subst pack_varint_step) (simp add: Let_def and.assoc)
  next
    case False
    then have d: "drop_bit (k + 7) ?v \<noteq> 0" by (simp add: add.commute)
    have k: "k + 7 < 32"
    proof (rule ccontr)
      assume "\<not> k + 7 < 32"
      then have "drop_bit (k + 7) ?v = 0"
        by (intro bit_word_eqI) (auto simp: bit_drop_bit_eq bit_ucast_iff dest: bit_imp_le_length)
      with d show False ..
    qed
    have ih: "unpack_varint (k + 7) (take_bit (k + 7) ?v) (pack_varint (drop_bit (k + 7) ?v) @ r) = Inr (v, r)"
      by (rule less.hyps) (use k in auto)
    have b7: "(?b OR 0x80) AND 0x7F = ?b" using varint_byte(3) [of "ucast (drop_bit k ?v)"] by simp
    show ?thesis
      using False less.prems varint_byte(2) [of "ucast (drop_bit k ?v)"] ih acc b7
      by (subst pack_varint_step) (simp add: Let_def add.commute)
  qed
qed

interpretation unsigned_int_codec: raw_codec pack_unsigned_int unpack_unsigned_int "\<lambda>_. True"
  using unpack_varint_pack [of 0] by unfold_locales (simp add: unpack_unsigned_int_def pack_unsigned_int_def)


section \<open>Containers and structures\<close>

interpretation bool_codec: raw_codec pack_bool unpack_bool "\<lambda>_. True"
  by unfold_locales (simp add: pack_bool_def unpack_bool_def u8_codec.unpack_pack)

interpretation bytes_codec: raw_codec pack_bytes unpack_bytes "\<lambda>b. length b < MAX_ARRAY_ALLOC_SIZE"
  by unfold_locales (simp add: pack_bytes_def unpack_bytes_def unsigned_int_codec.unpack_pack unat_of_nat_u32 stream_read_def)

definition vec_ok :: "nat \<Rightarrow> ('a \<Rightarrow> bool) \<Rightarrow> 'a list \<Rightarrow> bool" where
  "vec_ok sz ok xs \<longleftrightarrow> 0 < sz \<and> length xs * sz < MAX_ARRAY_ALLOC_SIZE \<and> (\<forall>x \<in> set xs. ok x)"

context raw_codec
begin

lemma vector_codec: "raw_codec (pack_vector pk) (unpack_vector sz up) (vec_ok sz ok)"
proof
  fix xs r assume "vec_ok sz ok xs"
  then have sz: "0 < sz" "length xs * sz < MAX_ARRAY_ALLOC_SIZE" "\<forall>x \<in> set xs. ok x" by (simp_all add: vec_ok_def)
  have "length xs \<le> length xs * sz" using sz(1) by simp
  then have "length xs < 10485760" by (rule order_le_less_trans [OF _ sz(2)])
  then have "length xs < 2 ^ 32" by simp
  then have "unat (of_nat (length xs) :: u32) = length xs" by (rule unat_of_nat_u32)
  then show "unpack_vector sz up (pack_vector pk xs @ r) = Inr (xs, r)"
    using sz(2) elements [OF sz(3), of r] by (simp add: pack_vector_def unpack_vector_def unsigned_int_codec.unpack_pack)
qed

lemma optional_codec: "raw_codec (pack_optional pk) (unpack_optional up) (\<lambda>v. \<forall>x. v = Some x \<longrightarrow> ok x)"
  by unfold_locales (auto simp: pack_optional_def unpack_optional_def bool_codec.unpack_pack unpack_pack split: option.splits)

end

lemmas field_simps_raw = u8_codec.field u16_codec.field u32_codec.field u64_codec.field u128_codec.field sha256_codec.field
  array_codec.field [unfolded id_apply] bytes_codec.field unsigned_int_codec.field

interpretation auth_codec: raw_codec pack_auth unpack_auth "\<lambda>_. True"
  by unfold_locales (simp add: pack_auth_def unpack_auth_def field_simps_raw unpack_done_def)

interpretation auths_codec: raw_codec "pack_vector pack_auth" "unpack_vector sz unpack_auth" "vec_ok sz (\<lambda>_. True)" for sz
  by (rule auth_codec.vector_codec)

definition message_ok :: "size_of \<Rightarrow> message \<Rightarrow> bool" where
  "message_ok so m \<longleftrightarrow> vec_ok (so ElemAuth) (\<lambda>_. True) (msg_authorization m) \<and> length (msg_data m) < MAX_ARRAY_ALLOC_SIZE"

interpretation message_codec: raw_codec pack_message "unpack_message so" "message_ok so" for so
  by unfold_locales (simp add: pack_message_def unpack_message_def message_ok_def field_simps_raw auths_codec.field unpack_done_def)

interpretation messages_codec: raw_codec "pack_vector pack_message" "unpack_vector sz (unpack_message so)" "vec_ok sz (message_ok so)" for sz so
  by (rule message_codec.vector_codec)

interpretation names_codec: raw_codec "pack_vector pack_u128" "unpack_vector sz unpack_u128" "vec_ok sz (\<lambda>_. True)" for sz
  by (rule u128_codec.vector_codec)

interpretation signatures_codec: raw_codec "pack_vector id" "unpack_vector sz (stream_read 65)" "vec_ok sz (\<lambda>b. length b = 65)" for sz
  by (rule array_codec.vector_codec)

definition trx_ok :: "size_of \<Rightarrow> signed_transaction \<Rightarrow> bool" where
  "trx_ok so t \<longleftrightarrow> vec_ok (so ElemName) (\<lambda>_. True) (trx_scope t) \<and> vec_ok (so ElemName) (\<lambda>_. True) (trx_read_scope t) \<and>
     vec_ok (so ElemMessage) (message_ok so) (messages t) \<and> vec_ok (so ElemSignature) (\<lambda>b. length b = 65) (signatures t)"

interpretation trx_codec: raw_codec pack_signed_transaction "unpack_signed_transaction so" "trx_ok so" for so
  by unfold_locales (simp add: pack_signed_transaction_def unpack_signed_transaction_def trx_ok_def field_simps_raw
      names_codec.field messages_codec.field signatures_codec.field unpack_done_def)

interpretation code_codec: raw_codec pack_code unpack_code "\<lambda>_. True"
  by unfold_locales (simp add: pack_code_def unpack_code_def field_simps_raw split: package_code.splits)

interpretation result_codec: raw_codec pack_result unpack_result "\<lambda>_. True"
  by unfold_locales (simp add: pack_result_def unpack_result_def field_simps_raw split: receipt_result.splits)

interpretation package_codec: raw_codec pack_package "unpack_package so" "\<lambda>p. trx_ok so (pkg_body p)" for so
  by unfold_locales (simp add: pack_package_def unpack_package_def code_codec.field trx_codec.field unpack_done_def)

definition receipt_ok :: "size_of \<Rightarrow> transaction_receipt \<Rightarrow> bool" where
  "receipt_ok so r \<longleftrightarrow> (case receipt_trx r of TrxId _ \<Rightarrow> True | TrxPackage p \<Rightarrow> trx_ok so (pkg_body p))"

interpretation variant_codec: raw_codec pack_trx "unpack_trx so" "\<lambda>t. case t of TrxId _ \<Rightarrow> True | TrxPackage p \<Rightarrow> trx_ok so (pkg_body p)" for so
  by unfold_locales (auto simp: pack_trx_def unpack_trx_def field_simps_raw package_codec.field unpack_done_def split: trx_variant.splits)

interpretation receipt_codec: raw_codec pack_receipt "unpack_receipt so" "receipt_ok so" for so
  by unfold_locales (simp add: pack_receipt_def unpack_receipt_def receipt_ok_def field_simps_raw result_codec.field variant_codec.field unpack_done_def)

interpretation receipts_codec: raw_codec "pack_vector pack_receipt" "unpack_vector sz (unpack_receipt so)" "vec_ok sz (receipt_ok so)" for sz so
  by (rule receipt_codec.vector_codec)

interpretation builder_codec: raw_codec pack_builder unpack_builder "\<lambda>b. length (block_signing_key b) = 33"
  by unfold_locales (simp add: pack_builder_def unpack_builder_def field_simps_raw unpack_done_def)

interpretation builders_codec: raw_codec "pack_vector pack_builder" "unpack_vector sz unpack_builder" "vec_ok sz (\<lambda>b. length (block_signing_key b) = 33)" for sz
  by (rule builder_codec.vector_codec)

definition rule_ok :: "size_of \<Rightarrow> builder_rule \<Rightarrow> bool" where
  "rule_ok so r \<longleftrightarrow> vec_ok (so ElemBuilder) (\<lambda>b. length (block_signing_key b) = 33) (rule_builders r)"

interpretation rule_codec: raw_codec pack_rule "unpack_rule so" "rule_ok so" for so
  by unfold_locales (simp add: pack_rule_def unpack_rule_def rule_ok_def field_simps_raw builders_codec.field unpack_done_def)

interpretation next_codec: raw_codec "pack_optional pack_rule" "unpack_optional (unpack_rule so)" "\<lambda>v. \<forall>x. v = Some x \<longrightarrow> rule_ok so x" for so
  by (rule rule_codec.optional_codec)

definition block_ok :: "size_of \<Rightarrow> signed_block \<Rightarrow> bool" where
  "block_ok so b \<longleftrightarrow> (\<forall>r. next_builders b = Some r \<longrightarrow> rule_ok so r) \<and> length (builder_signature b) = 65 \<and>
     vec_ok (so ElemReceipt) (receipt_ok so) (receipts b)"

interpretation block_codec: raw_codec pack_block "unpack_block so" "block_ok so" for so
  by unfold_locales (simp add: pack_block_def unpack_block_def block_ok_def field_simps_raw next_codec.field receipts_codec.field unpack_done_def)

section \<open>Properties\<close>

text \<open>
  C18. Blocks survive serialisation. Unpacking what \<^verbatim>\<open>fc::raw::pack\<close> made of a block, whatever bytes follow,
  gives the same block and leaves exactly these bytes: for a block whose vectors stay below the limit of
  \<^verbatim>\<open>unpack\<close> and whose keys and signatures have their fixed sizes, for any sizes of the element types.
\<close>

theorem block_raw_roundtrip:
  assumes "block_ok so b"
  shows "unpack_block so (pack_block b @ rest) = Inr (b, rest)"
  by (rule block_codec.unpack_pack [OF assms])

definition raw_example :: signed_block where
  "raw_example = \<lparr>previous = Sha256 1 2 3 4, timestamp = 77, trxs_mroot = empty_sha256, builder = 9,
     next_builders = Some \<lparr>rule_version = 2, rule_builders = [\<lparr>builder_name = 3, block_signing_key = empty_public_key\<rparr>]\<rparr>,
     builder_signature = replicate 65 1, receipts = [\<lparr>receipt_idx = 1, receipt_result = ReceiptApplied, receipt_trx = TrxId (Sha256 5 6 7 8)\<rparr>,
       \<lparr>receipt_idx = 2, receipt_result = ReceiptFailure, receipt_trx = TrxPackage \<lparr>pkg_code = PackageOriginal,
         pkg_body = \<lparr>ref_block_num = 1, ref_block_prefix = 2, expiration = 3, trx_scope = [4, 5], trx_read_scope = [],
           messages = [\<lparr>msg_code = 1, msg_type = 2, msg_authorization = [\<lparr>auth_account = 1, auth_authority = 2\<rparr>], msg_data = [1, 2, 3]\<rparr>],
           gas_payer = 4, trx_gas = 5, gaslimit = 6, signatures = [replicate 65 7]\<rparr>\<rparr>\<rparr>]\<rparr>"

theorem block_raw_roundtrip_witness: "unpack_block (\<lambda>_. 100) (pack_block raw_example @ [1, 2]) = Inr (raw_example, [1, 2])"
  by (rule block_raw_roundtrip)
    (simp add: raw_example_def block_ok_def rule_ok_def vec_ok_def receipt_ok_def trx_ok_def message_ok_def empty_public_key_def)

text \<open>
  Untrusted input reaches undefined behaviour. Six bytes with the continuation bit make
  \<^verbatim>\<open>unpack\<close> of an \<^verbatim>\<open>unsigned_int\<close> shift a 32-bit value by 35 bits, whatever the bytes are;
  and an index from $2^{31}$ on passes the test of \<^verbatim>\<open>set_which\<close>.
\<close>

theorem varint_undefined_shift:
  assumes "\<forall>b \<in> set [b0, b1, b2, b3, b4]. b AND (0x80 :: u8) \<noteq> 0"
  shows "unpack_unsigned_int (b0 # b1 # b2 # b3 # b4 # b5 # rest) = Inl Undefined \<and>
    (\<forall>w. w \<ge> 0x80000000 \<longrightarrow> unpack_trx so (pack_unsigned_int w @ rest) = Inl Undefined)"
proof -
  have "unpack_trx so (pack_unsigned_int w @ rest) = Inl Undefined" if "w \<ge> 0x80000000" for w
    using that by (auto simp: unpack_trx_def unsigned_int_codec.field not_less [symmetric])
  then show ?thesis using assms by (simp add: unpack_unsigned_int_def Let_def)
qed

theorem varint_undefined_shift_witness: "unpack_unsigned_int (replicate 6 0xFF) = Inl Undefined"
proof -
  have r: "replicate 6 (0xFF :: u8) = [0xFF, 0xFF, 0xFF, 0xFF, 0xFF, 0xFF]" by (simp add: numeral_eq_Suc)
  show ?thesis unfolding r by (rule varint_undefined_shift [THEN conjunct1]) simp
qed

end
