(* ===== verification/Chain_Log.thy ===== *)
theory Chain_Log
  imports Fc_Raw
begin

text \<open>
  The log of irreversible blocks (\<^verbatim>\<open>chain_stream.cpp\<close>): a file of packed blocks, each followed by a descriptor and an end
  mark, and a file of index entries of 64 bytes each. Both are byte lists here; a read outside a file
  throws. The bytes that fill descriptors and entries up to their alignment are whatever was in memory; they are an argument of the write.
\<close>

section \<open>Layout\<close>

record block_index =
  bi_num :: u64
  bi_pos :: u64
  bi_size :: u64
  bi_id :: sha256

record block_desc =
  bd_num :: u64
  bd_pos :: u64
  bd_size :: u64

record chain_stream =
  block_stream :: bytes
  index_stream :: bytes
  head_block :: "signed_block option"

abbreviation (input) sizeof_desc :: nat where "sizeof_desc \<equiv> 64"
abbreviation (input) sizeof_index :: nat where "sizeof_index \<equiv> 64"
abbreviation (input) sizeof_eof :: nat where "sizeof_eof \<equiv> 4"
abbreviation (input) block_end_eof :: u32 where "block_end_eof \<equiv> 0xb10cedef"

definition desc_bytes :: "bytes \<Rightarrow> block_desc \<Rightarrow> bytes" where
  "desc_bytes pad d = le64 (bd_num d) @ le64 (bd_pos d) @ le64 (bd_size d) @ pad"

definition of_desc_bytes :: "bytes \<Rightarrow> block_desc" where
  "of_desc_bytes b = \<lparr>bd_num = of_le64 (take 8 b), bd_pos = of_le64 (take 8 (drop 8 b)), bd_size = of_le64 (take 8 (drop 16 b))\<rparr>"

definition index_bytes :: "bytes \<Rightarrow> block_index \<Rightarrow> bytes" where
  "index_bytes pad i = le64 (bi_num i) @ le64 (bi_pos i) @ le64 (bi_size i) @ sha256_bytes (bi_id i) @ pad"

definition of_index_bytes :: "bytes \<Rightarrow> block_index" where
  "of_index_bytes b = \<lparr>bi_num = of_le64 (take 8 b), bi_pos = of_le64 (take 8 (drop 8 b)), bi_size = of_le64 (take 8 (drop 16 b)),
     bi_id = of_sha256_bytes (take 32 (drop 24 b))\<rparr>"

text \<open>Reading \<open>n\<close> bytes, from a position or \<open>k\<close> bytes before the end.\<close>

definition read_at :: "int \<Rightarrow> nat \<Rightarrow> bytes \<Rightarrow> chain_exc + bytes" where
  "read_at pos n f = (if 0 \<le> pos \<and> nat pos + n \<le> length f then Inr (take n (drop (nat pos) f)) else Inl OutOfRange)"

definition read_before_end :: "nat \<Rightarrow> nat \<Rightarrow> bytes \<Rightarrow> chain_exc + bytes" where
  "read_before_end k n f = read_at (int (length f) - int k) n f"

section \<open>Operations\<close>

definition read_block_impl :: "size_of \<Rightarrow> u64 \<Rightarrow> bytes \<Rightarrow> chain_exc + signed_block" where
  "read_block_impl so pos f = (case unpack_block so (drop (unat pos) f) of Inl e \<Rightarrow> Inl e | Inr (b, _) \<Rightarrow> Inr b)"

definition write_block :: "crypto \<Rightarrow> bytes \<times> bytes \<Rightarrow> signed_block \<Rightarrow> chain_stream \<Rightarrow> chain_exc + (u64 \<times> chain_stream)" where
  "write_block cr pad b l =
     (let data = pack_block b; num = block_num b; i = header_id cr b;
          pos = of_nat (length (block_stream l)); idx_pos = of_nat (length (index_stream l)) :: u64;
          desc = \<lparr>bd_num = ucast num, bd_pos = pos, bd_size = of_nat (length data)\<rparr>;
          index = \<lparr>bi_num = ucast num, bi_pos = pos, bi_size = of_nat (length data), bi_id = i\<rparr>
      in if idx_pos \<noteq> of_nat sizeof_index * (bd_num desc - 1) then Inl FcAssert
      else Inr (pos, l\<lparr>block_stream := block_stream l @ data @ desc_bytes (fst pad) desc @ le32 block_end_eof,
        index_stream := index_stream l @ index_bytes (snd pad) index\<rparr>))"

definition append_block :: "crypto \<Rightarrow> bytes \<times> bytes \<Rightarrow> signed_block \<Rightarrow> chain_stream \<Rightarrow> chain_exc + (u64 \<times> chain_stream)" where
  "append_block cr pad b l = (case write_block cr pad b l of Inl e \<Rightarrow> Inl e | Inr (pos, l) \<Rightarrow> Inr (pos, l\<lparr>head_block := Some b\<rparr>))"

definition read_head :: "size_of \<Rightarrow> bytes \<Rightarrow> chain_exc + signed_block" where
  "read_head so f = (case read_before_end (sizeof_eof + sizeof_desc) sizeof_desc f of Inl e \<Rightarrow> Inl e
     | Inr d \<Rightarrow> read_block_impl so (bd_pos (of_desc_bytes d)) f)"

text \<open>What \<^verbatim>\<open>open\<close> makes of the two files it finds.\<close>

definition open_log :: "size_of \<Rightarrow> bytes \<Rightarrow> bytes \<Rightarrow> chain_exc + chain_stream" where
  "open_log so blocks indices =
     (if blocks = [] \<and> indices \<noteq> [] then Inr \<lparr>block_stream = [], index_stream = [], head_block = None\<rparr>
      else if indices = [] \<and> blocks \<noteq> [] then Inr \<lparr>block_stream = [], index_stream = [], head_block = None\<rparr>
      else if blocks \<noteq> [] \<and> indices \<noteq> []
      then (case read_before_end sizeof_eof sizeof_eof blocks of Inl e \<Rightarrow> Inl e
        | Inr eof \<Rightarrow> if of_le32 eof \<noteq> block_end_eof then Inl FcAssert
          else case (read_before_end (sizeof_eof + sizeof_desc) sizeof_desc blocks, read_before_end sizeof_index sizeof_index indices) of
            (Inr d, Inr i) \<Rightarrow> if bd_pos (of_desc_bytes d) \<noteq> bi_pos (of_index_bytes i) then Inl FcAssert
              else (case read_head so blocks of Inl e \<Rightarrow> Inl e
                | Inr b \<Rightarrow> Inr \<lparr>block_stream = blocks, index_stream = indices, head_block = Some b\<rparr>)
          | _ \<Rightarrow> Inl OutOfRange)
      else Inr \<lparr>block_stream = blocks, index_stream = indices, head_block = None\<rparr>)"

text \<open>\<open>Inr None\<close> is the null pointer.\<close>

definition read_by_num :: "size_of \<Rightarrow> u32 \<Rightarrow> chain_stream \<Rightarrow> chain_exc + signed_block option" where
  "read_by_num so num l =
     (case read_before_end sizeof_index sizeof_index (index_stream l) of Inl e \<Rightarrow> Inl e
      | Inr i \<Rightarrow> let last_idx = of_index_bytes i
        in if bi_num last_idx > ucast num
        then let bias = of_nat sizeof_index * (bi_num last_idx - ucast num)
          in (case read_at (int (length (index_stream l)) - int sizeof_index + sint (- bias)) sizeof_index (index_stream l) of Inl e \<Rightarrow> Inl e
            | Inr i \<Rightarrow> map_sum id Some (read_block_impl so (bi_pos (of_index_bytes i)) (block_stream l)))
        else if bi_num last_idx = ucast num
        then map_sum id Some (read_block_impl so (bi_pos last_idx) (block_stream l))
        else Inr None)"

text \<open>
  Both functions test the position of the last entry with \<^verbatim>\<open>tellg() <= 0\<close>; the seek to it already throws when
  the file is empty.
\<close>

definition last_block_num_log :: "chain_stream \<Rightarrow> chain_exc + u64" where
  "last_block_num_log l =
     (if length (index_stream l) < sizeof_index then Inl OutOfRange
      else if length (index_stream l) - sizeof_index \<le> 0 then Inr 0
      else case read_before_end sizeof_index sizeof_index (index_stream l) of Inl e \<Rightarrow> Inl e
        | Inr i \<Rightarrow> Inr (bi_num (of_index_bytes i)))"

fun chunks :: "nat \<Rightarrow> bytes \<Rightarrow> bytes list" where
  "chunks 0 b = []"
| "chunks (Suc n) b = take sizeof_index b # chunks n (drop sizeof_index b)"

definition read_indices :: "u64 \<Rightarrow> u64 \<Rightarrow> chain_stream \<Rightarrow> chain_exc + block_index list" where
  "read_indices begin_num block_count l =
     (if length (index_stream l) < sizeof_index then Inl OutOfRange
      else if length (index_stream l) - sizeof_index \<le> 0 then Inr []
      else case read_before_end sizeof_index sizeof_index (index_stream l) of Inl e \<Rightarrow> Inl e
        | Inr i \<Rightarrow>
          let last_num = bi_num (of_index_bytes i);
              cc = last_num - begin_num + 1
          in if sint cc < 1 then Inr []
          else let count = (if sint cc < sint block_count then cc else block_count);
                   bias = of_nat sizeof_index * (last_num - begin_num)
            in if sint count < 0 then Inl OutOfRange
            else case read_at (int (length (index_stream l)) - int sizeof_index + sint (- bias)) (sizeof_index * nat (sint count)) (index_stream l) of
                Inl e \<Rightarrow> Inl e
              | Inr b \<Rightarrow> Inr (map of_index_bytes (chunks (nat (sint count)) b)))"

section \<open>Lemmas\<close>

lemma of_desc_bytes_desc: "of_desc_bytes (desc_bytes pad d @ r) = d"
  by (simp add: of_desc_bytes_def desc_bytes_def)

lemma of_index_bytes_index: "of_index_bytes (index_bytes pad i @ r) = i"
  by (simp add: of_index_bytes_def index_bytes_def sha256_roundtrip)

lemma length_index_bytes: "length (index_bytes pad i) = 56 + length pad"
  by (simp add: index_bytes_def)

lemma length_desc_bytes: "length (desc_bytes pad d) = 24 + length pad"
  by (simp add: desc_bytes_def)

text \<open>A log that has grown from an empty one by appending the given blocks, within the ranges of its numbers.\<close>

inductive log_run :: "crypto \<Rightarrow> size_of \<Rightarrow> signed_block list \<Rightarrow> chain_stream \<Rightarrow> bool" for cr so where
  start: "log_run cr so [] \<lparr>block_stream = [], index_stream = [], head_block = None\<rparr>"
| append: "log_run cr so bs l \<Longrightarrow> block_ok so b \<Longrightarrow> length (fst pad) = 40 \<Longrightarrow> length (snd pad) = 8 \<Longrightarrow>
    length (block_stream l) < 2 ^ 63 \<Longrightarrow> Suc (length bs) < 2 ^ 32 \<Longrightarrow>
    append_block cr pad b l = Inr (pos, l') \<Longrightarrow> log_run cr so (bs @ [b]) l'"

definition entry :: "nat \<Rightarrow> chain_stream \<Rightarrow> block_index" where
  "entry k l = of_index_bytes (take 64 (drop (64 * k) (index_stream l)))"

definition entry_ok :: "signed_block list \<Rightarrow> chain_stream \<Rightarrow> nat \<Rightarrow> bool" where
  "entry_ok bs l k \<longleftrightarrow> bi_num (entry k l) = of_nat (Suc k) \<and>
     (\<exists>rest. drop (unat (bi_pos (entry k l))) (block_stream l) = pack_block (bs ! k) @ rest) \<and> block_num (bs ! k) = of_nat (Suc k)"

definition tail_ok :: "signed_block list \<Rightarrow> chain_stream \<Rightarrow> bool" where
  "tail_ok bs l \<longleftrightarrow> (\<exists>pre d pad. block_stream l = pre @ desc_bytes pad d @ le32 block_end_eof \<and> length pad = 40 \<and>
     bd_pos d = bi_pos (entry (length bs - 1) l))"

definition log_inv :: "size_of \<Rightarrow> signed_block list \<Rightarrow> chain_stream \<Rightarrow> bool" where
  "log_inv so bs l \<longleftrightarrow> length (index_stream l) = 64 * length bs \<and> length bs < 2 ^ 32 \<and> (\<forall>k < length bs. entry_ok bs l k) \<and>
     (bs \<noteq> [] \<longrightarrow> tail_ok bs l) \<and> (bs = [] \<longrightarrow> block_stream l = []) \<and>
     head_block l = (if bs = [] then None else Some (last bs)) \<and> (\<forall>b \<in> set bs. block_ok so b)"

lemma unat_of_nat_u64: "m < 2 ^ 64 \<Longrightarrow> unat (of_nat m :: u64) = m"
  by (simp add: unsigned_of_nat take_bit_nat_eq_self)

lemma pack_block_nonempty: "pack_block b \<noteq> []"
proof
  assume "pack_block b = []"
  then have "length (sha256_bytes (previous b)) = 0" by (simp add: pack_block_def)
  then show False by simp
qed

lemma index_position:
  fixes num :: u32
  assumes "of_nat (64 * n) = (of_nat 64 :: u64) * (ucast num - 1)" and "Suc n < 2 ^ 32"
  shows "num = of_nat (Suc n)"
proof -
  have l: "unat (of_nat (64 * n) :: u64) = 64 * n" using assms(2) by (intro unat_of_nat_u64) simp
  have num: "num \<noteq> 0"
  proof
    assume "num = 0"
    then have "(of_nat (64 * n) :: u64) = - 64" unfolding assms(1) by simp
    then have "(of_nat (64 * n + 64) :: u64) = 0" by simp
    moreover have "unat (of_nat (64 * n + 64) :: u64) = 64 * n + 64" using assms(2) by (intro unat_of_nat_u64) simp
    ultimately show False by (metis add_is_0 unat_0 zero_neq_numeral)
  qed
  have 1: "unat ((ucast num :: u64) - 1) = unat num - 1"
    using num u64_sub [of 1 "ucast num"] unat_gt_0 [of num] by simp
  have "unat ((of_nat 64 :: u64) * (ucast num - 1)) = 64 * (unat num - 1)"
  proof -
    have "unat (of_nat 64 :: u64) * unat ((ucast num :: u64) - 1) < 2 ^ LENGTH(64)"
      unfolding 1 using unat_u32_lt [of num] by simp
    then have "unat ((of_nat 64 :: u64) * (ucast num - 1)) = unat (of_nat 64 :: u64) * unat ((ucast num :: u64) - 1)"
      by (rule unat_mult_lem [THEN iffD1])
    then show ?thesis unfolding 1 by simp
  qed
  then have "64 * n = 64 * (unat num - 1)" using l unfolding assms(1) by simp
  then have "unat num = Suc n" using num unat_gt_0 [of num] by simp
  then show ?thesis by (metis of_nat_unat ucast_id)
qed

lemma append_shape:
  assumes "append_block cr pad b l = Inr (pos, l')"
  shows "of_nat (length (index_stream l)) = (of_nat 64 :: u64) * (ucast (block_num b) - 1) \<and>
    l' = \<lparr>block_stream = block_stream l @ pack_block b @ desc_bytes (fst pad) \<lparr>bd_num = ucast (block_num b),
        bd_pos = of_nat (length (block_stream l)), bd_size = of_nat (length (pack_block b))\<rparr> @ le32 block_end_eof,
      index_stream = index_stream l @ index_bytes (snd pad) \<lparr>bi_num = ucast (block_num b),
        bi_pos = of_nat (length (block_stream l)), bi_size = of_nat (length (pack_block b)), bi_id = header_id cr b\<rparr>,
      head_block = Some b\<rparr>"
  using assms by (cases l) (auto simp: append_block_def write_block_def Let_def split: if_splits)

lemma log_inv_append:
  assumes inv: "log_inv so bs l" and ok: "block_ok so b" and pad: "length (fst pad) = 40" "length (snd pad) = 8"
    and len: "length (block_stream l) < 2 ^ 63" "Suc (length bs) < 2 ^ 32" and app: "append_block cr pad b l = Inr (pos, l')"
  shows "log_inv so (bs @ [b]) l'"
proof -
  note sh = append_shape [OF app]
  let ?n = "length bs"
  have idx: "length (index_stream l) = 64 * ?n" using inv by (simp add: log_inv_def)
  have num: "block_num b = of_nat (Suc ?n)" using sh idx by (intro index_position [OF _ len(2)]) auto
  define i where "i = \<lparr>bi_num = ucast (block_num b), bi_pos = of_nat (length (block_stream l)),
    bi_size = of_nat (length (pack_block b)), bi_id = header_id cr b\<rparr>"
  have il: "index_stream l' = index_stream l @ index_bytes (snd pad) i" using sh by (simp add: i_def)
  have ilen: "length (index_bytes (snd pad) i) = 64" using pad by (simp add: length_index_bytes)
  have old: "entry k l' = entry k l" if "k < ?n" for k
  proof -
    have "64 * k + 64 \<le> length (index_stream l)" using that idx by simp
    then show ?thesis by (simp add: entry_def il)
  qed
  have new: "entry ?n l' = i"
    using idx of_index_bytes_index [of "snd pad" i "[]"] ilen by (simp add: entry_def il)
  have pos: "unat (of_nat (length (block_stream l)) :: u64) = length (block_stream l)"
    using len(1) by (intro unat_of_nat_u64) simp
  have u: "unat (of_nat (Suc ?n) :: u32) = Suc ?n" using len(2) by (rule unat_of_nat_u32)
  have n64: "(ucast (of_nat (Suc ?n) :: u32) :: u64) = of_nat (Suc ?n)"
    using u by (metis of_nat_unat unat_up)
  have e: "entry_ok (bs @ [b]) l' k" if k: "k < Suc ?n" for k
  proof (cases "k < ?n")
    case True
    then have "entry_ok bs l k" using inv by (simp add: log_inv_def)
    then obtain rest where "drop (unat (bi_pos (entry k l))) (block_stream l) = pack_block (bs ! k) @ rest" by (auto simp: entry_ok_def)
    moreover from this have "unat (bi_pos (entry k l)) \<le> length (block_stream l)"
      using pack_block_nonempty [of "bs ! k"] by (intro leI notI) simp
    ultimately have "\<exists>rest. drop (unat (bi_pos (entry k l))) (block_stream l') = pack_block (bs ! k) @ rest"
      using sh by auto
    with \<open>entry_ok bs l k\<close> old [OF True] True show ?thesis by (simp add: entry_ok_def nth_append)
  next
    case False
    then have "k = ?n" using k by simp
    then show ?thesis using new num pos n64 sh by (simp add: entry_ok_def i_def)
  qed
  have "tail_ok (bs @ [b]) l'"
    unfolding tail_ok_def using sh new pad(1)
    by (intro exI [of _ "block_stream l @ pack_block b"] exI [of _ "\<lparr>bd_num = ucast (block_num b),
        bd_pos = of_nat (length (block_stream l)), bd_size = of_nat (length (pack_block b))\<rparr>"] exI [of _ "fst pad"]) (simp add: i_def)
  then show ?thesis using inv e len(2) ok sh ilen idx il by (simp add: log_inv_def)
qed

lemma log_run_inv: "log_run cr so bs l \<Longrightarrow> log_inv so bs l"
proof (induction rule: log_run.induct)
  case start
  then show ?case by (simp add: log_inv_def)
next
  case (append bs l b pad pos l')
  show ?case by (rule log_inv_append [OF append.IH append.hyps(2-7)])
qed


lemma read_at_entry:
  assumes "log_inv so bs l" and "k < length bs"
  shows "read_at (int (64 * k)) 64 (index_stream l) = Inr (take 64 (drop (64 * k) (index_stream l)))"
proof -
  have "64 * k + 64 \<le> length (index_stream l)" using assms by (simp add: log_inv_def)
  then show ?thesis by (simp only: read_at_def nat_int of_nat_0_le_iff simp_thms if_True)
qed

lemma last_entry_num:
  assumes "log_inv so bs l" and "bs \<noteq> []"
  shows "bi_num (entry (length bs - 1) l) = of_nat (length bs)"
proof -
  have "length bs - 1 < length bs" using assms(2) by simp
  then have "bi_num (entry (length bs - 1) l) = of_nat (Suc (length bs - 1))"
    using assms(1) unfolding log_inv_def entry_ok_def by blast
  also have "Suc (length bs - 1) = length bs" using assms(2) by simp
  finally show ?thesis .
qed

lemma read_last_entry:
  assumes "log_inv so bs l" and "bs \<noteq> []"
  shows "read_before_end 64 64 (index_stream l) = Inr (take 64 (drop (64 * (length bs - 1)) (index_stream l)))"
proof -
  have "int (length (index_stream l)) - int 64 = int (64 * (length bs - 1))"
    using assms by (cases bs) (simp_all add: log_inv_def)
  then show ?thesis
    using read_at_entry [OF assms(1), of "length bs - 1"] assms(2) unfolding read_before_end_def by simp
qed

lemma read_entry_block:
  assumes "log_inv so bs l" and "k < length bs"
  shows "read_block_impl so (bi_pos (entry k l)) (block_stream l) = Inr (bs ! k)"
proof -
  obtain rest where r: "drop (unat (bi_pos (entry k l))) (block_stream l) = pack_block (bs ! k) @ rest"
    using assms by (auto simp: log_inv_def entry_ok_def)
  have "block_ok so (bs ! k)" using assms by (simp add: log_inv_def)
  then show ?thesis by (simp add: read_block_impl_def r block_codec.unpack_pack)
qed

lemma entry_bias:
  fixes k n :: nat
  assumes "k \<le> n" and "n < 2 ^ 32"
  shows "sint (- (of_nat 64 * (of_nat n - of_nat k)) :: u64) = - int (64 * (n - k))"
proof -
  have "(of_nat 64 * (of_nat n - of_nat k) :: u64) = of_nat (64 * (n - k))" using assms(1) by (simp add: of_nat_diff)
  moreover have "sint (- of_nat (64 * (n - k)) :: u64) = - int (64 * (n - k))"
  proof -
    let ?m = "64 * (n - k)"
    have "sint (word_of_int (- int ?m) :: u64) = signed_take_bit 63 (- int ?m)" by (subst signed_of_int) simp
    also have "\<dots> = - int ?m" using assms(2) by (intro signed_take_bit_int_eq_self) simp_all
    finally show ?thesis by simp
  qed
  ultimately show ?thesis using assms(2) by (simp only:)
qed

lemma log_read:
  assumes inv: "log_inv so bs l" and k: "k < length bs"
  shows "read_by_num so (of_nat (Suc k)) l = Inr (Some (bs ! k))"
proof -
  let ?n = "length bs"
  have ne: "bs \<noteq> []" using k by auto
  have n: "?n < 2 ^ 32" using inv by (simp add: log_inv_def)
  note last = last_entry_num [OF inv ne]
  have cast: "(ucast (of_nat (Suc k) :: u32) :: u64) = of_nat (Suc k)"
    using k n by (metis Suc_leI le_less_trans of_nat_unat unat_of_nat_u32 unat_up)
  have un: "unat (of_nat ?n :: u64) = ?n" "unat (of_nat (Suc k) :: u64) = Suc k"
    using k n by (intro unat_of_nat_u64, simp)+
  have gt: "(of_nat (Suc k) :: u64) < of_nat ?n \<longleftrightarrow> Suc k < ?n" "(of_nat ?n :: u64) = of_nat (Suc k) \<longleftrightarrow> ?n = Suc k"
    using un by (simp only: word_less_nat_alt, metis un)
  note rd = read_last_entry [OF inv ne]
  have ent: "of_index_bytes (take 64 (drop (64 * (?n - 1)) (index_stream l))) = entry (?n - 1) l" by (simp add: entry_def)
  show ?thesis
  proof (cases "Suc k < ?n")
    case True
    have "int (length (index_stream l)) - int 64 + sint (- (of_nat 64 * (of_nat ?n - of_nat (Suc k)) :: u64)) = int (64 * k)"
      unfolding entry_bias [OF less_imp_le [OF True] n] using inv True by (simp add: log_inv_def)
    then have "read_at (int (length (index_stream l)) - int 64 + sint (- (of_nat 64 * (of_nat ?n - of_nat (Suc k)) :: u64))) 64 (index_stream l)
        = Inr (take 64 (drop (64 * k) (index_stream l)))"
      using read_at_entry [OF inv k] by simp
    then show ?thesis
      unfolding read_by_num_def rd sum.case Let_def ent last cast gt(1)
      using True read_entry_block [OF inv k] by (simp add: entry_def)
  next
    case False
    then have "?n = Suc k" using k by simp
    then show ?thesis
      unfolding read_by_num_def rd sum.case Let_def ent last cast gt
      using False read_entry_block [OF inv k] by simp
  qed
qed

lemma log_read_beyond:
  assumes inv: "log_inv so bs l" and ne: "bs \<noteq> []" and num: "length bs < unat num"
  shows "read_by_num so num l = Inr None"
proof -
  note last = last_entry_num [OF inv ne]
  have "unat (of_nat (length bs) :: u64) = length bs" using inv by (intro unat_of_nat_u64) (simp add: log_inv_def)
  then have "\<not> (ucast num :: u64) < of_nat (length bs)" "(of_nat (length bs) :: u64) \<noteq> ucast num"
    using num by (auto simp: word_less_nat_alt)
  then show ?thesis
    unfolding read_by_num_def read_last_entry [OF inv ne] sum.case Let_def entry_def [symmetric] last by simp
qed

lemma log_reopen:
  assumes inv: "log_inv so bs l"
  shows "open_log so (block_stream l) (index_stream l) = Inr l"
proof (cases "bs = []")
  case True
  then show ?thesis using inv by (cases l) (simp add: log_inv_def open_log_def)
next
  case False
  then obtain pre d pad where t: "block_stream l = pre @ desc_bytes pad d @ le32 block_end_eof" "length pad = 40"
    "bd_pos d = bi_pos (entry (length bs - 1) l)" using inv by (auto simp: log_inv_def tail_ok_def)
  have dl: "length (desc_bytes pad d) = 64" using t(2) by (simp add: length_desc_bytes)
  have ne: "block_stream l \<noteq> []" "index_stream l \<noteq> []" using t dl inv False by (auto simp: log_inv_def)
  have eof: "read_before_end 4 4 (block_stream l) = Inr (le32 block_end_eof)"
    unfolding read_before_end_def read_at_def t(1) using dl by (simp add: nat_diff_distrib nat_add_distrib)
  have desc: "read_before_end (4 + 64) 64 (block_stream l) = Inr (desc_bytes pad d)"
    unfolding read_before_end_def read_at_def t(1) using dl by (simp add: nat_diff_distrib nat_add_distrib)
  have od: "of_desc_bytes (desc_bytes pad d) = d" using of_desc_bytes_desc [of pad d "[]"] by simp
  have blk: "bs ! (length bs - 1) = last bs" using False by (simp add: last_conv_nth)
  have head: "read_head so (block_stream l) = Inr (last bs)"
    unfolding read_head_def desc sum.case od t(3) using read_entry_block [OF inv, of "length bs - 1"] False blk by simp
  show ?thesis
    unfolding open_log_def eof desc read_last_entry [OF inv False] sum.case od prod.case head entry_def [symmetric] of_le32_le32
    using ne t(3) inv False by (cases l) (simp add: log_inv_def)
qed


section \<open>Properties\<close>

text \<open>
  C19. The log of irreversible blocks gives back what was appended. For a log grown from an empty one by
  \<^verbatim>\<open>append_block\<close>, with its assertion on the position in the index: reading by number returns each
  block, a number beyond the last gives the null pointer, the head is the last block, and opening the two files again gives the same log.
\<close>

theorem log_roundtrip:
  assumes "log_run cr so bs l"
  shows "(\<forall>k < length bs. read_by_num so (of_nat (Suc k)) l = Inr (Some (bs ! k)) \<and> block_num (bs ! k) = of_nat (Suc k)) \<and>
    (\<forall>num. bs \<noteq> [] \<and> length bs < unat num \<longrightarrow> read_by_num so num l = Inr None) \<and>
    head_block l = (if bs = [] then None else Some (last bs)) \<and>
    open_log so (block_stream l) (index_stream l) = Inr l"
proof -
  note inv = log_run_inv [OF assms]
  have "\<forall>k < length bs. block_num (bs ! k) = of_nat (Suc k)" "head_block l = (if bs = [] then None else Some (last bs))"
    using inv by (auto simp: log_inv_def entry_ok_def)
  then show ?thesis using log_read [OF inv] log_read_beyond [OF inv] log_reopen [OF inv] by blast
qed

definition log_example :: signed_block where
  "log_example = raw_example\<lparr>previous := empty_sha256\<rparr>"

definition log_crypto :: crypto where
  "log_crypto = \<lparr>cr_header = \<lambda>_. empty_sha256, cr_confirmation = \<lambda>_. empty_sha256, cr_receipt = \<lambda>_. empty_sha256,
     cr_transaction = \<lambda>_. empty_sha256, cr_pair = \<lambda>_. empty_sha256, cr_recover = \<lambda>_ _. None, cr_sign = \<lambda>_ _. []\<rparr>"

lemma log_example_run:
  "\<exists>l. log_run cr (\<lambda>_. 100) [log_example] l"
proof -
  let ?l = "\<lparr>block_stream = [], index_stream = [], head_block = None\<rparr>"
  have "block_num log_example = 1"
    by (simp add: block_num_def log_example_def num_from_id_def empty_sha256_def endian_reverse_u32_def)
  then obtain pos l' where a: "append_block cr (replicate 40 0, replicate 8 0) log_example ?l = Inr (pos, l')"
    by (auto simp: append_block_def write_block_def Let_def)
  have "block_ok (\<lambda>_. 100) log_example"
    by (simp add: log_example_def raw_example_def block_ok_def rule_ok_def vec_ok_def receipt_ok_def trx_ok_def message_ok_def empty_public_key_def)
  from log_run.append [OF log_run.start this _ _ _ _ a] show ?thesis by auto
qed

theorem log_roundtrip_witness:
  "\<exists>l. head_block l = Some log_example \<and> read_by_num (\<lambda>_. 100) 1 l = Inr (Some log_example)"
proof -
  obtain l where l: "log_run log_crypto (\<lambda>_. 100) [log_example] l" using log_example_run by blast
  show ?thesis using log_roundtrip [OF l] by auto
qed

text \<open>
  The number of the last block is wrong for a log of one block. \<^verbatim>\<open>last_block_num\<close> of a log grown by
  appending is the number of blocks, except that it is 0 when there is exactly one: the test for an empty index compares the position
  of the last entry, which is then 0. \<^verbatim>\<open>read_indices\<close> finds nothing in such a log for the same reason.
\<close>

theorem last_block_num_one:
  assumes "log_run cr so bs l" and "bs \<noteq> []"
  shows "last_block_num_log l = Inr (if length bs = 1 then 0 else of_nat (length bs)) \<and>
    (length bs = 1 \<longrightarrow> read_indices begin_num block_count l = Inr [])"
proof -
  note inv = log_run_inv [OF assms(1)]
  have len: "length (index_stream l) = 64 * length bs" using inv by (simp add: log_inv_def)
  have "Suc 0 \<le> length bs" using assms(2) by (cases bs) auto
  then have "length bs = 1 \<or> 2 \<le> length bs" by linarith
  then show ?thesis
  proof
    assume "length bs = 1"
    then show ?thesis using len by (simp add: last_block_num_log_def read_indices_def)
  next
    assume "2 \<le> length bs"
    then show ?thesis
      using len assms(2) read_last_entry [OF inv assms(2)] last_entry_num [OF inv assms(2)]
      by (simp add: last_block_num_log_def entry_def)
  qed
qed

theorem last_block_num_one_witness: "\<exists>l. head_block l = Some log_example \<and> last_block_num_log l = Inr 0"
proof -
  obtain l where l: "log_run log_crypto (\<lambda>_. 100) [log_example] l" using log_example_run by blast
  have "head_block l = Some log_example" using log_run_inv [OF l] by (simp add: log_inv_def)
  then show ?thesis using last_block_num_one [OF l] by auto
qed

end
