(* ===== verification/Basechain_Index.thy ===== *)
theory Basechain_Index
  imports Prelude "HOL-Library.AList"
begin

text \<open>
  \<^verbatim>\<open>foundation/basechain\<close>: the object table \<^verbatim>\<open>generic_index\<close> that every piece of chain state
  lives in, with its stack of undo states. Objects are kept by their identifier;
  the further unique indices of a table are the parameter \<open>conf\<close>, which says that
  two objects violate one of them.
\<close>

section \<open>Containers\<close>

text \<open>
  The maps and sets of the undo states and the table itself iterate in the order of the
  identifiers: association lists and lists sorted by them. \<^verbatim>\<open>emplace\<close> keeps an
  element that is present. \<^verbatim>\<open>modify\<close> of a multi-index container erases the
  element when its new value violates a unique index.
\<close>

definition map_emplace :: "int \<Rightarrow> 'v \<Rightarrow> (int \<times> 'v) list \<Rightarrow> (int \<times> 'v) list" where
  "map_emplace k v m = (if map_of m k \<noteq> None then m else insort_key fst (k, v) m)"

definition set_insert :: "int \<Rightarrow> int list \<Rightarrow> int list" where
  "set_insert k s = (if k \<in> set s then s else insort k s)"

definition set_erase :: "int \<Rightarrow> int list \<Rightarrow> int list" where
  "set_erase k s = filter (\<lambda>x. x \<noteq> k) s"

definition idx_emplace ::
  "('v \<Rightarrow> 'v \<Rightarrow> bool) \<Rightarrow> int \<Rightarrow> 'v \<Rightarrow> (int \<times> 'v) list \<Rightarrow> bool \<times> (int \<times> 'v) list" where
  "idx_emplace conf k v m =
     (if map_of m k \<noteq> None \<or> list_ex (\<lambda>(_, w). conf v w) m then (False, m)
      else (True, insort_key fst (k, v) m))"

definition idx_modify ::
  "('v \<Rightarrow> 'v \<Rightarrow> bool) \<Rightarrow> int \<Rightarrow> 'v \<Rightarrow> (int \<times> 'v) list \<Rightarrow> bool \<times> (int \<times> 'v) list" where
  "idx_modify conf k v m =
     (if list_ex (\<lambda>(k', w). k' \<noteq> k \<and> conf v w) m then (False, AList.delete k m)
      else (True, AList.update k v m))"

section \<open>generic\_index\<close>

record 'v undo_state =
  old_values :: "(int \<times> 'v) list"
  removed_values :: "(int \<times> 'v) list"
  new_ids :: "int list"
  old_next_id :: int
  undo_revision :: int

text \<open>
  The undo states are listed from \<^verbatim>\<open>_stack.back()\<close>, the current session, to
  \<^verbatim>\<open>_stack.front()\<close>.
\<close>

record 'v generic_index =
  gi_stack :: "'v undo_state list"
  gi_revision :: int
  gi_next_id :: int
  gi_indices :: "(int \<times> 'v) list"

text \<open>
  \<open>NotUnique\<close>, \<open>KeyNotFound\<close> and \<open>RevisionLocked\<close> are the exceptions thrown; \<open>BadIterator\<close> is
  a call on the end iterator, whose behaviour is undefined. An error carries the
  table as it is left.
\<close>

datatype db_error = NotUnique | KeyNotFound | RevisionLocked | BadIterator

type_synonym ('v, 'a) db = "(db_error \<times> 'v generic_index) + 'a"

definition on_create :: "int \<Rightarrow> 'v generic_index \<Rightarrow> 'v generic_index" where
  "on_create k g =
     (case gi_stack g of [] \<Rightarrow> g
      | u # us \<Rightarrow> g\<lparr>gi_stack := u\<lparr>new_ids := set_insert k (new_ids u)\<rparr> # us\<rparr>)"

definition on_modify :: "int \<Rightarrow> 'v \<Rightarrow> 'v generic_index \<Rightarrow> 'v generic_index" where
  "on_modify k v g =
     (case gi_stack g of [] \<Rightarrow> g
      | u # us \<Rightarrow>
        if k \<in> set (new_ids u) then g
        else if map_of (old_values u) k \<noteq> None then g
        else g\<lparr>gi_stack := u\<lparr>old_values := map_emplace k v (old_values u)\<rparr> # us\<rparr>)"

definition on_remove :: "int \<Rightarrow> 'v \<Rightarrow> 'v generic_index \<Rightarrow> 'v generic_index" where
  "on_remove k v g =
     (case gi_stack g of [] \<Rightarrow> g
      | u # us \<Rightarrow>
        if k \<in> set (new_ids u) then g\<lparr>gi_stack := u\<lparr>new_ids := set_erase k (new_ids u)\<rparr> # us\<rparr>
        else case map_of (old_values u) k of
          Some old \<Rightarrow> g\<lparr>gi_stack := u\<lparr>removed_values := map_emplace k old (removed_values u),
                                     old_values := AList.delete k (old_values u)\<rparr> # us\<rparr>
        | None \<Rightarrow>
          if map_of (removed_values u) k \<noteq> None then g
          else g\<lparr>gi_stack := u\<lparr>removed_values := map_emplace k v (removed_values u)\<rparr> # us\<rparr>)"

text \<open>
  The constructor of a new object is given the identifier; the modifier maps the old value
  to the new one. \<^verbatim>\<open>modify\<close> and \<^verbatim>\<open>remove\<close> take a reference to an object of the table, here
  its identifier.
\<close>

definition gi_emplace ::
  "('v \<Rightarrow> 'v \<Rightarrow> bool) \<Rightarrow> (int \<Rightarrow> 'v) \<Rightarrow> 'v generic_index \<Rightarrow> ('v, 'v generic_index) db" where
  "gi_emplace conf c g =
     (let new_id = gi_next_id g
      in case idx_emplace conf new_id (c new_id) (gi_indices g) of
        (False, _) \<Rightarrow> Inl (NotUnique, g)
      | (True, m) \<Rightarrow> Inr (on_create new_id (g\<lparr>gi_indices := m, gi_next_id := new_id + 1\<rparr>)))"

definition gi_modify ::
  "('v \<Rightarrow> 'v \<Rightarrow> bool) \<Rightarrow> int \<Rightarrow> ('v \<Rightarrow> 'v) \<Rightarrow> 'v generic_index \<Rightarrow> ('v, 'v generic_index) db" where
  "gi_modify conf k f g =
     (case map_of (gi_indices g) k of None \<Rightarrow> Inl (BadIterator, g)
      | Some v \<Rightarrow>
        let g = on_modify k v g
        in case idx_modify conf k (f v) (gi_indices g) of
          (ok, m) \<Rightarrow> if ok then Inr (g\<lparr>gi_indices := m\<rparr>) else Inl (NotUnique, g\<lparr>gi_indices := m\<rparr>))"

definition gi_remove :: "int \<Rightarrow> 'v generic_index \<Rightarrow> ('v, 'v generic_index) db" where
  "gi_remove k g =
     (case map_of (gi_indices g) k of None \<Rightarrow> Inl (BadIterator, g)
      | Some v \<Rightarrow> let g = on_remove k v g in Inr (g\<lparr>gi_indices := AList.delete k (gi_indices g)\<rparr>))"

definition gi_find :: "int \<Rightarrow> 'v generic_index \<Rightarrow> 'v option" where
  "gi_find k g = map_of (gi_indices g) k"

definition gi_get :: "int \<Rightarrow> 'v generic_index \<Rightarrow> ('v, 'v) db" where
  "gi_get k g = (case gi_find k g of None \<Rightarrow> Inl (KeyNotFound, g) | Some v \<Rightarrow> Inr v)"

definition gi_remove_object :: "int \<Rightarrow> 'v generic_index \<Rightarrow> ('v, 'v generic_index) db" where
  "gi_remove_object k g = (case gi_find k g of None \<Rightarrow> Inl (KeyNotFound, g) | Some v \<Rightarrow> gi_remove k g)"

section \<open>Sessions\<close>

definition gi_start_undo_session :: "'v generic_index \<Rightarrow> 'v generic_index" where
  "gi_start_undo_session g =
     g\<lparr>gi_stack := \<lparr>old_values = [], removed_values = [], new_ids = [],
                    old_next_id = gi_next_id g, undo_revision = gi_revision g + 1\<rparr> # gi_stack g,
       gi_revision := gi_revision g + 1\<rparr>"

text \<open>The three loops of \<^verbatim>\<open>undo\<close>.\<close>

fun undo_old :: "('v \<Rightarrow> 'v \<Rightarrow> bool) \<Rightarrow> (int \<times> 'v) list \<Rightarrow> (int \<times> 'v) list
    \<Rightarrow> (db_error \<times> (int \<times> 'v) list) + (int \<times> 'v) list" where
  "undo_old conf [] m = Inr m"
| "undo_old conf ((k, v) # items) m =
     (if map_of m k = None then Inl (BadIterator, m)
      else case idx_modify conf k v m of
        (ok, m') \<Rightarrow> if ok then undo_old conf items m' else Inl (NotUnique, m'))"

fun undo_new :: "int list \<Rightarrow> (int \<times> 'v) list
    \<Rightarrow> (db_error \<times> (int \<times> 'v) list) + (int \<times> 'v) list" where
  "undo_new [] m = Inr m"
| "undo_new (k # ks) m =
     (if map_of m k = None then Inl (BadIterator, m) else undo_new ks (AList.delete k m))"

fun undo_removed :: "('v \<Rightarrow> 'v \<Rightarrow> bool) \<Rightarrow> (int \<times> 'v) list \<Rightarrow> (int \<times> 'v) list
    \<Rightarrow> (db_error \<times> (int \<times> 'v) list) + (int \<times> 'v) list" where
  "undo_removed conf [] m = Inr m"
| "undo_removed conf ((k, v) # items) m =
     (case idx_emplace conf k v m of
        (ok, m') \<Rightarrow> if ok then undo_removed conf items m' else Inl (NotUnique, m'))"

definition gi_undo :: "('v \<Rightarrow> 'v \<Rightarrow> bool) \<Rightarrow> 'v generic_index \<Rightarrow> ('v, 'v generic_index) db" where
  "gi_undo conf g =
     (case gi_stack g of [] \<Rightarrow> Inr g
      | u # us \<Rightarrow>
        case undo_old conf (old_values u) (gi_indices g) of
          Inl (e, m) \<Rightarrow> Inl (e, g\<lparr>gi_indices := m\<rparr>)
        | Inr m \<Rightarrow>
        case undo_new (new_ids u) m of
          Inl (e, m) \<Rightarrow> Inl (e, g\<lparr>gi_indices := m\<rparr>)
        | Inr m \<Rightarrow>
        case undo_removed conf (removed_values u) m of
          Inl (e, m) \<Rightarrow> Inl (e, g\<lparr>gi_indices := m, gi_next_id := old_next_id u\<rparr>)
        | Inr m \<Rightarrow> Inr (g\<lparr>gi_indices := m, gi_next_id := old_next_id u, gi_stack := us,
                         gi_revision := gi_revision g - 1\<rparr>))"

text \<open>The three loops of \<^verbatim>\<open>squash\<close>, which merge the last state into the one before it.\<close>

definition squash_old :: "'v undo_state \<Rightarrow> int \<times> 'v \<Rightarrow> 'v undo_state" where
  "squash_old prev item =
     (if fst item \<in> set (new_ids prev) then prev
      else if map_of (old_values prev) (fst item) \<noteq> None then prev
      else prev\<lparr>old_values := map_emplace (fst item) (snd item) (old_values prev)\<rparr>)"

definition squash_new :: "'v undo_state \<Rightarrow> int \<Rightarrow> 'v undo_state" where
  "squash_new prev k = prev\<lparr>new_ids := set_insert k (new_ids prev)\<rparr>"

definition squash_removed :: "'v undo_state \<Rightarrow> int \<times> 'v \<Rightarrow> 'v undo_state" where
  "squash_removed prev obj =
     (let k = fst obj
      in if k \<in> set (new_ids prev) then prev\<lparr>new_ids := set_erase k (new_ids prev)\<rparr>
      else case map_of (old_values prev) k of
        Some old \<Rightarrow> prev\<lparr>removed_values := map_emplace k old (removed_values prev),
                         old_values := AList.delete k (old_values prev)\<rparr>
      | None \<Rightarrow> prev\<lparr>removed_values := map_emplace k (snd obj) (removed_values prev)\<rparr>)"

definition squash_state :: "'v undo_state \<Rightarrow> 'v undo_state \<Rightarrow> 'v undo_state" where
  "squash_state u prev =
     foldl squash_removed (foldl squash_new (foldl squash_old prev (old_values u)) (new_ids u))
       (removed_values u)"

definition gi_squash :: "'v generic_index \<Rightarrow> 'v generic_index" where
  "gi_squash g =
     (case gi_stack g of [] \<Rightarrow> g
      | [u] \<Rightarrow> g\<lparr>gi_stack := []\<rparr>
      | u # prev # us \<Rightarrow> g\<lparr>gi_stack := squash_state u prev # us, gi_revision := gi_revision g - 1\<rparr>)"

definition gi_commit :: "int \<Rightarrow> 'v generic_index \<Rightarrow> 'v generic_index" where
  "gi_commit r g = g\<lparr>gi_stack := rev (dropWhile (\<lambda>u. undo_revision u \<le> r) (rev (gi_stack g)))\<rparr>"

definition gi_set_revision :: "int \<Rightarrow> 'v generic_index \<Rightarrow> ('v, 'v generic_index) db" where
  "gi_set_revision r g =
     (if gi_stack g \<noteq> [] then Inl (RevisionLocked, g) else Inr (g\<lparr>gi_revision := r\<rparr>))"

lemma gi_undo_stack: "gi_undo conf g = Inr g' \<Longrightarrow> gi_stack g' = tl (gi_stack g)"
  by (auto simp: gi_undo_def split: list.splits sum.splits prod.splits)

function gi_undo_all :: "('v \<Rightarrow> 'v \<Rightarrow> bool) \<Rightarrow> 'v generic_index \<Rightarrow> ('v, 'v generic_index) db" where
  "gi_undo_all conf g =
     (if gi_stack g = [] then Inr g
      else case gi_undo conf g of Inl e \<Rightarrow> Inl e | Inr g' \<Rightarrow> gi_undo_all conf g')"
  by pat_completeness auto
termination
  by (relation "measure (\<lambda>(_, g). length (gi_stack g))") (auto dest: gi_undo_stack)

declare gi_undo_all.simps [simp del]

text \<open>
  A session object: whether its destructor undoes the changes. \<^verbatim>\<open>start_undo_session (false)\<close>
  gives a session that does nothing.
\<close>

record undo_session =
  ses_apply :: bool
  ses_revision :: int

definition gi_session :: "bool \<Rightarrow> 'v generic_index \<Rightarrow> undo_session \<times> 'v generic_index" where
  "gi_session enabled g =
     (if enabled then let g = gi_start_undo_session g in (\<lparr>ses_apply = True, ses_revision = gi_revision g\<rparr>, g)
      else (\<lparr>ses_apply = False, ses_revision = - 1\<rparr>, g))"

definition session_push :: "undo_session \<Rightarrow> undo_session" where
  "session_push s = s\<lparr>ses_apply := False\<rparr>"

definition session_squash :: "undo_session \<times> 'v generic_index \<Rightarrow> undo_session \<times> 'v generic_index" where
  "session_squash = (\<lambda>(s, g). (s\<lparr>ses_apply := False\<rparr>, if ses_apply s then gi_squash g else g))"

definition session_undo ::
  "('v \<Rightarrow> 'v \<Rightarrow> bool) \<Rightarrow> undo_session \<times> 'v generic_index \<Rightarrow> ('v, undo_session \<times> 'v generic_index) db" where
  "session_undo conf = (\<lambda>(s, g).
     if ses_apply s
     then case gi_undo conf g of Inl e \<Rightarrow> Inl e | Inr g' \<Rightarrow> Inr (s\<lparr>ses_apply := False\<rparr>, g')
     else Inr (s\<lparr>ses_apply := False\<rparr>, g))"

end
