(* ===== verification/Basechain_Undo.thy ===== *)
theory Basechain_Undo
  imports Basechain_Index
begin

text \<open>
  The undo sessions of a table refine a stack of snapshots: each operation of
  \<^verbatim>\<open>generic_index\<close> changes the present contents and keeps what the undo states
  revert to; \<^verbatim>\<open>undo\<close>, \<^verbatim>\<open>squash\<close> and \<^verbatim>\<open>commit\<close> remove the first, the second and the last
  snapshots.
\<close>

section \<open>Reverting a session\<close>

declare map_of_eq_Some_iff [simp del]

lemma map_of_insort_new [simp]:
  "map_of m k = None \<Longrightarrow> map_of (insort_key fst (k, v) m) = (map_of m)(k \<mapsto> v)"
  by (induction m) (auto split: if_splits)

lemma map_of_emplace [simp]:
  "map_of (map_emplace k v m) = (case map_of m k of None \<Rightarrow> (map_of m)(k \<mapsto> v) | Some _ \<Rightarrow> map_of m)"
  by (auto simp: map_emplace_def split: option.splits)

lemma set_set_insert [simp]: "set (set_insert k s) = insert k (set s)"
  by (auto simp: set_insert_def set_insort_key)

lemma set_set_erase [simp]: "set (set_erase k s) = set s - {k}"
  by (auto simp: set_erase_def)

lemma distinct_set_insert [simp]: "distinct (set_insert k s) \<longleftrightarrow> distinct s"
  by (auto simp: set_insert_def distinct_insort)

lemma distinct_set_erase [simp]: "distinct s \<Longrightarrow> distinct (set_erase k s)"
  by (simp add: set_erase_def)

lemma distinct_keys_insort [simp]:
  "map_of m k = None \<Longrightarrow> distinct (map fst (insort_key fst (k, v) m)) \<longleftrightarrow> distinct (map fst m)"
  by (induction m) (auto simp: set_insort_key map_of_eq_None_iff split: if_splits)

lemma distinct_keys_emplace [simp]:
  "distinct (map fst (map_emplace k v m)) \<longleftrightarrow> distinct (map fst m)"
  by (auto simp: map_emplace_def)

text \<open>
  What a table looked like when a session began, read off the undo state and the
  present contents; and what holds between an undo state, the present contents
  \<open>m\<close> and the next identifier \<open>n\<close>.
\<close>

definition revert :: "'v undo_state \<Rightarrow> (int \<rightharpoonup> 'v) \<Rightarrow> (int \<rightharpoonup> 'v)" where
  "revert u m = (\<lambda>k.
     if k \<in> set (new_ids u) then None
     else case map_of (old_values u) k of Some v \<Rightarrow> Some v
     | None \<Rightarrow> (case map_of (removed_values u) k of Some v \<Rightarrow> Some v | None \<Rightarrow> m k))"

definition key_ok :: "'v undo_state \<Rightarrow> (int \<rightharpoonup> 'v) \<Rightarrow> int \<Rightarrow> int \<Rightarrow> bool" where
  "key_ok u m n k \<longleftrightarrow>
     (k \<in> set (new_ids u) \<longrightarrow> m k \<noteq> None \<and> old_next_id u \<le> k) \<and>
     (map_of (old_values u) k \<noteq> None \<longrightarrow> m k \<noteq> None \<and> k < old_next_id u) \<and>
     (map_of (removed_values u) k \<noteq> None \<longrightarrow> m k = None \<and> k < old_next_id u) \<and>
     (m k \<noteq> None \<longrightarrow> k < n \<and> (old_next_id u \<le> k \<longrightarrow> k \<in> set (new_ids u)))"

definition level_ok :: "'v undo_state \<Rightarrow> (int \<rightharpoonup> 'v) \<Rightarrow> int \<Rightarrow> bool" where
  "level_ok u m n \<longleftrightarrow>
     distinct (map fst (old_values u)) \<and> distinct (map fst (removed_values u)) \<and> distinct (new_ids u) \<and>
     old_next_id u \<le> n \<and> (\<forall>k. key_ok u m n k)"

lemma level_key: "level_ok u m n \<Longrightarrow> key_ok u m n k"
  by (simp add: level_ok_def)

lemma level_old: "level_ok u m n \<Longrightarrow> dom (map_of (old_values u)) \<subseteq> dom m"
  using level_key [of u m n] unfolding key_ok_def by blast

lemma level_new: "level_ok u m n \<Longrightarrow> set (new_ids u) \<subseteq> dom m"
  using level_key [of u m n] unfolding key_ok_def by blast

lemma level_removed: "level_ok u m n \<Longrightarrow> dom (map_of (removed_values u)) \<inter> dom m = {}"
  using level_key [of u m n] unfolding key_ok_def by (metis disjoint_iff domIff)

lemma level_less: "level_ok u m n \<Longrightarrow> \<forall>k. m k \<noteq> None \<longrightarrow> k < n"
  using level_key [of u m n] unfolding key_ok_def by blast

lemma revert_old:
  assumes "level_ok u m n" and "map_of (old_values u) k = Some v"
  shows "revert u m k = Some v \<and> m k \<noteq> None"
  using level_key [OF assms(1), of k] assms(2) unfolding key_ok_def revert_def by (metis linorder_not_less option.distinct(1) option.simps(5))

lemma revert_new:
  assumes "level_ok u m n" and "k \<in> set (new_ids u)"
  shows "revert u m k = None \<and> map_of (old_values u) k = None \<and> m k \<noteq> None \<and> old_next_id u \<le> k \<and> k < n"
  using level_key [OF assms(1), of k] assms(2) unfolding key_ok_def revert_def by (metis linorder_not_less)

lemma revert_removed:
  assumes "level_ok u m n" and "map_of (removed_values u) k = Some v"
  shows "revert u m k = Some v \<and> m k = None \<and> map_of (old_values u) k = None \<and> k \<notin> set (new_ids u)"
proof -
  have "m k = None" "map_of (old_values u) k = None" "k \<notin> set (new_ids u)"
    using level_key [OF assms(1), of k] assms(2) unfolding key_ok_def by (metis option.distinct(1))+
  then show ?thesis using assms(2) by (simp add: revert_def)
qed

lemma level_dist: "level_ok u m n \<Longrightarrow> distinct (map fst (old_values u)) \<and> distinct (map fst (removed_values u)) \<and>
    distinct (new_ids u) \<and> old_next_id u \<le> n"
  by (simp add: level_ok_def)

lemma key_mono: "key_ok u m n k \<Longrightarrow> n \<le> n' \<Longrightarrow> key_ok u m n' k"
  unfolding key_ok_def using order_less_le_trans by blast

text \<open>A change of one object and of its entry in the undo state.\<close>

lemma level_change:
  assumes l: "level_ok u m n" and j: "key_ok u' m' n' j" and n: "n \<le> n'"
    and d: "distinct (map fst (old_values u'))" "distinct (map fst (removed_values u'))" "distinct (new_ids u')"
    and same: "old_next_id u' = old_next_id u" "\<And>k. k \<noteq> j \<Longrightarrow> m' k = m k"
      "\<And>k. k \<noteq> j \<Longrightarrow> k \<in> set (new_ids u') \<longleftrightarrow> k \<in> set (new_ids u)"
      "\<And>k. k \<noteq> j \<Longrightarrow> map_of (old_values u') k = map_of (old_values u) k"
      "\<And>k. k \<noteq> j \<Longrightarrow> map_of (removed_values u') k = map_of (removed_values u) k"
    and j': "revert u' m' j = revert u m j"
  shows "level_ok u' m' n' \<and> revert u' m' = revert u m"
proof -
  have "key_ok u' m' n' k" for k
  proof (cases "k = j")
    case False
    have "key_ok u' m' n' k = key_ok u m n' k"
      unfolding key_ok_def same(1) same(2) [OF False] same(3) [OF False] same(4) [OF False] same(5) [OF False] by (rule refl)
    then show ?thesis using key_mono [OF level_key [OF l] n] by simp
  qed (use j in simp)
  moreover have "revert u' m' k = revert u m k" for k
  proof (cases "k = j")
    case False
    show ?thesis
      unfolding revert_def same(2) [OF False] same(3) [OF False] same(4) [OF False] same(5) [OF False] by (rule refl)
  qed (use j' in simp)
  ultimately show ?thesis using level_dist [OF l] d n same(1) by (auto simp: level_ok_def)
qed

fun levels_ok :: "'v undo_state list \<Rightarrow> (int \<rightharpoonup> 'v) \<Rightarrow> int \<Rightarrow> bool" where
  "levels_ok [] m n \<longleftrightarrow> (\<forall>k. m k \<noteq> None \<longrightarrow> k < n)"
| "levels_ok (u # us) m n \<longleftrightarrow> level_ok u m n \<and> levels_ok us (revert u m) (old_next_id u)"

text \<open>
  The contract of a table: a stack of snapshots, the present one first.
\<close>

fun history :: "'v undo_state list \<Rightarrow> (int \<rightharpoonup> 'v) \<Rightarrow> int \<Rightarrow> ((int \<rightharpoonup> 'v) \<times> int) list" where
  "history [] m n = [(m, n)]"
| "history (u # us) m n = (m, n) # history us (revert u m) (old_next_id u)"

definition gi_history :: "'v generic_index \<Rightarrow> ((int \<rightharpoonup> 'v) \<times> int) list" where
  "gi_history g = history (gi_stack g) (map_of (gi_indices g)) (gi_next_id g)"

definition revisions_ok :: "'v generic_index \<Rightarrow> bool" where
  "revisions_ok g \<longleftrightarrow> (\<forall>i < length (gi_stack g). undo_revision (gi_stack g ! i) = gi_revision g - int i)"

definition gi_inv :: "'v generic_index \<Rightarrow> bool" where
  "gi_inv g \<longleftrightarrow> levels_ok (gi_stack g) (map_of (gi_indices g)) (gi_next_id g) \<and>
     distinct (map fst (gi_indices g)) \<and> revisions_ok g"

lemma history_eq: "history us m n = (m, n) # tl (history us m n)"
  by (cases us) auto

lemma gi_history_ne [simp]: "gi_history g \<noteq> []"
  unfolding gi_history_def by (subst history_eq) simp

lemma hd_gi_history [simp]: "hd (gi_history g) = (map_of (gi_indices g), gi_next_id g)"
  unfolding gi_history_def by (subst history_eq) simp

lemma length_history [simp]: "length (history us m n) = Suc (length us)"
  by (induction us arbitrary: m n) auto

lemma length_gi_history: "length (gi_history g) = Suc (length (gi_stack g))"
  by (simp add: gi_history_def)

text \<open>Changing the present contents and the state on top, so that it still reverts to the same.\<close>

lemma top_change:
  assumes inv: "gi_inv g" and st: "gi_stack g = u # us" and
    u': "revert u' m' = revert u (map_of (gi_indices g))" "old_next_id u' = old_next_id u"
      "undo_revision u' = undo_revision u" "level_ok u' m' n'"
    and g': "gi_stack g' = u' # us" "map_of (gi_indices g') = m'" "gi_next_id g' = n'"
      "gi_revision g' = gi_revision g" "distinct (map fst (gi_indices g'))"
  shows "gi_inv g' \<and> gi_history g' = (m', n') # tl (gi_history g)"
proof -
  have "undo_revision ((u' # us) ! i) = undo_revision ((u # us) ! i)" for i
    using u'(3) by (cases i) auto
  then have "revisions_ok g'" using inv st g' by (simp add: gi_inv_def revisions_ok_def)
  then show ?thesis using inv st u' g' by (simp add: gi_inv_def gi_history_def)
qed

lemma bottom_change:
  assumes "gi_inv g" and "gi_stack g = []" and "gi_stack g' = []" and "\<forall>k. map_of (gi_indices g') k \<noteq> None \<longrightarrow> k < gi_next_id g'"
    and "distinct (map fst (gi_indices g'))"
  shows "gi_inv g' \<and> gi_history g' = (map_of (gi_indices g'), gi_next_id g') # tl (gi_history g)"
  using assms by (simp add: gi_inv_def gi_history_def revisions_ok_def)

lemma inv_less: "gi_inv g \<Longrightarrow> map_of (gi_indices g) k \<noteq> None \<Longrightarrow> k < gi_next_id g"
  by (cases "gi_stack g") (auto simp: gi_inv_def level_ok_def key_ok_def simp del: not_None_eq)

lemma inv_fresh: "gi_inv g \<Longrightarrow> map_of (gi_indices g) (gi_next_id g) = None"
  using inv_less [of g "gi_next_id g"] by force

lemma inv_level: "gi_inv g \<Longrightarrow> gi_stack g = u # us \<Longrightarrow> level_ok u (map_of (gi_indices g)) (gi_next_id g)"
  by (simp add: gi_inv_def)

lemma on_modify_fields [simp]:
  "gi_indices (on_modify k v g) = gi_indices g" "gi_next_id (on_modify k v g) = gi_next_id g"
  "gi_revision (on_modify k v g) = gi_revision g"
  by (auto simp: on_modify_def split: list.splits)

lemma on_remove_fields [simp]:
  "gi_indices (on_remove k v g) = gi_indices g" "gi_next_id (on_remove k v g) = gi_next_id g"
  "gi_revision (on_remove k v g) = gi_revision g"
  by (auto simp: on_remove_def split: list.splits option.splits)

text \<open>
  One object changed, created or removed: the step of \<^verbatim>\<open>squash\<close> for it is also what
  \<^verbatim>\<open>on_modify\<close>, \<^verbatim>\<open>on_create\<close> and \<^verbatim>\<open>on_remove\<close> do to the state on top.
\<close>

lemma squash_old_fields [simp]:
  "old_next_id (squash_old u i) = old_next_id u" "undo_revision (squash_old u i) = undo_revision u"
  by (simp_all add: squash_old_def)

lemma squash_new_fields [simp]:
  "old_next_id (squash_new u k) = old_next_id u" "undo_revision (squash_new u k) = undo_revision u"
  by (simp_all add: squash_new_def)

lemma squash_removed_fields [simp]:
  "old_next_id (squash_removed u i) = old_next_id u" "undo_revision (squash_removed u i) = undo_revision u"
  by (simp_all add: squash_removed_def Let_def split: option.splits)

lemma on_modify_eq: "gi_stack g = u # us \<Longrightarrow> gi_stack (on_modify k v g) = squash_old u (k, v) # us"
  by (simp add: on_modify_def squash_old_def)

lemma on_create_eq: "gi_stack g = u # us \<Longrightarrow> gi_stack (on_create k g) = squash_new u k # us"
  by (simp add: on_create_def squash_new_def)

lemma on_remove_eq: "gi_stack g = u # us \<Longrightarrow> gi_stack (on_remove k v g) = squash_removed u (k, v) # us"
  by (auto simp: on_remove_def squash_removed_def map_emplace_def Let_def split: option.splits)

lemma squash_old_level:
  assumes l: "level_ok u m n" and k: "m k = Some v" and w: "w \<noteq> None"
  shows "level_ok (squash_old u (k, v)) (m(k := w)) n \<and> revert (squash_old u (k, v)) (m(k := w)) = revert u m"
proof -
  note lk = level_key [OF l, of k]
  define u' where "u' = squash_old u (k, v)"
  have u': "old_next_id u' = old_next_id u" "new_ids u' = new_ids u" "removed_values u' = removed_values u"
    "old_values u' = (if k \<in> set (new_ids u) then old_values u else map_emplace k v (old_values u))"
    by (auto simp: u'_def squash_old_def map_emplace_def)
  show ?thesis unfolding u'_def [symmetric]
    using lk level_dist [OF l] k w by (intro level_change [OF l, where j = k])
      (auto simp: u' key_ok_def revert_def split: option.splits)
qed

lemma squash_new_level:
  assumes l: "level_ok u m n" and k: "m k = None" "old_next_id u \<le> k" "k < n'" and n: "n \<le> n'" and w: "w \<noteq> None"
  shows "level_ok (squash_new u k) (m(k := w)) n' \<and> revert (squash_new u k) (m(k := w)) = revert u m"
  using level_dist [OF l] level_key [OF l, of k] k n w unfolding squash_new_def
  by (intro level_change [OF l, where j = k]) (auto simp: key_ok_def revert_def split: option.splits)

lemma squash_removed_level:
  assumes l: "level_ok u m n" and k: "m k = Some v"
  shows "level_ok (squash_removed u (k, v)) (m(k := None)) n \<and>
    revert (squash_removed u (k, v)) (m(k := None)) = revert u m"
proof -
  note lk = level_key [OF l, of k]
  define rm where "rm = (if k \<in> set (new_ids u) then removed_values u
    else case map_of (old_values u) k of Some w \<Rightarrow> map_emplace k w (removed_values u)
      | None \<Rightarrow> map_emplace k v (removed_values u))"
  define u' where "u' = squash_removed u (k, v)"
  have u': "old_next_id u' = old_next_id u \<and> set (new_ids u') = set (new_ids u) - {k} \<and> distinct (new_ids u') \<and>
    removed_values u' = rm \<and> map_of (old_values u') = (map_of (old_values u))(k := None) \<and>
    distinct (map fst (old_values u'))"
  proof (cases "k \<in> set (new_ids u)")
    case True
    then have "map_of (old_values u) k = None" using lk by (auto simp: key_ok_def)
    with True show ?thesis
      using level_dist [OF l] by (simp add: u'_def squash_removed_def rm_def fun_upd_idem)
  next
    case False
    then show ?thesis using level_dist [OF l]
      by (cases "map_of (old_values u) k")
        (simp_all add: u'_def squash_removed_def rm_def delete_conv' distinct_delete fun_upd_idem)
  qed
  show ?thesis unfolding u'_def [symmetric]
    using lk level_dist [OF l] k by (intro level_change [OF l, where j = k])
      (auto simp: u' rm_def key_ok_def revert_def split: option.splits)
qed

lemma emplace_refines:
  assumes inv: "gi_inv g" and ok: "gi_emplace conf c g = Inr g'"
  shows "gi_inv g' \<and> gi_history g' =
    ((map_of (gi_indices g))(gi_next_id g \<mapsto> c (gi_next_id g)), gi_next_id g + 1) # tl (gi_history g)"
proof (cases "gi_stack g")
  case Nil
  have g': "gi_stack g' = []" "map_of (gi_indices g') = (map_of (gi_indices g))(gi_next_id g \<mapsto> c (gi_next_id g))"
    "gi_next_id g' = gi_next_id g + 1" "distinct (map fst (gi_indices g'))"
    using ok Nil inv_fresh [OF inv] inv
    by (auto simp: gi_emplace_def on_create_def idx_emplace_def gi_inv_def Let_def split: if_splits)
  have "\<forall>k. map_of (gi_indices g') k \<noteq> None \<longrightarrow> k < gi_next_id g'"
    using inv_less [OF inv] by (force simp: g' simp del: not_None_eq)
  then show ?thesis using bottom_change [OF inv Nil g'(1) _ g'(4)] by (simp add: g')
next
  case (Cons u us)
  let ?k = "gi_next_id g" and ?m = "map_of (gi_indices g)"
  let ?u = "squash_new u ?k"
  note l = inv_level [OF inv Cons]
  have g': "gi_stack g' = ?u # us" "map_of (gi_indices g') = ?m(?k \<mapsto> c ?k)"
    "gi_next_id g' = ?k + 1" "gi_revision g' = gi_revision g" "distinct (map fst (gi_indices g'))"
    using ok Cons inv_fresh [OF inv] inv
    by (auto simp: gi_emplace_def on_create_def squash_new_def idx_emplace_def gi_inv_def Let_def split: if_splits)
  have "level_ok ?u (?m(?k \<mapsto> c ?k)) (?k + 1) \<and> revert ?u (?m(?k \<mapsto> c ?k)) = revert u ?m"
    using level_dist [OF l] by (intro squash_new_level [OF l inv_fresh [OF inv]]) simp_all
  then show ?thesis by (intro top_change [OF inv Cons _ _ _ _ g']) simp_all
qed

lemma modify_refines:
  assumes inv: "gi_inv g" and ok: "gi_modify conf k f g = Inr g'"
  shows "\<exists>v. map_of (gi_indices g) k = Some v \<and> gi_inv g' \<and>
    gi_history g' = ((map_of (gi_indices g))(k \<mapsto> f v), gi_next_id g) # tl (gi_history g)"
proof -
  obtain v where v: "map_of (gi_indices g) k = Some v" and
    g': "g' = on_modify k v g\<lparr>gi_indices := AList.update k (f v) (gi_indices g)\<rparr>"
    using ok by (auto simp: gi_modify_def idx_modify_def Let_def split: option.splits if_splits)
  have d: "distinct (map fst (gi_indices g'))"
    using inv by (simp add: g' gi_inv_def distinct_update)
  show ?thesis
  proof (cases "gi_stack g")
    case Nil
    have b: "\<forall>k. map_of (gi_indices g') k \<noteq> None \<longrightarrow> k < gi_next_id g'"
      using inv_less [OF inv] v by (simp add: g' update_conv')
    have "gi_stack g' = []" using Nil by (simp add: g' on_modify_def)
    from bottom_change [OF inv Nil this b d] v show ?thesis by (simp add: g' update_conv')
  next
    case (Cons u us)
    then have "gi_stack g' = squash_old u (k, v) # us" by (simp add: g' on_modify_eq)
    with squash_old_level [OF inv_level [OF inv Cons] v, of "Some (f v)"] d
    have "gi_inv g' \<and> gi_history g' = ((map_of (gi_indices g))(k \<mapsto> f v), gi_next_id g) # tl (gi_history g)"
      by (intro top_change [OF inv Cons, where u' = "squash_old u (k, v)"]) (simp_all add: g' update_conv')
    with v show ?thesis by blast
  qed
qed

lemma remove_refines:
  assumes inv: "gi_inv g" and ok: "gi_remove k g = Inr g'"
  shows "\<exists>v. map_of (gi_indices g) k = Some v \<and> gi_inv g' \<and>
    gi_history g' = ((map_of (gi_indices g))(k := None), gi_next_id g) # tl (gi_history g)"
proof -
  obtain v where v: "map_of (gi_indices g) k = Some v" and
    g': "g' = on_remove k v g\<lparr>gi_indices := AList.delete k (gi_indices g)\<rparr>"
    using ok by (auto simp: gi_remove_def Let_def split: option.splits)
  have d: "distinct (map fst (gi_indices g'))"
    using inv by (simp add: g' gi_inv_def distinct_delete)
  show ?thesis
  proof (cases "gi_stack g")
    case Nil
    have b: "\<forall>k. map_of (gi_indices g') k \<noteq> None \<longrightarrow> k < gi_next_id g'"
      using inv_less [OF inv] by (simp add: g' delete_conv')
    have "gi_stack g' = []" using Nil by (simp add: g' on_remove_def)
    from bottom_change [OF inv Nil this b d] v show ?thesis by (simp add: g' delete_conv')
  next
    case (Cons u us)
    then have "gi_stack g' = squash_removed u (k, v) # us" by (simp add: g' on_remove_eq)
    with squash_removed_level [OF inv_level [OF inv Cons] v] d
    have "gi_inv g' \<and> gi_history g' = ((map_of (gi_indices g))(k := None), gi_next_id g) # tl (gi_history g)"
      by (intro top_change [OF inv Cons, where u' = "squash_removed u (k, v)"]) (simp_all add: g' delete_conv')
    with v show ?thesis by blast
  qed
qed

section \<open>undo\<close>

lemma map_add_left_upd: "f k = None \<Longrightarrow> m(k \<mapsto> v) ++ f = (m ++ f)(k \<mapsto> v)"
  by (simp add: map_add_upd_left domIff)

lemma dom_cons: "dom (map_of ((k, v) # items)) = insert k (dom (map_of items))"
  by auto

lemma undo_old_result:
  "undo_old conf items m = Inr m' \<Longrightarrow> distinct (map fst items) \<Longrightarrow> distinct (map fst m) \<Longrightarrow>
   map_of m' = map_of m ++ map_of items \<and> distinct (map fst m')"
proof (induction conf items m rule: undo_old.induct)
  case (2 conf k v items m)
  then have "map_of m' = map_of (AList.update k v m) ++ map_of items \<and> distinct (map fst m')"
    by (auto simp: idx_modify_def distinct_update split: if_splits)
  moreover have "map_of items k = None" using 2(3) by (simp add: map_of_eq_None_iff)
  ultimately show ?case by (simp only: update_conv' map_add_left_upd map_of.simps fst_conv snd_conv map_add_upd simp_thms)
qed simp

lemma undo_old_returns:
  assumes conf: "conf = (\<lambda>_ _. False)"
  shows "dom (map_of items) \<subseteq> dom (map_of m) \<Longrightarrow> \<exists>m'. undo_old conf items m = Inr m'"
proof (induction items arbitrary: m)
  case (Cons kv items)
  obtain k v where kv: "kv = (k, v)" by force
  have "dom (map_of items) \<subseteq> dom (map_of (AList.update k v m))" "k \<in> dom (map_of m)"
    using Cons.prems unfolding kv dom_cons by (auto simp: update_conv')
  with Cons.IH show ?case by (auto simp: kv idx_modify_def list_ex_iff conf)
qed simp

lemma undo_new_result:
  "undo_new ks m = Inr m' \<Longrightarrow> distinct (map fst m) \<Longrightarrow>
   map_of m' = (map_of m) |` (- set ks) \<and> distinct (map fst m')"
  by (induction ks m rule: undo_new.induct)
    (auto simp: delete_conv' distinct_delete restrict_map_def fun_eq_iff split: if_splits)

lemma undo_new_returns:
  "distinct ks \<Longrightarrow> set ks \<subseteq> dom (map_of m) \<Longrightarrow> \<exists>m'. undo_new ks m = Inr m'"
proof (induction ks arbitrary: m)
  case (Cons k ks)
  have "set ks \<subseteq> dom (map_of (AList.delete k m))" "k \<in> dom (map_of m)"
    using Cons.prems by (auto simp: delete_conv')
  with Cons show ?case by auto
qed simp

lemma undo_removed_result:
  "undo_removed conf items m = Inr m' \<Longrightarrow> distinct (map fst items) \<Longrightarrow> distinct (map fst m) \<Longrightarrow>
   map_of m' = map_of m ++ map_of items \<and> distinct (map fst m')"
proof (induction conf items m rule: undo_removed.induct)
  case (2 conf k v items m)
  have n: "map_of m k = None" using 2(2) by (auto simp: idx_emplace_def split: if_splits)
  have "map_of m' = map_of (insort_key fst (k, v) m) ++ map_of items \<and> distinct (map fst m')"
    using 2 n by (auto simp: idx_emplace_def split: if_splits)
  moreover have "map_of items k = None" using 2(3) by (simp add: map_of_eq_None_iff)
  ultimately show ?case using n
    by (simp only: map_of_insort_new map_add_left_upd map_of.simps fst_conv snd_conv map_add_upd simp_thms)
qed simp

lemma undo_removed_returns:
  assumes conf: "conf = (\<lambda>_ _. False)"
  shows "distinct (map fst items) \<Longrightarrow> dom (map_of items) \<inter> dom (map_of m) = {} \<Longrightarrow>
    \<exists>m'. undo_removed conf items m = Inr m'"
proof (induction items arbitrary: m)
  case (Cons kv items)
  obtain k v where kv: "kv = (k, v)" by force
  have n: "map_of m k = None" using Cons.prems(2) by (auto simp: kv)
  have "map_of items k = None" using Cons.prems(1) by (simp add: kv map_of_eq_None_iff)
  then have "dom (map_of items) \<inter> dom (map_of (insort_key fst (k, v) m)) = {}"
    using Cons.prems(2) n unfolding kv dom_cons by auto
  with Cons n show ?case by (auto simp: kv idx_emplace_def list_ex_iff conf)
qed simp

lemma revert_phases:
  assumes "level_ok u m n"
  shows "(m ++ map_of (old_values u)) |` (- set (new_ids u)) ++ map_of (removed_values u) = revert u m"
proof
  fix k
  show "((m ++ map_of (old_values u)) |` (- set (new_ids u)) ++ map_of (removed_values u)) k = revert u m k"
    using level_key [OF assms, of k]
    by (cases "map_of (removed_values u) k"; cases "map_of (old_values u) k"; cases "k \<in> set (new_ids u)")
      (simp_all add: key_ok_def revert_def map_add_def restrict_map_def)
qed

lemma undo_refines:
  assumes inv: "gi_inv g" and st: "gi_stack g \<noteq> []" and ok: "gi_undo conf g = Inr g'"
  shows "gi_inv g' \<and> gi_history g' = tl (gi_history g)"
proof -
  obtain u us where u: "gi_stack g = u # us" using st by (cases "gi_stack g") auto
  note l = inv_level [OF inv u]
  from ok u obtain m1 m2 m3 where m1: "undo_old conf (old_values u) (gi_indices g) = Inr m1"
    and m2: "undo_new (new_ids u) m1 = Inr m2" and m3: "undo_removed conf (removed_values u) m2 = Inr m3"
    and g': "g' = g\<lparr>gi_indices := m3, gi_next_id := old_next_id u, gi_stack := us, gi_revision := gi_revision g - 1\<rparr>"
    by (auto simp: gi_undo_def split: sum.splits)
  have "map_of m3 = revert u (map_of (gi_indices g)) \<and> distinct (map fst m3)"
    using undo_old_result [OF m1] undo_new_result [OF m2] undo_removed_result [OF m3] level_dist [OF l] inv
      revert_phases [OF l] by (auto simp: gi_inv_def)
  moreover have "revisions_ok g'"
    using inv by (auto simp: g' gi_inv_def revisions_ok_def u dest!: spec [of _ "Suc _"])
  ultimately show ?thesis using inv by (auto simp: g' gi_inv_def gi_history_def u)
qed

lemma undo_returns:
  assumes inv: "gi_inv g" and conf: "conf = (\<lambda>_ _. False)"
  shows "\<exists>g'. gi_undo conf g = Inr g'"
proof (cases "gi_stack g")
  case (Cons u us)
  let ?m = "map_of (gi_indices g)"
  note l = inv_level [OF inv Cons]
  obtain m1 where m1: "undo_old conf (old_values u) (gi_indices g) = Inr m1"
    using undo_old_returns [OF conf level_old [OF l]] by blast
  note r1 = undo_old_result [OF m1]
  have "set (new_ids u) \<subseteq> dom (map_of m1)"
    using r1 inv level_dist [OF l] level_new [OF l] by (auto simp: gi_inv_def)
  then obtain m2 where m2: "undo_new (new_ids u) m1 = Inr m2"
    using undo_new_returns level_dist [OF l] by blast
  have "map_of m2 = (?m ++ map_of (old_values u)) |` (- set (new_ids u))"
    using r1 undo_new_result [OF m2] inv level_dist [OF l] by (simp add: gi_inv_def)
  then have "dom (map_of m2) \<subseteq> dom ?m" using level_old [OF l] by auto
  then have "dom (map_of (removed_values u)) \<inter> dom (map_of m2) = {}" using level_removed [OF l] by blast
  then obtain m3 where "undo_removed conf (removed_values u) m2 = Inr m3"
    using undo_removed_returns [OF conf] level_dist [OF l] by blast
  with m1 m2 Cons show ?thesis by (simp add: gi_undo_def)
qed (simp add: gi_undo_def)

section \<open>Starting, squashing, committing\<close>

lemma start_refines:
  assumes "gi_inv g"
  shows "gi_inv (gi_start_undo_session g) \<and> gi_history (gi_start_undo_session g) = hd (gi_history g) # gi_history g"
proof -
  let ?u = "\<lparr>old_values = [], removed_values = [], new_ids = [],
                    old_next_id = gi_next_id g, undo_revision = gi_revision g + 1\<rparr>"
  have r: "revert ?u m = m" for m :: "int \<rightharpoonup> 'a" by (simp add: revert_def fun_eq_iff)
  have "level_ok ?u (map_of (gi_indices g)) (gi_next_id g)"
    using inv_less [OF assms] by (force simp: level_ok_def key_ok_def)
  moreover have "revisions_ok (gi_start_undo_session g)"
    using assms by (auto simp: gi_inv_def revisions_ok_def gi_start_undo_session_def nth_Cons split: nat.splits)
  ultimately show ?thesis
    using assms unfolding gi_inv_def gi_history_def gi_start_undo_session_def
    by (simp add: r) (metis history_eq list.sel(1))
qed

text \<open>\<^verbatim>\<open>squash\<close> replays the changes of the last session on the state before it.\<close>

definition merge_keys :: "int set \<Rightarrow> (int \<rightharpoonup> 'v) \<Rightarrow> (int \<rightharpoonup> 'v) \<Rightarrow> (int \<rightharpoonup> 'v)" where
  "merge_keys ks m m' = (\<lambda>k. if k \<in> ks then m k else m' k)"

lemma merge_keys_insert: "merge_keys (insert k ks) m m' = merge_keys ks m (m'(k := m k))"
  by (simp add: merge_keys_def fun_eq_iff)

lemma merge_keys_empty [simp]: "merge_keys {} m m' = m'"
  by (simp add: merge_keys_def)

lemma fold_squash_old:
  "level_ok p m' n \<Longrightarrow> distinct (map fst items) \<Longrightarrow> \<forall>(k, v) \<in> set items. m' k = Some v \<and> m k \<noteq> None \<Longrightarrow>
   level_ok (foldl squash_old p items) (merge_keys (fst ` set items) m m') n \<and>
   revert (foldl squash_old p items) (merge_keys (fst ` set items) m m') = revert p m' \<and>
   old_next_id (foldl squash_old p items) = old_next_id p \<and> undo_revision (foldl squash_old p items) = undo_revision p"
proof (induction items arbitrary: p m')
  case (Cons kv items)
  obtain k v where kv: "kv = (k, v)" by force
  define m2 where "m2 = m'(k := m k)"
  have "level_ok (squash_old p kv) m2 n \<and> revert (squash_old p kv) m2 = revert p m'"
    using squash_old_level [OF Cons.prems(1), of k v "m k"] Cons.prems(3) by (simp add: m2_def kv)
  moreover have "\<forall>(j, v) \<in> set items. m2 j = Some v \<and> m j \<noteq> None"
    using Cons.prems(2,3) by (force simp: m2_def kv)
  moreover have "merge_keys (fst ` set (kv # items)) m m' = merge_keys (fst ` set items) m m2"
    by (simp add: merge_keys_insert m2_def kv)
  ultimately show ?case using Cons.IH [of "squash_old p kv" m2] Cons.prems(2) by simp
qed simp

lemma fold_squash_new:
  "level_ok p m' n \<Longrightarrow> distinct ks \<Longrightarrow>
   \<forall>k \<in> set ks. m' k = None \<and> m k \<noteq> None \<and> old_next_id p \<le> k \<and> k < n \<Longrightarrow>
   level_ok (foldl squash_new p ks) (merge_keys (set ks) m m') n \<and>
   revert (foldl squash_new p ks) (merge_keys (set ks) m m') = revert p m' \<and>
   old_next_id (foldl squash_new p ks) = old_next_id p \<and> undo_revision (foldl squash_new p ks) = undo_revision p"
proof (induction ks arbitrary: p m')
  case (Cons k ks)
  define m2 where "m2 = m'(k := m k)"
  have "level_ok (squash_new p k) m2 n \<and> revert (squash_new p k) m2 = revert p m'"
    using squash_new_level [OF Cons.prems(1), of k n "m k"] Cons.prems(3) by (simp add: m2_def)
  moreover have "\<forall>j \<in> set ks. m2 j = None \<and> m j \<noteq> None \<and> old_next_id p \<le> j \<and> j < n"
    using Cons.prems(2,3) by (force simp: m2_def)
  moreover have "merge_keys (set (k # ks)) m m' = merge_keys (set ks) m m2"
    by (simp add: merge_keys_insert m2_def)
  ultimately show ?case using Cons.IH [of "squash_new p k" m2] Cons.prems(2) by simp
qed simp

lemma fold_squash_removed:
  "level_ok p m' n \<Longrightarrow> distinct (map fst items) \<Longrightarrow> \<forall>(k, v) \<in> set items. m' k = Some v \<and> m k = None \<Longrightarrow>
   level_ok (foldl squash_removed p items) (merge_keys (fst ` set items) m m') n \<and>
   revert (foldl squash_removed p items) (merge_keys (fst ` set items) m m') = revert p m' \<and>
   old_next_id (foldl squash_removed p items) = old_next_id p \<and>
   undo_revision (foldl squash_removed p items) = undo_revision p"
proof (induction items arbitrary: p m')
  case (Cons kv items)
  obtain k v where kv: "kv = (k, v)" by force
  define m2 where "m2 = m'(k := m k)"
  have "level_ok (squash_removed p kv) m2 n \<and> revert (squash_removed p kv) m2 = revert p m'"
    using squash_removed_level [OF Cons.prems(1), of k v] Cons.prems(3) by (simp add: m2_def kv)
  moreover have "\<forall>(j, v) \<in> set items. m2 j = Some v \<and> m j = None"
    using Cons.prems(2,3) by (force simp: m2_def kv)
  moreover have "merge_keys (fst ` set (kv # items)) m m' = merge_keys (fst ` set items) m m2"
    by (simp add: merge_keys_insert m2_def kv)
  ultimately show ?case using Cons.IH [of "squash_removed p kv" m2] Cons.prems(2) by simp
qed simp

lemma level_mono: "level_ok u m n \<Longrightarrow> n \<le> n' \<Longrightarrow> level_ok u m n'"
  using key_mono by (fastforce simp: level_ok_def)

lemma merge_all:
  assumes "level_ok u m n"
  shows "merge_keys (fst ` set (removed_values u)) m
    (merge_keys (set (new_ids u)) m (merge_keys (fst ` set (old_values u)) m (revert u m))) = m"
  unfolding merge_keys_def dom_map_of_conv_image_fst [symmetric]
  by (auto simp: revert_def fun_eq_iff split: option.splits)

lemma squash_state_level:
  assumes u: "level_ok u m n" and p: "level_ok p (revert u m) (old_next_id u)"
  shows "level_ok (squash_state u p) m n \<and> revert (squash_state u p) m = revert p (revert u m) \<and>
    old_next_id (squash_state u p) = old_next_id p \<and> undo_revision (squash_state u p) = undo_revision p"
proof -
  let ?m0 = "revert u m"
  let ?m1 = "merge_keys (fst ` set (old_values u)) m ?m0" and ?p1 = "foldl squash_old p (old_values u)"
  let ?m2 = "merge_keys (set (new_ids u)) m ?m1" and ?p2 = "foldl squash_new ?p1 (new_ids u)"
  note d = level_dist [OF u] level_dist [OF p]
  have mo: "map_of xs k = Some v" if "(k, v) \<in> set xs" "distinct (map fst xs)" for xs :: "(int \<times> 'a) list" and k v
    using that by (simp add: map_of_eq_Some_iff)
  have "\<forall>(k, v) \<in> set (old_values u). ?m0 k = Some v \<and> m k \<noteq> None"
    using revert_old [OF u mo] d by blast
  note r1 = fold_squash_old [OF level_mono [OF p] _ this]
  have k_old: "k \<in> fst ` set (old_values u) \<longleftrightarrow> map_of (old_values u) k \<noteq> None" for k
    by (metis domIff dom_map_of_conv_image_fst)
  have n1: "old_next_id ?p1 = old_next_id p" "old_next_id p \<le> old_next_id u" using r1 d by auto
  have "?m1 k = None \<and> m k \<noteq> None \<and> old_next_id ?p1 \<le> k \<and> k < n" if "k \<in> set (new_ids u)" for k
    using revert_new [OF u that] n1 by (simp add: merge_keys_def k_old)
  then have "\<forall>k \<in> set (new_ids u). ?m1 k = None \<and> m k \<noteq> None \<and> old_next_id ?p1 \<le> k \<and> k < n" by blast
  note r2 = fold_squash_new [OF _ _ this]
  have "?m2 k = Some v \<and> m k = None" if "(k, v) \<in> set (removed_values u)" for k v
    using revert_removed [OF u mo [OF that]] d by (simp add: merge_keys_def k_old)
  then have "\<forall>(k, v) \<in> set (removed_values u). ?m2 k = Some v \<and> m k = None" by blast
  note r3 = fold_squash_removed [OF _ _ this]
  have r1': "level_ok ?p1 ?m1 n \<and> revert ?p1 ?m1 = revert p ?m0 \<and> old_next_id ?p1 = old_next_id p \<and>
    undo_revision ?p1 = undo_revision p" using r1 d by blast
  have r2': "level_ok ?p2 ?m2 n \<and> revert ?p2 ?m2 = revert ?p1 ?m1 \<and> old_next_id ?p2 = old_next_id ?p1 \<and>
    undo_revision ?p2 = undo_revision ?p1" using r2 r1' d by blast
  then show ?thesis using r3 [of ?p2 n] r1' d merge_all [OF u] by (simp add: squash_state_def)
qed

lemma squash_refines:
  assumes inv: "gi_inv g" and st: "gi_stack g \<noteq> []"
  shows "gi_inv (gi_squash g) \<and> gi_history (gi_squash g) = hd (gi_history g) # tl (tl (gi_history g))"
proof -
  obtain u us where u: "gi_stack g = u # us" using st by (cases "gi_stack g") auto
  show ?thesis
  proof (cases us)
    case Nil
    then show ?thesis using inv u inv_less [OF inv]
      by (simp add: gi_squash_def gi_inv_def gi_history_def revisions_ok_def)
  next
    case (Cons p ps)
    have l: "level_ok u (map_of (gi_indices g)) (gi_next_id g)"
      and "level_ok p (revert u (map_of (gi_indices g))) (old_next_id u)"
      using inv u Cons by (simp_all add: gi_inv_def)
    note r = squash_state_level [OF this]
    have "revisions_ok (gi_squash g)"
      unfolding revisions_ok_def
    proof (intro allI impI)
      fix i assume i: "i < length (gi_stack (gi_squash g))"
      have "\<forall>i < length (gi_stack g). undo_revision (gi_stack g ! i) = gi_revision g - int i"
        using inv by (simp add: gi_inv_def revisions_ok_def)
      from this [rule_format, of "Suc i"] i
      have "undo_revision (gi_stack g ! Suc i) = gi_revision g - int (Suc i)"
        by (simp add: gi_squash_def u Cons)
      then show "undo_revision (gi_stack (gi_squash g) ! i) = gi_revision (gi_squash g) - int i"
        using r by (cases i) (simp_all add: gi_squash_def u Cons)
    qed
    then show ?thesis using inv r u Cons
      by (simp add: gi_squash_def gi_inv_def gi_history_def)
  qed
qed

lemma history_take: "history (take i us) m n = take (Suc i) (history us m n)"
  by (induction us arbitrary: i m n) (auto simp: take_Cons split: nat.splits)

lemma levels_take: "levels_ok us m n \<Longrightarrow> levels_ok (take i us) m n"
  using level_less by (induction us arbitrary: i m n) (fastforce simp: take_Cons split: nat.splits)+

lemma dropWhile_rev_take:
  "\<forall>i < length us. f (us ! i) = (r :: int) - int i \<Longrightarrow>
   rev (dropWhile (\<lambda>u. f u \<le> c) (rev us)) = take (nat (r - c)) us"
proof (induction us rule: rev_induct)
  case (snoc u us)
  have "f u = r - int (length us)" using snoc.prems by (auto dest!: spec [of _ "length us"])
  moreover have "\<forall>i < length us. f (us ! i) = r - int i"
    using snoc.prems by (metis length_append_singleton less_SucI nth_append)
  ultimately show ?case using snoc.IH by auto
qed simp

lemma commit_refines:
  assumes inv: "gi_inv g"
  shows "gi_inv (gi_commit r g) \<and> gi_history (gi_commit r g) = take (Suc (nat (gi_revision g - r))) (gi_history g)"
proof -
  have c: "gi_commit r g = g\<lparr>gi_stack := take (nat (gi_revision g - r)) (gi_stack g)\<rparr>"
    using inv by (simp add: gi_commit_def gi_inv_def revisions_ok_def dropWhile_rev_take)
  show ?thesis using inv levels_take by (auto simp: c gi_inv_def gi_history_def revisions_ok_def history_take)
qed

section \<open>Session discipline\<close>

text \<open>
  The interface of a store with undo sessions: a stack of snapshots, of which a change
  touches only the present one.
\<close>

locale snapshot_store =
  fixes inv :: "'s \<Rightarrow> bool" and hist :: "'s \<Rightarrow> 'm list" and change :: "'s \<Rightarrow> 's \<Rightarrow> bool"
    and start :: "'s \<Rightarrow> 's" and undo :: "'s \<Rightarrow> 'e + 's" and squash :: "'s \<Rightarrow> 's"
  assumes hist_ne: "hist s \<noteq> []"
    and change: "inv s \<Longrightarrow> change s s' \<Longrightarrow> inv s' \<and> tl (hist s') = tl (hist s)"
    and start: "inv s \<Longrightarrow> inv (start s) \<and> hist (start s) = hd (hist s) # hist s"
    and undo: "inv s \<Longrightarrow> tl (hist s) \<noteq> [] \<Longrightarrow> \<exists>s'. undo s = Inr s' \<and> inv s' \<and> hist s' = tl (hist s)"
    and squash: "inv s \<Longrightarrow> tl (hist s) \<noteq> [] \<Longrightarrow> inv (squash s) \<and> hist (squash s) = hd (hist s) # tl (tl (hist s))"

text \<open>What a client does between the start and the end of a session: changes, and nested
  sessions that it undoes or squashes.\<close>

inductive session_run ::
  "('s \<Rightarrow> 's \<Rightarrow> bool) \<Rightarrow> ('s \<Rightarrow> 's) \<Rightarrow> ('s \<Rightarrow> 'e + 's) \<Rightarrow> ('s \<Rightarrow> 's) \<Rightarrow> 's \<Rightarrow> 's \<Rightarrow> bool"
  for change start undo squash where
  Nothing: "session_run change start undo squash s s"
| Change: "session_run change start undo squash s t \<Longrightarrow> change t t' \<Longrightarrow> session_run change start undo squash s t'"
| Undone: "session_run change start undo squash s t \<Longrightarrow> session_run change start undo squash (start t) t1 \<Longrightarrow>
    undo t1 = Inr t2 \<Longrightarrow> session_run change start undo squash s t2"
| Squashed: "session_run change start undo squash s t \<Longrightarrow> session_run change start undo squash (start t) t1 \<Longrightarrow>
    session_run change start undo squash s (squash t1)"

lemma session_run_trans:
  "session_run change start undo squash t u \<Longrightarrow> session_run change start undo squash s t \<Longrightarrow>
   session_run change start undo squash s u"
  by (induction rule: session_run.induct) (blast intro: session_run.intros)+

context snapshot_store
begin

lemma run_keeps_history:
  "session_run change start undo squash s t \<Longrightarrow> inv s \<Longrightarrow> inv t \<and> tl (hist t) = tl (hist s)"
proof (induction rule: session_run.induct)
  case (Undone s t t1 t2)
  then have t: "inv t" "tl (hist t) = tl (hist s)" by auto
  have t1: "inv t1" "tl (hist t1) = hist t" using Undone.IH(2) start [OF t(1)] by auto
  with undo [OF t1(1)] hist_ne [of t] Undone.hyps(3) have "inv t2 \<and> hist t2 = hist t" by auto
  then show ?case using t by simp
next
  case (Squashed s t t1)
  then have t: "inv t" "tl (hist t) = tl (hist s)" by auto
  have t1: "inv t1" "tl (hist t1) = hist t" using Squashed.IH(2) start [OF t(1)] by auto
  with squash [OF t1(1)] hist_ne [of t] t show ?case by auto
qed (use change in auto)

lemma session_undone:
  assumes "inv s" and "session_run change start undo squash (start s) t"
  shows "\<exists>s'. undo t = Inr s' \<and> inv s' \<and> hist s' = hist s"
proof -
  have "inv t" "tl (hist t) = hist s" using run_keeps_history [OF assms(2)] start [OF assms(1)] by auto
  with undo [of t] hist_ne [of s] show ?thesis by auto
qed

end

definition gi_change :: "('v \<Rightarrow> 'v \<Rightarrow> bool) \<Rightarrow> 'v generic_index \<Rightarrow> 'v generic_index \<Rightarrow> bool" where
  "gi_change conf g g' \<longleftrightarrow> (\<exists>c. gi_emplace conf c g = Inr g') \<or> (\<exists>k f. gi_modify conf k f g = Inr g') \<or>
     (\<exists>k. gi_remove k g = Inr g')"

lemma change_refines:
  assumes "gi_inv g" and "gi_change conf g g'"
  shows "gi_inv g' \<and> tl (gi_history g') = tl (gi_history g)"
  using assms emplace_refines [of g conf _ g'] modify_refines [of g conf _ _ g'] remove_refines [of g _ g']
  unfolding gi_change_def by (metis list.sel(3))

text \<open>A table with no unique index but the identifier.\<close>

abbreviation (input) no_conf :: "'v \<Rightarrow> 'v \<Rightarrow> bool" where "no_conf \<equiv> \<lambda>_ _. False"

lemma history_stack: "tl (gi_history g) \<noteq> [] \<longleftrightarrow> gi_stack g \<noteq> []"
  by (cases "gi_stack g") (auto simp: gi_history_def, metis history_eq list.distinct(1))

interpretation table: snapshot_store gi_inv gi_history "gi_change no_conf" gi_start_undo_session "gi_undo no_conf" gi_squash
proof
  show "gi_history s \<noteq> []" for s :: "'a generic_index" by simp
next
  fix s :: "'a generic_index"
  assume "gi_inv s" and "tl (gi_history s) \<noteq> []"
  then show "\<exists>s'. gi_undo no_conf s = Inr s' \<and> gi_inv s' \<and> gi_history s' = tl (gi_history s)"
    using undo_returns [of s no_conf] undo_refines [of s no_conf] by (auto simp: history_stack)
next
  fix s :: "'a generic_index"
  assume "gi_inv s" and "tl (gi_history s) \<noteq> []"
  then show "gi_inv (gi_squash s) \<and> gi_history (gi_squash s) = hd (gi_history s) # tl (tl (gi_history s))"
    using squash_refines by (auto simp: history_stack)
qed (use change_refines start_refines in auto)

section \<open>Properties\<close>

text \<open>
  Undoing a session restores the table: after any sequence of creations,
  modifications, removals and nested sessions, squashed or undone, \<^verbatim>\<open>undo\<close> returns, and the
  objects, the next identifier and every earlier snapshot are as they were when
  the session started (for a table with no unique index but the identifier).
\<close>

theorem session_undo_restores:
  assumes "gi_inv g"
    and "session_run (gi_change no_conf) gi_start_undo_session (gi_undo no_conf) gi_squash (gi_start_undo_session g) t"
  shows "\<exists>g'. gi_undo no_conf t = Inr g' \<and> gi_inv g' \<and> map_of (gi_indices g') = map_of (gi_indices g) \<and>
    gi_next_id g' = gi_next_id g \<and> gi_history g' = gi_history g"
  using table.session_undone [OF assms] hd_gi_history by (metis prod.inject)

definition empty_table :: "nat generic_index" where
  "empty_table = \<lparr>gi_stack = [], gi_revision = 0, gi_next_id = 0, gi_indices = []\<rparr>"

definition one_object :: "nat generic_index" where
  "one_object = \<lparr>gi_stack = [], gi_revision = 0, gi_next_id = 1, gi_indices = [(0, 5)]\<rparr>"

lemma one_object_inv: "gi_inv one_object"
  by (simp add: one_object_def gi_inv_def revisions_ok_def)

theorem session_undo_restores_witness:
  "\<exists>t g'. gi_modify no_conf 0 Suc (gi_start_undo_session one_object) = Inr t \<and> gi_undo no_conf t = Inr g' \<and>
    map_of (gi_indices g') = map_of (gi_indices one_object)"
proof -
  obtain t where t: "gi_modify no_conf 0 Suc (gi_start_undo_session one_object) = Inr t"
    by (simp add: gi_modify_def gi_start_undo_session_def one_object_def on_modify_def idx_modify_def)
  then have "gi_change no_conf (gi_start_undo_session one_object) t" unfolding gi_change_def by blast
  with session_undo_restores [OF one_object_inv] session_run.intros t show ?thesis by metis
qed

text \<open>
  Whatever the unique indices, an \<^verbatim>\<open>undo\<close> that returns has restored the snapshot
  taken when the session started.
\<close>

theorem undo_restores_snapshot:
  assumes "gi_inv g" and "gi_stack g \<noteq> []" and "gi_undo conf g = Inr g'"
  shows "gi_inv g' \<and> gi_history g' = tl (gi_history g)"
  by (rule undo_refines [OF assms])

theorem undo_restores_snapshot_witness:
  "\<exists>g'. gi_undo (=) (gi_start_undo_session one_object) = Inr g' \<and> gi_history g' = gi_history one_object"
proof -
  obtain g' where g': "gi_undo (=) (gi_start_undo_session one_object) = Inr g'"
    by (simp add: gi_undo_def gi_start_undo_session_def one_object_def)
  have "gi_stack (gi_start_undo_session one_object) \<noteq> []" by (simp add: gi_start_undo_session_def)
  from undo_restores_snapshot [OF _ this g'] start_refines [OF one_object_inv] g' show ?thesis by auto
qed

text \<open>
  \<^verbatim>\<open>squash\<close> merges the last two sessions: the present objects are unchanged, the
  snapshot between the two sessions is gone, and every older one is kept.
\<close>

theorem squash_merges:
  assumes "gi_inv g" and "gi_stack g \<noteq> []"
  shows "gi_inv (gi_squash g) \<and> gi_indices (gi_squash g) = gi_indices g \<and>
    gi_history (gi_squash g) = hd (gi_history g) # tl (tl (gi_history g))"
  using squash_refines [OF assms] by (simp add: gi_squash_def split: list.splits)

theorem squash_merges_witness:
  "gi_history (gi_squash (gi_start_undo_session (gi_start_undo_session one_object))) =
    gi_history (gi_start_undo_session one_object)"
proof -
  have "gi_stack (gi_start_undo_session (gi_start_undo_session one_object)) \<noteq> []"
    by (simp add: gi_start_undo_session_def)
  from squash_merges [OF _ this] start_refines [OF one_object_inv] start_refines show ?thesis by fastforce
qed

text \<open>
  \<^verbatim>\<open>commit\<close> discards the sessions up to a revision: the present objects and the
  snapshots of the later sessions are kept.
\<close>

theorem commit_keeps_recent:
  assumes "gi_inv g"
  shows "gi_inv (gi_commit r g) \<and>
    gi_history (gi_commit r g) = take (Suc (nat (gi_revision g - r))) (gi_history g)"
  by (rule commit_refines [OF assms])

theorem commit_keeps_recent_witness:
  "length (gi_history (gi_commit 1 (gi_start_undo_session (gi_start_undo_session one_object)))) = 2"
proof -
  let ?g = "gi_start_undo_session (gi_start_undo_session one_object)"
  have "gi_inv ?g" using start_refines [OF one_object_inv] start_refines by blast
  from commit_keeps_recent [OF this, of 1] show ?thesis
    by (simp add: length_gi_history gi_start_undo_session_def one_object_def)
qed

text \<open>
  C2. A session that gives an object a new key and creates an object with the old
  key cannot be undone: \<^verbatim>\<open>undo\<close> restores the modified object before it erases the new one,
  violates the unique index and throws.
\<close>

theorem undo_reused_key_throws:
  assumes "gi_modify conf k f (gi_start_undo_session g) = Inr g1" and "gi_emplace conf c g1 = Inr g2"
    and "map_of (gi_indices g) k = Some v" and "conf v (c (gi_next_id g))"
  shows "\<exists>g3. gi_undo conf g2 = Inl (NotUnique, g3)"
proof -
  let ?n = "gi_next_id g"
  have g1: "gi_next_id g1 = ?n" "gi_indices g1 = AList.update k (f v) (gi_indices g)"
    "\<exists>us. gi_stack g1 = \<lparr>old_values = [(k, v)], removed_values = [], new_ids = [],
       old_next_id = ?n, undo_revision = gi_revision g + 1\<rparr> # us"
    using assms(1,3) by (auto simp: gi_modify_def gi_start_undo_session_def on_modify_def map_emplace_def
        idx_modify_def Let_def split: if_splits)
  have n: "map_of (gi_indices g1) ?n = None" and g2: "gi_indices g2 = insort_key fst (?n, c ?n) (gi_indices g1)"
    "\<exists>u us. gi_stack g2 = u # us \<and> old_values u = [(k, v)]"
    using assms(2) g1 by (auto simp: gi_emplace_def idx_emplace_def on_create_def Let_def split: if_splits)
  have "k \<noteq> ?n" using n by (auto simp: g1 update_conv')
  moreover have "map_of (gi_indices g2) k \<noteq> None" using n by (simp add: g2 g1 update_conv')
  moreover have "(?n, c ?n) \<in> set (gi_indices g2)" by (simp add: g2 set_insort_key)
  ultimately have "\<exists>m. undo_old conf [(k, v)] (gi_indices g2) = Inl (NotUnique, m)"
    using assms(4) by (auto simp: idx_modify_def list_ex_iff split: if_splits)
  then show ?thesis using g2(2) by (auto simp: gi_undo_def)
qed

theorem undo_reused_key_throws_witness:
  "\<exists>g1 g2 g3. gi_modify (=) 0 (\<lambda>_. 6) (gi_start_undo_session one_object) = Inr g1 \<and>
    gi_emplace (=) (\<lambda>_. 5) g1 = Inr g2 \<and> gi_undo (=) g2 = Inl (NotUnique, g3)"
proof -
  obtain g1 where g1: "gi_modify (=) 0 (\<lambda>_. 6) (gi_start_undo_session one_object) = Inr g1"
    by (simp add: gi_modify_def gi_start_undo_session_def one_object_def on_modify_def idx_modify_def)
  then obtain g2 where g2: "gi_emplace (=) (\<lambda>_. 5) g1 = Inr g2"
    by (auto simp: gi_modify_def gi_start_undo_session_def one_object_def on_modify_def idx_modify_def
        map_emplace_def gi_emplace_def idx_emplace_def)
  show ?thesis using undo_reused_key_throws [OF g1 g2, of 5] g1 g2 by (auto simp: one_object_def)
qed


end
