(* ===== verification/Basechain_Database.thy ===== *)
theory Basechain_Database
  imports Basechain_Undo
begin

text \<open>
  \<^verbatim>\<open>database\<close> of \<^verbatim>\<open>foundation/basechain\<close>: the list of all tables and the operations that
  run on each of them. The tables of a database hold objects of different types;
  \<open>'v\<close> is their sum. A table comes with its own unique indices.
\<close>

record 'v db_table =
  tbl_conf :: "'v \<Rightarrow> 'v \<Rightarrow> bool"
  tbl_index :: "'v generic_index"

type_synonym 'v database = "'v db_table list"

text \<open>The loop over the tables of an operation that may throw at one of them.\<close>

fun each_table :: "('v db_table \<Rightarrow> ('v, 'v generic_index) db) \<Rightarrow> 'v database
    \<Rightarrow> (db_error \<times> 'v database) + 'v database" where
  "each_table f [] = Inr []"
| "each_table f (t # ts) =
     (case f t of
        Inl (e, g) \<Rightarrow> Inl (e, t\<lparr>tbl_index := g\<rparr> # ts)
      | Inr g \<Rightarrow> (case each_table f ts of
          Inl (e, ts') \<Rightarrow> Inl (e, t\<lparr>tbl_index := g\<rparr> # ts')
        | Inr ts' \<Rightarrow> Inr (t\<lparr>tbl_index := g\<rparr> # ts')))"

definition on_tables :: "('v generic_index \<Rightarrow> 'v generic_index) \<Rightarrow> 'v database \<Rightarrow> 'v database" where
  "on_tables f d = map (\<lambda>t. t\<lparr>tbl_index := f (tbl_index t)\<rparr>) d"

definition db_undo :: "'v database \<Rightarrow> (db_error \<times> 'v database) + 'v database" where
  "db_undo = each_table (\<lambda>t. gi_undo (tbl_conf t) (tbl_index t))"

definition db_undo_all :: "'v database \<Rightarrow> (db_error \<times> 'v database) + 'v database" where
  "db_undo_all = each_table (\<lambda>t. gi_undo_all (tbl_conf t) (tbl_index t))"

definition db_squash :: "'v database \<Rightarrow> 'v database" where
  "db_squash = on_tables gi_squash"

definition db_commit :: "int \<Rightarrow> 'v database \<Rightarrow> 'v database" where
  "db_commit r = on_tables (gi_commit r)"

definition db_set_revision :: "int \<Rightarrow> 'v database \<Rightarrow> (db_error \<times> 'v database) + 'v database" where
  "db_set_revision r = each_table (\<lambda>t. gi_set_revision r (tbl_index t))"

definition db_revision :: "'v database \<Rightarrow> int" where
  "db_revision d = (case d of [] \<Rightarrow> - 1 | t # _ \<Rightarrow> gi_revision (tbl_index t))"

text \<open>Creating, modifying and removing an object of the table number \<open>i\<close>.\<close>

definition at_table :: "nat \<Rightarrow> ('v db_table \<Rightarrow> ('v, 'v generic_index) db) \<Rightarrow> 'v database
    \<Rightarrow> (db_error \<times> 'v database) + 'v database" where
  "at_table i f d =
     (if i < length d
      then case f (d ! i) of Inl (e, g) \<Rightarrow> Inl (e, d[i := (d ! i)\<lparr>tbl_index := g\<rparr>])
           | Inr g \<Rightarrow> Inr (d[i := (d ! i)\<lparr>tbl_index := g\<rparr>])
      else Inl (KeyNotFound, d))"

definition db_create :: "nat \<Rightarrow> (int \<Rightarrow> 'v) \<Rightarrow> 'v database \<Rightarrow> (db_error \<times> 'v database) + 'v database" where
  "db_create i c = at_table i (\<lambda>t. gi_emplace (tbl_conf t) c (tbl_index t))"

definition db_modify :: "nat \<Rightarrow> int \<Rightarrow> ('v \<Rightarrow> 'v) \<Rightarrow> 'v database \<Rightarrow> (db_error \<times> 'v database) + 'v database" where
  "db_modify i k f = at_table i (\<lambda>t. gi_modify (tbl_conf t) k f (tbl_index t))"

definition db_remove :: "nat \<Rightarrow> int \<Rightarrow> 'v database \<Rightarrow> (db_error \<times> 'v database) + 'v database" where
  "db_remove i k = at_table i (\<lambda>t. gi_remove k (tbl_index t))"

text \<open>
  A session of the database holds one session of every table, in their order. \<^verbatim>\<open>push\<close>,
  \<^verbatim>\<open>squash\<close> and \<^verbatim>\<open>undo\<close> end each of them and clear the list; the destructor runs \<^verbatim>\<open>undo\<close>.
\<close>

record db_session =
  dbs_sessions :: "undo_session list"
  dbs_revision :: int

definition db_start_undo_session :: "bool \<Rightarrow> 'v database \<Rightarrow> db_session \<times> 'v database" where
  "db_start_undo_session enabled d =
     (if enabled
      then let ss = map (\<lambda>t. fst (gi_session True (tbl_index t))) d
        in (\<lparr>dbs_sessions = ss, dbs_revision = (case ss of [] \<Rightarrow> - 1 | s # _ \<Rightarrow> ses_revision s)\<rparr>,
            on_tables (\<lambda>g. snd (gi_session True g)) d)
      else (\<lparr>dbs_sessions = [], dbs_revision = - 1\<rparr>, d))"

definition dbs_push :: "db_session \<Rightarrow> db_session" where
  "dbs_push s = s\<lparr>dbs_sessions := []\<rparr>"

definition dbs_squash :: "db_session \<times> 'v database \<Rightarrow> db_session \<times> 'v database" where
  "dbs_squash = (\<lambda>(s, d). (s\<lparr>dbs_sessions := []\<rparr>,
     map (\<lambda>(ses, t). t\<lparr>tbl_index := snd (session_squash (ses, tbl_index t))\<rparr>) (zip (dbs_sessions s) d)
       @ drop (length (dbs_sessions s)) d))"

fun each_session :: "undo_session list \<Rightarrow> 'v database \<Rightarrow> (db_error \<times> 'v database) + 'v database" where
  "each_session (ses # ss) (t # ts) =
     (case session_undo (tbl_conf t) (ses, tbl_index t) of
        Inl (e, g) \<Rightarrow> Inl (e, t\<lparr>tbl_index := g\<rparr> # ts)
      | Inr (_, g) \<Rightarrow> (case each_session ss ts of
          Inl (e, ts') \<Rightarrow> Inl (e, t\<lparr>tbl_index := g\<rparr> # ts')
        | Inr ts' \<Rightarrow> Inr (t\<lparr>tbl_index := g\<rparr> # ts')))"
| "each_session _ ts = Inr ts"

definition dbs_undo :: "db_session \<times> 'v database \<Rightarrow> (db_error \<times> 'v database) + (db_session \<times> 'v database)" where
  "dbs_undo = (\<lambda>(s, d).
     case each_session (dbs_sessions s) d of Inl e \<Rightarrow> Inl e | Inr d' \<Rightarrow> Inr (s\<lparr>dbs_sessions := []\<rparr>, d'))"

section \<open>Snapshots of the database\<close>

text \<open>
  All tables take part in every session. \<open>plain d\<close>: no table has a unique index but the
  identifier.
\<close>

definition db_depth :: "'v database \<Rightarrow> nat" where
  "db_depth d = (case d of [] \<Rightarrow> 0 | t # _ \<Rightarrow> length (gi_stack (tbl_index t)))"

definition db_inv :: "'v database \<Rightarrow> bool" where
  "db_inv d \<longleftrightarrow> d \<noteq> [] \<and> (\<forall>t \<in> set d. gi_inv (tbl_index t) \<and> length (gi_stack (tbl_index t)) = db_depth d \<and>
     gi_revision (tbl_index t) = db_revision d)"

definition plain :: "'v database \<Rightarrow> bool" where
  "plain d \<longleftrightarrow> (\<forall>t \<in> set d. tbl_conf t = no_conf)"

definition db_history :: "'v database \<Rightarrow> ((int \<rightharpoonup> 'v) \<times> int) list list" where
  "db_history d = map (\<lambda>i. map (\<lambda>t. gi_history (tbl_index t) ! i) d) [0..<Suc (db_depth d)]"

definition db_change :: "'v database \<Rightarrow> 'v database \<Rightarrow> bool" where
  "db_change d d' \<longleftrightarrow> (\<exists>i c. db_create i c d = Inr d') \<or> (\<exists>i k f. db_modify i k f d = Inr d') \<or>
     (\<exists>i k. db_remove i k d = Inr d')"

lemma on_tables_id: "(\<And>t. t \<in> set d \<Longrightarrow> f (tbl_index t) = tbl_index t) \<Longrightarrow> on_tables f d = d"
  by (simp add: on_tables_def map_idI)

lemma upt_Suc_map: "map f [0..<Suc n] = f 0 # map (\<lambda>i. f (Suc i)) [0..<n]"
  by (simp add: upt_conv_Cons map_Suc_upt [symmetric] comp_def del: upt_Suc)

lemma db_history_ne [simp]: "db_history d \<noteq> []"
  by (simp add: db_history_def)

lemma tl_db_history: "tl (db_history d) = map (\<lambda>i. map (\<lambda>t. gi_history (tbl_index t) ! Suc i) d) [0..<db_depth d]"
  unfolding db_history_def upt_Suc_map by simp

lemma hd_db_history: "hd (db_history d) = map (\<lambda>t. hd (gi_history (tbl_index t))) d"
  unfolding db_history_def upt_Suc_map by (simp add: hd_conv_nth del: hd_gi_history)

lemma db_depth_map: "db_depth (on_tables f d) = (case d of [] \<Rightarrow> 0 | t # _ \<Rightarrow> length (gi_stack (f (tbl_index t))))"
  by (simp add: db_depth_def on_tables_def split: list.splits)

lemma depth_history: "t \<in> set d \<Longrightarrow> db_inv d \<Longrightarrow> length (gi_history (tbl_index t)) = Suc (db_depth d)"
  by (simp add: db_inv_def length_gi_history)

lemma at_table_result: "at_table i f d = Inr d' \<Longrightarrow>
    i < length d \<and> (\<exists>g. f (d ! i) = Inr g \<and> d' = d[i := (d ! i)\<lparr>tbl_index := g\<rparr>])"
  by (auto simp: at_table_def split: if_splits sum.splits)

lemma change_table:
  "db_change d d' \<Longrightarrow> \<exists>i < length d. \<exists>g. gi_change (tbl_conf (d ! i)) (tbl_index (d ! i)) g \<and> d' = d[i := (d ! i)\<lparr>tbl_index := g\<rparr>]"
  unfolding db_change_def db_create_def db_modify_def db_remove_def gi_change_def
  by (blast dest: at_table_result)

lemma each_table_eq:
  "(\<And>t. t \<in> set d \<Longrightarrow> F t = Inr (f (tbl_index t))) \<Longrightarrow> each_table F d = Inr (on_tables f d)"
  by (induction d) (auto simp: on_tables_def)

lemma gi_change_shape:
  assumes "gi_change conf g g'"
  shows "gi_revision g' = gi_revision g \<and> length (gi_stack g') = length (gi_stack g)"
proof -
  have c: "length (gi_stack (on_create k h)) = length (gi_stack h)" "gi_revision (on_create k h) = gi_revision h"
    "length (gi_stack (on_modify k v h)) = length (gi_stack h)" "length (gi_stack (on_remove k v h)) = length (gi_stack h)"
    for k v and h :: "'a generic_index"
    by (auto simp: on_create_def on_modify_def on_remove_def split: list.splits option.splits)
  from assms consider (create) cs where "gi_emplace conf cs g = Inr g'" | (modify) k f where "gi_modify conf k f g = Inr g'"
    | (remove) k where "gi_remove k g = Inr g'" unfolding gi_change_def by blast
  then show ?thesis
  proof cases
    case create
    then show ?thesis by (auto simp: gi_emplace_def idx_emplace_def Let_def c split: if_splits)
  qed (auto simp: gi_modify_def gi_remove_def Let_def c split: option.splits prod.splits if_splits)
qed

text \<open>
  A new list of tables whose histories are the given functions of the old ones, all of the
  same depth and revision.
\<close>

lemma db_invI:
  assumes "d \<noteq> []" and "\<And>t. t \<in> set d \<Longrightarrow> gi_inv (tbl_index t) \<and> length (gi_stack (tbl_index t)) = n \<and> gi_revision (tbl_index t) = r"
  shows "db_inv d \<and> db_depth d = n \<and> db_revision d = r"
  using assms by (cases d) (auto simp: db_inv_def db_depth_def db_revision_def)

lemma db_change_refines:
  assumes inv: "db_inv d" and ch: "db_change d d'"
  shows "db_inv d' \<and> tl (db_history d') = tl (db_history d) \<and> map tbl_conf d' = map tbl_conf d"
proof -
  obtain i g where i: "i < length d" and g: "gi_change (tbl_conf (d ! i)) (tbl_index (d ! i)) g"
    and d': "d' = d[i := (d ! i)\<lparr>tbl_index := g\<rparr>]"
    using change_table [OF ch] by blast
  have di: "d ! i \<in> set d" using i by simp
  note r = change_refines [OF _ g] gi_change_shape [OF g]
  have "gi_inv (tbl_index t) \<and> length (gi_stack (tbl_index t)) = db_depth d \<and> gi_revision (tbl_index t) = db_revision d"
    if "t \<in> set d'" for t
    using that inv r di i set_update_subset_insert [of d i] by (fastforce simp: d' db_inv_def)
  then have inv': "db_inv d' \<and> db_depth d' = db_depth d"
    using db_invI [of d'] inv by (auto simp: d' db_inv_def)
  have h: "gi_history g ! Suc j = gi_history (tbl_index (d ! i)) ! Suc j" if "j < db_depth d" for j
    using r inv di that by (metis db_inv_def gi_history_ne length_gi_history list.collapse nth_Cons_Suc)
  have "tl (db_history d') = tl (db_history d)"
    unfolding tl_db_history using inv' h i by (auto simp: d' map_update list_update_same_conv)
  then show ?thesis using inv' i by (simp add: d' map_update list_update_same_conv)
qed

lemma db_start_eq: "snd (db_start_undo_session True d) = on_tables gi_start_undo_session d"
  by (simp add: db_start_undo_session_def gi_session_def Let_def on_tables_def)

lemma on_tables_refines:
  assumes inv: "db_inv d"
    and f: "\<And>g. gi_inv g \<Longrightarrow> length (gi_stack g) = db_depth d \<Longrightarrow> gi_revision g = db_revision d \<Longrightarrow>
      gi_inv (f g) \<and> gi_history (f g) = h (gi_history g) \<and> gi_revision (f g) = r"
    and h: "\<And>xs :: ((int \<rightharpoonup> 'v) \<times> int) list. length xs = Suc (db_depth d) \<Longrightarrow> length (h xs) = Suc n \<and> (\<forall>i \<le> n. h xs ! i = xs ! j i)"
  shows "db_inv (on_tables f d) \<and> db_history (on_tables f d) = map (\<lambda>i. map (\<lambda>t. gi_history (tbl_index t) ! j i) d) [0..<Suc n]"
proof -
  have t: "gi_inv (f (tbl_index t)) \<and> gi_history (f (tbl_index t)) = h (gi_history (tbl_index t)) \<and>
      gi_revision (f (tbl_index t)) = r \<and> length (gi_stack (f (tbl_index t))) = n" if "t \<in> set d" for t
  proof -
    have "gi_inv (f (tbl_index t)) \<and> gi_history (f (tbl_index t)) = h (gi_history (tbl_index t)) \<and> gi_revision (f (tbl_index t)) = r"
      using inv that by (intro f) (auto simp: db_inv_def)
    moreover have "length (h (gi_history (tbl_index t))) = Suc n"
      using h [of "gi_history (tbl_index t)"] depth_history [OF that inv] by simp
    ultimately show ?thesis by (metis length_gi_history nat.inject)
  qed
  have "db_inv (on_tables f d) \<and> db_depth (on_tables f d) = n \<and> db_revision (on_tables f d) = r"
    using t inv by (intro db_invI) (auto simp: on_tables_def db_inv_def)
  moreover have "gi_history (f (tbl_index t)) ! i = gi_history (tbl_index t) ! j i" if "t \<in> set d" "i < Suc n" for t i
    using t [OF that(1)] h [of "gi_history (tbl_index t)"] depth_history [OF that(1) inv] that(2) by simp
  ultimately show ?thesis by (auto simp: db_history_def on_tables_def)
qed

lemma db_start_refines:
  assumes inv: "db_inv d"
  shows "db_inv (on_tables gi_start_undo_session d) \<and>
    db_history (on_tables gi_start_undo_session d) = hd (db_history d) # db_history d"
proof -
  have "db_inv (on_tables gi_start_undo_session d) \<and> db_history (on_tables gi_start_undo_session d) =
      map (\<lambda>i. map (\<lambda>t. gi_history (tbl_index t) ! (i - 1)) d) [0..<Suc (Suc (db_depth d))]"
  proof (rule on_tables_refines [OF inv, where r = "db_revision d + 1" and h = "\<lambda>xs. hd xs # xs"])
    fix xs :: "((int \<rightharpoonup> 'a) \<times> int) list"
    assume "length xs = Suc (db_depth d)"
    then show "length (hd xs # xs) = Suc (Suc (db_depth d)) \<and> (\<forall>i \<le> Suc (db_depth d). (hd xs # xs) ! i = xs ! (i - 1))"
      by (cases xs) (auto simp: nth_Cons split: nat.splits)
  next
    fix g :: "'a generic_index"
    assume "gi_inv g" and "gi_revision g = db_revision d"
    then show "gi_inv (gi_start_undo_session g) \<and> gi_history (gi_start_undo_session g) = hd (gi_history g) # gi_history g \<and>
        gi_revision (gi_start_undo_session g) = db_revision d + 1"
      using start_refines [of g] by (simp add: gi_start_undo_session_def)
  qed
  then show ?thesis by (simp add: upt_Suc_map db_history_def del: upt_Suc)
qed

lemma db_squash_refines:
  assumes inv: "db_inv d" and dep: "db_depth d = Suc n"
  shows "db_inv (db_squash d) \<and> db_history (db_squash d) = hd (db_history d) # tl (tl (db_history d))"
proof -
  let ?r = "if n = 0 then db_revision d else db_revision d - 1"
  have "db_inv (on_tables gi_squash d) \<and> db_history (on_tables gi_squash d) =
      map (\<lambda>i. map (\<lambda>t. gi_history (tbl_index t) ! (if i = 0 then 0 else Suc i)) d) [0..<Suc n]"
  proof (rule on_tables_refines [OF inv, where r = ?r and h = "\<lambda>xs. hd xs # tl (tl xs)"])
    fix xs :: "((int \<rightharpoonup> 'a) \<times> int) list"
    assume "length xs = Suc (db_depth d)"
    then obtain x y ys where "xs = x # y # ys" "length ys = n" by (auto simp: dep length_Suc_conv)
    then show "length (hd xs # tl (tl xs)) = Suc n \<and>
        (\<forall>i \<le> n. (hd xs # tl (tl xs)) ! i = xs ! (if i = 0 then 0 else Suc i))"
      by (auto simp: nth_Cons split: nat.splits)
  next
    fix g :: "'a generic_index"
    assume g: "gi_inv g" "length (gi_stack g) = db_depth d" "gi_revision g = db_revision d"
    then have "gi_stack g \<noteq> []" by (auto simp: dep)
    with squash_refines [OF g(1) this] g(2,3)
    show "gi_inv (gi_squash g) \<and> gi_history (gi_squash g) = hd (gi_history g) # tl (tl (gi_history g)) \<and>
        gi_revision (gi_squash g) = ?r"
      by (auto simp: gi_squash_def dep split: list.splits)
  qed
  moreover have "tl (tl (db_history d)) = map (\<lambda>i. map (\<lambda>t. gi_history (tbl_index t) ! Suc (Suc i)) d) [0..<n]"
    unfolding tl_db_history dep upt_Suc_map by simp
  ultimately show ?thesis
    by (simp add: upt_Suc_map db_squash_def db_history_def del: upt_Suc)
qed

lemma gi_undo_revision: "gi_undo conf g = Inr g' \<Longrightarrow> gi_stack g \<noteq> [] \<Longrightarrow> gi_revision g' = gi_revision g - 1"
  by (auto simp: gi_undo_def split: list.splits sum.splits)

lemma db_undo_refines:
  assumes inv: "db_inv d" and pl: "plain d" and dep: "db_depth d = Suc n"
  shows "\<exists>d'. db_undo d = Inr d' \<and> db_inv d' \<and> plain d' \<and> db_history d' = tl (db_history d)"
proof -
  define f :: "'a generic_index \<Rightarrow> 'a generic_index" where "f = (\<lambda>g. projr (gi_undo no_conf g))"
  have f: "gi_undo no_conf g = Inr (f g)" if "gi_inv g" for g
    using undo_returns [OF that refl] by (auto simp: f_def)
  have eq: "db_undo d = Inr (on_tables f d)"
    unfolding db_undo_def using inv pl f by (intro each_table_eq) (auto simp: db_inv_def plain_def)
  have "db_inv (on_tables f d) \<and> db_history (on_tables f d) =
      map (\<lambda>i. map (\<lambda>t. gi_history (tbl_index t) ! Suc i) d) [0..<Suc n]"
  proof (rule on_tables_refines [OF inv, where r = "db_revision d - 1" and h = tl])
    fix xs :: "((int \<rightharpoonup> 'a) \<times> int) list"
    assume "length xs = Suc (db_depth d)"
    then show "length (tl xs) = Suc n \<and> (\<forall>i \<le> n. tl xs ! i = xs ! Suc i)" by (simp add: dep nth_tl)
  next
    fix g :: "'a generic_index"
    assume g: "gi_inv g" "length (gi_stack g) = db_depth d" "gi_revision g = db_revision d"
    then have "gi_stack g \<noteq> []" by (auto simp: dep)
    moreover have "gi_revision (f g) = db_revision d - 1"
      using gi_undo_revision [OF f [OF g(1)] calculation] g(3) by simp
    ultimately show "gi_inv (f g) \<and> gi_history (f g) = tl (gi_history g) \<and> gi_revision (f g) = db_revision d - 1"
      using undo_refines [OF g(1) _ f [OF g(1)]] by simp
  qed
  moreover have "plain (on_tables f d)" using pl by (auto simp: plain_def on_tables_def)
  ultimately show ?thesis using eq by (auto simp: tl_db_history dep)
qed

lemma plain_conf: "map tbl_conf d' = map tbl_conf d \<Longrightarrow> plain d' = plain d"
  by (metis (no_types) list.set_map image_iff plain_def)

lemma db_history_depth: "tl (db_history d) \<noteq> [] \<longleftrightarrow> (\<exists>n. db_depth d = Suc n)"
  by (cases "db_depth d") (simp_all add: tl_db_history)

interpretation chain_db: snapshot_store "\<lambda>d. db_inv d \<and> plain d" db_history db_change
  "\<lambda>d. snd (db_start_undo_session True d)" db_undo db_squash
proof
  fix d d' :: "'v database"
  assume "db_inv d \<and> plain d" and "db_change d d'"
  then show "(db_inv d' \<and> plain d') \<and> tl (db_history d') = tl (db_history d)"
    using db_change_refines [of d d'] plain_conf by blast
next
  fix d :: "'v database"
  assume "db_inv d \<and> plain d"
  then show "(db_inv (snd (db_start_undo_session True d)) \<and> plain (snd (db_start_undo_session True d))) \<and>
      db_history (snd (db_start_undo_session True d)) = hd (db_history d) # db_history d"
    using db_start_refines [of d] by (auto simp: db_start_eq plain_def on_tables_def)
next
  fix d :: "'v database"
  assume "db_inv d \<and> plain d" and "tl (db_history d) \<noteq> []"
  then show "(db_inv (db_squash d) \<and> plain (db_squash d)) \<and>
      db_history (db_squash d) = hd (db_history d) # tl (tl (db_history d))"
    using db_squash_refines [of d] by (auto simp: db_history_depth plain_def db_squash_def on_tables_def)
qed (use db_undo_refines in \<open>auto simp: db_history_depth\<close>)

section \<open>Properties\<close>

text \<open>
  C1. The state database of the chain: starting a session on every table, running
  any changes and nested sessions, and undoing it returns and gives back every
  table's objects and identifiers (when the identifier is the only unique index).
\<close>

theorem db_session_restores:
  assumes "db_inv d" and "plain d" and "snd (db_start_undo_session True d) = d1"
    and "session_run db_change (\<lambda>d. snd (db_start_undo_session True d)) db_undo db_squash d1 d2"
  shows "\<exists>d'. db_undo d2 = Inr d' \<and> db_inv d' \<and> db_history d' = db_history d"
  using chain_db.session_undone [of d d2] assms by blast

definition sample_db :: "nat database" where
  "sample_db = [\<lparr>tbl_conf = no_conf, tbl_index = one_object\<rparr>, \<lparr>tbl_conf = no_conf, tbl_index = empty_table\<rparr>]"

lemma sample_db_inv: "db_inv sample_db" "plain sample_db"
  using one_object_inv
  by (auto simp: sample_db_def db_inv_def plain_def db_depth_def db_revision_def gi_inv_def revisions_ok_def
      empty_table_def one_object_def)

theorem db_session_restores_witness:
  "\<exists>d1 d'. db_create 1 (\<lambda>_. 7) (snd (db_start_undo_session True sample_db)) = Inr d1 \<and>
     db_undo d1 = Inr d' \<and> db_history d' = db_history sample_db"
proof -
  obtain d1 where d1: "db_create 1 (\<lambda>_. 7) (snd (db_start_undo_session True sample_db)) = Inr d1"
    by (simp add: db_create_def at_table_def db_start_eq sample_db_def on_tables_def gi_emplace_def idx_emplace_def
        empty_table_def gi_start_undo_session_def)
  then have "db_change (snd (db_start_undo_session True sample_db)) d1" unfolding db_change_def by blast
  with db_session_restores [OF sample_db_inv refl] session_run.intros d1 show ?thesis by metis
qed

end
