(* ===== verification/Chain_Control.thy ===== *)
theory Chain_Control
  imports Chain_Fork_Branch Chain_Log Basechain_Database
begin

text \<open>
  The controller (\<^verbatim>\<open>chain_xmax.cpp\<close>), as far as it moves blocks between its parts: the state database, the fork
  database, the log of irreversible blocks and the block under construction.

  What happens inside a block is a parameter, \<open>exec\<close>: applying a transaction (messages, contracts and the
  virtual machine), the bookkeeping at the end of a block, the election of the next builders and the lookup of a
  builder's key. All of them read and change the state database only; the objects in it have an arbitrary type.
\<close>

section \<open>State\<close>

record 'v exec =
  ex_apply :: "transaction_package \<Rightarrow> 'v database \<Rightarrow> (chain_exc \<times> 'v database) + (transaction_receipt option \<times> 'v database)"
  ex_final :: "block_pack \<Rightarrow> 'v database \<Rightarrow> (chain_exc \<times> 'v database) + 'v database"
  ex_next_round :: "'v database \<Rightarrow> builder_info list"
  ex_builder_key :: "'v database \<Rightarrow> account_name \<Rightarrow> public_key option"

text \<open>\<open>cx_building\<close>: the pack of the block under construction and the session of the state database it holds.\<close>

record 'v chain_ctx =
  cx_building :: "(nat \<times> db_session) option"
  cx_head :: "nat option"
  cx_log :: chain_stream
  cx_db :: "'v database"
  cx_fork :: fork_context
  cx_last_irreversible :: u32

abbreviation cx_pack :: "'v chain_ctx \<Rightarrow> nat \<Rightarrow> block_pack" where
  "cx_pack x p \<equiv> fc_heap (cx_fork x) p"

definition set_pack :: "nat \<Rightarrow> block_pack \<Rightarrow> 'v chain_ctx \<Rightarrow> 'v chain_ctx" where
  "set_pack p q x = x\<lparr>cx_fork := (cx_fork x)\<lparr>fc_heap := (fc_heap (cx_fork x))(p := q)\<rparr>\<rparr>"

definition bind_thrown :: "'st thrown \<Rightarrow> ('st \<Rightarrow> 'st thrown) \<Rightarrow> 'st thrown" where
  "bind_thrown r f = (case r of Inl e \<Rightarrow> Inl e | Inr st \<Rightarrow> f st)"

section \<open>Irreversible blocks\<close>

definition irreversible_block ::
  "crypto \<Rightarrow> bytes \<times> bytes \<Rightarrow> block_pack \<Rightarrow> chain_stream \<times> 'v database \<times> u32 \<Rightarrow> (chain_stream \<times> 'v database \<times> u32) thrown" where
  "irreversible_block cr pad pack = (\<lambda>(l, d, n).
     let num = block_num (pk_block pack)
     in case append_block cr pad (pk_block pack) l of
       Inl e \<Rightarrow> Inl (e, l, d, num)
     | Inr (_, l) \<Rightarrow> Inr (l, db_commit (int (unat num)) d, num))"

definition on_irreversible :: "crypto \<Rightarrow> bytes \<times> bytes \<Rightarrow> (chain_stream \<times> 'v database \<times> u32) irr_handle" where
  "on_irreversible cr pad pack st =
     (case head_block (fst st) of
        None \<Rightarrow> Inl (Undefined, st)
      | Some pre \<Rightarrow>
        if pk_num pack - 1 \<noteq> block_num pre then Inl (FcAssert, st)
        else if previous (pk_block pack) \<noteq> header_id cr pre then Inl (FcAssert, st)
        else irreversible_block cr pad pack st)"

text \<open>An operation of the fork database, with the handler bound to the controller.\<close>

definition with_fork ::
  "(((chain_stream \<times> 'v database \<times> u32) \<times> fork_context) \<Rightarrow> ((chain_stream \<times> 'v database \<times> u32) \<times> fork_context) thrown) \<Rightarrow> 'v chain_ctx \<Rightarrow> 'v chain_ctx thrown" where
  "with_fork op x =
     (let put = (\<lambda>((l, d, n), c). x\<lparr>cx_log := l, cx_db := d, cx_last_irreversible := n, cx_fork := c\<rparr>)
      in case op ((cx_log x, cx_db x, cx_last_irreversible x), cx_fork x) of
        Inl (e, st) \<Rightarrow> Inl (e, put st) | Inr st \<Rightarrow> Inr (put st))"

section \<open>The block under construction\<close>

text \<open>The destructor of the session undoes the changes; an exception there ends the program.\<close>

definition abort_build :: "'v chain_ctx \<Rightarrow> 'v chain_ctx thrown" where
  "abort_build x =
     (case cx_building x of None \<Rightarrow> Inr x
      | Some (_, s) \<Rightarrow> (case dbs_undo (s, cx_db x) of
          Inl (_, d) \<Rightarrow> Inl (Undefined, x\<lparr>cx_db := d\<rparr>)
        | Inr (_, d) \<Rightarrow> Inr (x\<lparr>cx_building := None, cx_db := d\<rparr>)))"

definition rethrow_abort :: "chain_exc \<Rightarrow> 'v chain_ctx \<Rightarrow> 'v chain_ctx thrown" where
  "rethrow_abort e x = (case abort_build x of Inl e' \<Rightarrow> Inl e' | Inr x \<Rightarrow> Inl (e, x))"

definition generate_next_builders :: "'v exec \<Rightarrow> nat \<Rightarrow> 'v chain_ctx \<Rightarrow> chain_exc + 'v chain_ctx" where
  "generate_next_builders ex p x =
     (if new_round (cx_pack x p)
      then (case set_next_builders (set_builders (ex_next_round ex (cx_db x)) (rule_version (current_builders (cx_pack x p)) + 1) empty_rule)
              (cx_pack x p) of
          Inl e \<Rightarrow> Inl e | Inr q \<Rightarrow> Inr (set_pack p q x))
      else Inr x)"

definition start_build :: "'v exec \<Rightarrow> u32 \<Rightarrow> 'v chain_ctx \<Rightarrow> 'v chain_ctx thrown" where
  "start_build ex when x =
     (if cx_building x \<noteq> None then Inl (FcAssert, x)
      else case cx_head x of None \<Rightarrow> Inl (Undefined, x)
      | Some h \<Rightarrow>
        if \<not> to_time_point (timestamp (new_header (cx_pack x h))) < to_time_point when then Inl (FcAssert, x)
        else let (s, d) = db_start_undo_session True (cx_db x);
                 p = fc_next (cx_fork x);
                 x = x\<lparr>cx_db := d, cx_building := Some (p, s), cx_fork := (cx_fork x)\<lparr>fc_next := Suc p\<rparr>\<rparr>;
                 x = set_pack p new_pack x
          in case init_by_pre_pack (cx_pack x h) when True new_pack of
            Inl e \<Rightarrow> rethrow_abort e x
          | Inr q \<Rightarrow> let x = set_pack p q x
              in case generate_next_builders ex p x of Inl e \<Rightarrow> rethrow_abort e x | Inr x \<Rightarrow> Inr x)"

definition generate_block :: "crypto \<Rightarrow> nat \<Rightarrow> 'v chain_ctx \<Rightarrow> 'v chain_ctx" where
  "generate_block cr p x =
     (let q = cx_pack x p
      in set_pack p (q\<lparr>new_header := (new_header q)\<lparr>trxs_mroot := cal_merkle (cr_pair cr) (map (cr_receipt cr) (receipts (pk_block q)))\<rparr>\<rparr>) x)"

definition sign_block :: "crypto \<Rightarrow> private_key \<Rightarrow> nat \<Rightarrow> 'v chain_ctx \<Rightarrow> 'v chain_ctx" where
  "sign_block cr key p x =
     (let q = cx_pack x p; h = header_sign cr key (new_header q)
      in set_pack p (q\<lparr>new_header := h, pk_id := header_id cr h, validated := True\<rparr>) x)"

definition validate_block_desc :: "crypto \<Rightarrow> 'v exec \<Rightarrow> signed_block \<Rightarrow> 'v chain_ctx \<Rightarrow> chain_exc option" where
  "validate_block_desc cr ex b x =
     (case cx_head x of None \<Rightarrow> Some Undefined
      | Some h \<Rightarrow>
        if pk_id (cx_pack x h) \<noteq> previous b then Some FcAssert
        else if pk_num (cx_pack x h) + 1 \<noteq> block_num b then Some FcAssert
        else case ex_builder_key ex (cx_db x) (builder b) of None \<Rightarrow> Some Undefined
        | Some key \<Rightarrow> (case is_signer_valid cr key b of Inl e \<Rightarrow> Some e
          | Inr ok \<Rightarrow> if ok then None else Some FcAssert))"

definition validate_block :: "crypto \<Rightarrow> signed_block \<Rightarrow> nat \<Rightarrow> 'v chain_ctx \<Rightarrow> 'v chain_ctx thrown" where
  "validate_block cr b p x =
     (let q = (cx_pack x p)\<lparr>new_header := (new_header (cx_pack x p))\<lparr>builder_signature := builder_signature b\<rparr>\<rparr>
      in if header_id cr (new_header q) \<noteq> header_id cr b then Inl (FcAssert, set_pack p q x)
      else Inr (set_pack p (q\<lparr>pk_id := header_id cr (new_header q), validated := True\<rparr>) x))"

definition make_final_block :: "nat \<Rightarrow> 'v chain_ctx \<Rightarrow> 'v chain_ctx" where
  "make_final_block p x =
     (let q = cx_pack x p
      in set_pack p (q\<lparr>pk_block := signed_block_header.extend (new_header q) (signed_block.fields (receipts (pk_block q)))\<rparr>) x)"

definition final_block :: "'v exec \<Rightarrow> nat \<Rightarrow> 'v chain_ctx \<Rightarrow> 'v chain_ctx thrown" where
  "final_block ex p x =
     (let x = make_final_block p x
      in case ex_final ex (cx_pack x p) (cx_db x) of
        Inl (e, d) \<Rightarrow> Inl (e, x\<lparr>cx_db := d\<rparr>) | Inr d \<Rightarrow> Inr (x\<lparr>cx_db := d\<rparr>))"

definition push_block :: "crypto \<Rightarrow> bytes \<times> bytes \<Rightarrow> bool \<Rightarrow> 'v chain_ctx \<Rightarrow> 'v chain_ctx thrown" where
  "push_block cr pad updatefork x =
     (case (cx_building x, cx_head x) of
        (None, _) \<Rightarrow> Inl (FcAssert, x)
      | (Some _, None) \<Rightarrow> Inl (Undefined, x)
      | (Some (p, _), Some h) \<Rightarrow>
        if pk_id (cx_pack x h) \<noteq> previous (pk_block (cx_pack x p)) then Inl (FcAssert, x)
        else if updatefork
        then bind_thrown (with_fork (fork_add_pack cr (on_irreversible cr pad) p) x) (\<lambda>x.
          let x = x\<lparr>cx_head := fc_head (cx_fork x)\<rparr>
          in if cx_head x = Some p then Inr x else Inl (FcAssert, x))
        else Inr x)"

definition commit_block :: "'v chain_ctx \<Rightarrow> 'v chain_ctx thrown" where
  "commit_block x =
     (case cx_building x of None \<Rightarrow> Inl (FcAssert, x)
      | Some (p, s) \<Rightarrow> abort_build (x\<lparr>cx_building := Some (p, dbs_push s)\<rparr>))"

section \<open>Applying a block\<close>

fun packages_of :: "transaction_receipt list \<Rightarrow> chain_exc + transaction_package list" where
  "packages_of [] = Inr []"
| "packages_of (r # rs) = (case receipt_trx r of TrxId _ \<Rightarrow> Inl BlockValidate
     | TrxPackage t \<Rightarrow> (case packages_of rs of Inl e \<Rightarrow> Inl e | Inr ts \<Rightarrow> Inr (t # ts)))"

fun apply_all :: "'v exec \<Rightarrow> nat \<Rightarrow> transaction_package list \<Rightarrow> 'v chain_ctx \<Rightarrow> 'v chain_ctx thrown" where
  "apply_all ex p [] x = Inr x"
| "apply_all ex p (t # ts) x =
     (case ex_apply ex t (cx_db x) of
        Inl (e, d) \<Rightarrow> Inl (e, x\<lparr>cx_db := d\<rparr>)
      | Inr (r, d) \<Rightarrow>
        let x = x\<lparr>cx_db := d\<rparr>; q = cx_pack x p
        in apply_all ex p ts (case r of None \<Rightarrow> x
          | Some r \<Rightarrow> set_pack p (q\<lparr>pk_block := (pk_block q)\<lparr>receipts := receipts (pk_block q) @ [r]\<rparr>\<rparr>) x))"

definition apply_block :: "crypto \<Rightarrow> bytes \<times> bytes \<Rightarrow> 'v exec \<Rightarrow> signed_block \<Rightarrow> bool \<Rightarrow> 'v chain_ctx \<Rightarrow> 'v chain_ctx thrown" where
  "apply_block cr pad ex b updatefork x =
     (case validate_block_desc cr ex b x of Some e \<Rightarrow> Inl (e, x)
      | None \<Rightarrow> (case packages_of (receipts b) of Inl e \<Rightarrow> Inl (e, x)
        | Inr ts \<Rightarrow> bind_thrown (abort_build x) (\<lambda>x. bind_thrown (start_build ex (timestamp b) x) (\<lambda>x.
            case cx_building x of None \<Rightarrow> Inl (Undefined, x)
            | Some (p, _) \<Rightarrow> bind_thrown (apply_all ex p ts x) (\<lambda>x.
                bind_thrown (validate_block cr b p (generate_block cr p x)) (\<lambda>x.
                bind_thrown (final_block ex p x) (\<lambda>x.
                bind_thrown (push_block cr pad updatefork x) commit_block)))))))"

section \<open>Forks\<close>

definition pop_block :: "'v chain_ctx \<Rightarrow> 'v chain_ctx thrown" where
  "pop_block x =
     (case cx_head x of None \<Rightarrow> Inl (Undefined, x)
      | Some h \<Rightarrow>
        let prev = get_block (cx_fork x) (prev_id (cx_pack x h))
        in case change_main_chain_flag (pk_id (cx_pack x h)) False (cx_fork x) of
          Inl (e, c) \<Rightarrow> Inl (e, x\<lparr>cx_fork := c\<rparr>)
        | Inr c \<Rightarrow> (case db_undo (cx_db x) of
            Inl (_, d) \<Rightarrow> Inl (DbExc, x\<lparr>cx_fork := c, cx_head := prev, cx_db := d\<rparr>)
          | Inr d \<Rightarrow> Inr (x\<lparr>cx_fork := c, cx_head := prev, cx_db := d\<rparr>)))"

fun pop_blocks :: "nat list \<Rightarrow> 'v chain_ctx \<Rightarrow> 'v chain_ctx thrown" where
  "pop_blocks [] x = Inr x"
| "pop_blocks (_ # ps) x = bind_thrown (pop_block x) (pop_blocks ps)"

text \<open>The new branch from its first block on; a block that fails is removed with its descendants and ends the loop. Only
  \<^verbatim>\<open>fc::exception\<close> is caught: an exception of the state database (\<open>DbExc\<close>) is not.\<close>

fun apply_branch :: "crypto \<Rightarrow> bytes \<times> bytes \<Rightarrow> 'v exec \<Rightarrow> nat list \<Rightarrow> 'v chain_ctx \<Rightarrow> 'v chain_ctx thrown" where
  "apply_branch cr pad ex [] x = Inr x"
| "apply_branch cr pad ex (p # ps) x =
     (let bad = (\<lambda>x. case remove_chain (pk_id (cx_pack x p)) (cx_fork x) of
          Inl (e, c) \<Rightarrow> Inl (e, x\<lparr>cx_fork := c\<rparr>) | Inr c \<Rightarrow> Inr (x\<lparr>cx_fork := c\<rparr>))
      in case apply_block cr pad ex (pk_block (cx_pack x p)) False x of
        Inl (e, x) \<Rightarrow> if e = Undefined \<or> e = NoReturn \<or> e = DbExc then Inl (e, x) else bad x
      | Inr x \<Rightarrow>
        let x = x\<lparr>cx_head := Some p\<rparr>
        in (case change_main_chain_flag (pk_id (cx_pack x p)) True (cx_fork x) of
            Inl (_, c) \<Rightarrow> bad (x\<lparr>cx_fork := c\<rparr>)
          | Inr c \<Rightarrow> apply_branch cr pad ex ps (x\<lparr>cx_fork := c\<rparr>)))"

definition switch_fork :: "crypto \<Rightarrow> bytes \<times> bytes \<Rightarrow> 'v exec \<Rightarrow> nat \<Rightarrow> 'v chain_ctx \<Rightarrow> 'v chain_ctx thrown" where
  "switch_fork cr pad ex new_head x =
     (case cx_head x of None \<Rightarrow> Inl (Undefined, x)
      | Some h \<Rightarrow>
        (case fetch_branch_from_fork (cx_fork x) (pk_id (cx_pack x h)) (pk_id (cx_pack x new_head)) of
           Inl e \<Rightarrow> Inl (e, x)
         | Inr br \<Rightarrow>
           (case first_branch br of
              [] \<Rightarrow> Inl (Undefined, x)
            | o1 # _ \<Rightarrow>
              if pk_id (cx_pack x o1) \<noteq> pk_id (cx_pack x h) then Inl (FcAssert, x)
              else bind_thrown (pop_blocks (first_branch br) x) (apply_branch cr pad ex (rev (second_branch br))))))"

partial_function (option) check_fork :: "crypto \<Rightarrow> bytes \<times> bytes \<Rightarrow> 'v exec \<Rightarrow> 'v chain_ctx \<Rightarrow> ('v chain_ctx thrown) option" where
  "check_fork cr pad ex x =
     (case fc_head (cx_fork x) of None \<Rightarrow> Some (Inl (Undefined, x))
      | Some h \<Rightarrow> if main_chain (cx_pack x h) then Some (Inr x)
        else (case switch_fork cr pad ex h x of
            Inl e \<Rightarrow> Some (Inl e) | Inr x \<Rightarrow> check_fork cr pad ex x))"

declare check_fork.simps [code]

text \<open>\<^verbatim>\<open>push_fork\<close> logs exceptions and swallows them; what is undefined or does not end stays so.\<close>

definition push_fork :: "crypto \<Rightarrow> bytes \<times> bytes \<Rightarrow> 'v exec \<Rightarrow> signed_block \<Rightarrow> 'v chain_ctx \<Rightarrow> ('v chain_ctx thrown) option" where
  "push_fork cr pad ex b x =
     (let swallow = (\<lambda>(e, x). if e = Undefined \<or> e = NoReturn then Inl (e, x) else Inr x)
      in case with_fork (\<lambda>sc. case fork_add_block cr (on_irreversible cr pad) b sc of Inl e \<Rightarrow> Inl e | Inr (_, sc) \<Rightarrow> Inr sc) x of
        Inl e \<Rightarrow> Some (swallow e)
      | Inr x \<Rightarrow> (case check_fork cr pad ex x of None \<Rightarrow> None
        | Some (Inl e) \<Rightarrow> Some (swallow e) | Some (Inr x) \<Rightarrow> Some (Inr x)))"

definition confirm_block :: "crypto \<Rightarrow> bytes \<times> bytes \<Rightarrow> 'v exec \<Rightarrow> signed_block \<Rightarrow> 'v chain_ctx \<Rightarrow> 'v chain_ctx thrown" where
  "confirm_block cr pad ex b x = apply_block cr pad ex b True x"

definition block_from_num :: "size_of \<Rightarrow> u32 \<Rightarrow> 'v chain_ctx \<Rightarrow> chain_exc + signed_block" where
  "block_from_num so num x =
     (case get_main_block_by_num (cx_fork x) num of
        Some p \<Rightarrow> Inr (pk_block (cx_pack x p))
      | None \<Rightarrow> (case read_by_num so num (cx_log x) of Inl e \<Rightarrow> Inl e
        | Inr None \<Rightarrow> Inl FcAssert
        | Inr (Some b) \<Rightarrow> if block_num b = num then Inr b else Inl FcAssert))"

section \<open>A block applied and popped\<close>

text \<open>What the execution inside a block does to the state database: changes, and sessions that it undoes or squashes.\<close>

abbreviation db_run :: "'v database \<Rightarrow> 'v database \<Rightarrow> bool" where
  "db_run \<equiv> session_run db_change (\<lambda>d. snd (db_start_undo_session True d)) db_undo db_squash"

definition exec_in_session :: "'v exec \<Rightarrow> bool" where
  "exec_in_session ex \<longleftrightarrow> (\<forall>t d r d'. ex_apply ex t d = Inr (r, d') \<longrightarrow> db_run d d') \<and>
     (\<forall>q d d'. ex_final ex q d = Inr d' \<longrightarrow> db_run d d')"

text \<open>\<open>builds p x y\<close>: from \<open>x\<close> to \<open>y\<close> only the pack \<open>p\<close> and the objects of the present session have changed.\<close>

definition builds :: "nat \<Rightarrow> 'v chain_ctx \<Rightarrow> 'v chain_ctx \<Rightarrow> bool" where
  "builds p x y \<longleftrightarrow> cx_head y = cx_head x \<and> cx_building y = cx_building x \<and> db_run (cx_db x) (cx_db y) \<and>
     (\<exists>q. cx_fork y = (cx_fork x)\<lparr>fc_heap := (fc_heap (cx_fork x))(p := q)\<rparr>)"

lemma bind_thrown_Inr: "bind_thrown r f = Inr y \<longleftrightarrow> (\<exists>x. r = Inr x \<and> f x = Inr y)"
  by (simp add: bind_thrown_def split: sum.splits)

lemma builds_trans [trans]: "builds p x y \<Longrightarrow> builds p y z \<Longrightarrow> builds p x z"
  unfolding builds_def using session_run_trans by fastforce

lemma builds_pack [intro]: "builds p x (set_pack p q x)"
  by (auto simp: builds_def set_pack_def intro: session_run.Nothing)

lemma builds_refl [intro]: "builds p x x"
  using builds_pack [of p x "cx_pack x p"] by (simp add: set_pack_def)

lemma builds_db: "db_run (cx_db x) d \<Longrightarrow> builds p x (x\<lparr>cx_db := d\<rparr>)"
  using builds_refl [of p x] by (simp add: builds_def)

lemma apply_all_builds: "exec_in_session ex \<Longrightarrow> apply_all ex p ts x = Inr y \<Longrightarrow> builds p x y"
proof (induction ts arbitrary: x)
  case (Cons t ts)
  then obtain r d where d: "ex_apply ex t (cx_db x) = Inr (r, d)" by (auto split: sum.splits)
  let ?q = "cx_pack (x\<lparr>cx_db := d\<rparr>) p"
  define x1 where "x1 = (case r of None \<Rightarrow> x\<lparr>cx_db := d\<rparr>
    | Some r \<Rightarrow> set_pack p (?q\<lparr>pk_block := (pk_block ?q)\<lparr>receipts := receipts (pk_block ?q) @ [r]\<rparr>\<rparr>) (x\<lparr>cx_db := d\<rparr>))"
  have x1: "apply_all ex p ts x1 = Inr y" using Cons.prems(2) d by (simp add: x1_def Let_def)
  have b: "builds p (x\<lparr>cx_db := d\<rparr>) x1" by (auto simp: x1_def split: option.splits)
  have "builds p x (x\<lparr>cx_db := d\<rparr>)" using Cons.prems(1) d by (auto simp: exec_in_session_def intro: builds_db)
  with b Cons.IH [OF Cons.prems(1) x1] show ?case by (blast intro: builds_trans)
qed auto

lemma validate_block_builds: "validate_block cr b p x = Inr y \<Longrightarrow> builds p x y"
  by (auto simp: validate_block_def Let_def split: if_splits)

lemma final_block_builds:
  assumes "exec_in_session ex" and "final_block ex p x = Inr y"
  shows "builds p x y"
proof -
  let ?m = "make_final_block p x"
  obtain d where d: "ex_final ex (cx_pack ?m p) (cx_db ?m) = Inr d" "y = ?m\<lparr>cx_db := d\<rparr>"
    using assms(2) by (auto simp: final_block_def Let_def split: sum.splits)
  have "builds p x ?m" by (auto simp: make_final_block_def Let_def)
  also have "builds p ?m y" using assms(1) d by (auto simp: exec_in_session_def intro: builds_db)
  finally show ?thesis .
qed

lemma rethrow_abort_throws [simp]: "rethrow_abort e x \<noteq> Inr y"
  by (simp add: rethrow_abort_def split: sum.splits)

text \<open>The context with a fresh pack and a session of the state database.\<close>

lemma start_build_result:
  assumes "start_build ex when x = Inr y"
  shows "\<exists>s q. y = x\<lparr>cx_db := snd (db_start_undo_session True (cx_db x)), cx_building := Some (fc_next (cx_fork x), s),
    cx_fork := (cx_fork x)\<lparr>fc_next := Suc (fc_next (cx_fork x)), fc_heap := (fc_heap (cx_fork x))(fc_next (cx_fork x) := q)\<rparr>\<rparr>"
  using assms
  by (auto simp: start_build_def Let_def generate_next_builders_def set_pack_def
      split: if_splits option.splits sum.splits prod.splits)

lemma commit_block_result:
  "cx_building x = Some (p, s) \<Longrightarrow> commit_block x = Inr (x\<lparr>cx_building := None\<rparr>)"
  by (simp add: commit_block_def abort_build_def dbs_undo_def dbs_push_def)

lemma apply_block_runs:
  assumes ex: "exec_in_session ex" and idle: "cx_building x = None"
    and ap: "apply_block cr pad ex b False x = Inr z"
  shows "cx_building z = None \<and> cx_head z = cx_head x \<and>
    db_run (snd (db_start_undo_session True (cx_db x))) (cx_db z) \<and>
    (\<exists>q. cx_fork z = (cx_fork x)\<lparr>fc_next := Suc (fc_next (cx_fork x)), fc_heap := (fc_heap (cx_fork x))(fc_next (cx_fork x) := q)\<rparr>)"
proof -
  let ?p = "fc_next (cx_fork x)"
  have "abort_build x = Inr x" using idle by (simp add: abort_build_def)
  with ap obtain ts x1 a u x2 x3 x4 where x1: "start_build ex (timestamp b) x = Inr x1" "cx_building x1 = Some (a, u)"
    and st: "apply_all ex a ts x1 = Inr x2" "validate_block cr b a (generate_block cr a x2) = Inr x3" "final_block ex a x3 = Inr x4"
    and z: "bind_thrown (push_block cr pad False x4) commit_block = Inr z"
    by (auto simp: apply_block_def bind_thrown_Inr split: option.splits sum.splits)
  obtain s q where s: "x1 = x\<lparr>cx_db := snd (db_start_undo_session True (cx_db x)), cx_building := Some (?p, s),
    cx_fork := (cx_fork x)\<lparr>fc_next := Suc ?p, fc_heap := (fc_heap (cx_fork x))(?p := q)\<rparr>\<rparr>"
    using start_build_result [OF x1(1)] by blast
  then have "a = ?p" using x1(2) by simp
  note x2 = st(1) [unfolded this] and x3 = st(2) [unfolded this] and x4 = st(3) [unfolded this]
  have "builds ?p x1 x2" by (rule apply_all_builds [OF ex x2])
  also have "builds ?p x2 (generate_block cr ?p x2)" by (auto simp: generate_block_def Let_def)
  also have "builds ?p \<dots> x3" by (rule validate_block_builds [OF x3])
  also have "builds ?p x3 x4" by (rule final_block_builds [OF ex x4])
  finally have b: "builds ?p x1 x4" .
  then have "cx_building x4 = Some (?p, s)" using s by (simp add: builds_def)
  moreover have "push_block cr pad False x4 = Inr x4"
    using z by (auto simp: bind_thrown_Inr push_block_def split: option.splits prod.splits if_splits)
  ultimately have "z = x4\<lparr>cx_building := None\<rparr>" using z by (simp add: bind_thrown_def commit_block_result)
  then show ?thesis using b s by (auto simp: builds_def)
qed

lemma change_flag_found:
  assumes "fork_ok c" and "p \<in> set (fc_ids c)"
  shows "\<exists>c'. change_main_chain_flag (pk_id (pack_at c p)) flag c = Inr c' \<and> fork_ok c' \<and> fc_ids c' = fc_ids c \<and>
    (\<forall>a. pk_id (pack_at c' a) = pk_id (pack_at c a) \<and> prev_id (pack_at c' a) = prev_id (pack_at c a))"
proof -
  have "packs_find c (pk_id (pack_at c p)) = Some p" using assms by (simp add: packs_find_Some)
  then have "\<exists>c'. change_main_chain_flag (pk_id (pack_at c p)) flag c = Inr c' \<and>
      (c' = c \<or> c' = packs_modify p (\<lambda>q. q\<lparr>main_chain := flag\<rparr>) c)"
    by (simp add: change_main_chain_flag_def)
  then obtain c' where c': "change_main_chain_flag (pk_id (pack_at c p)) flag c = Inr c'"
    "c' = c \<or> c' = packs_modify p (\<lambda>q. q\<lparr>main_chain := flag\<rparr>) c" by blast
  have "fork_ok c'" using change_main_chain_flag_ok [OF assms(1), of "pk_id (pack_at c p)" flag] c'(1) by simp
  then show ?thesis using c' by (auto simp: packs_modify_def Let_def prev_id_def)
qed

lemma get_block_cong:
  assumes "fc_ids c' = fc_ids c" and "\<And>a. a \<in> set (fc_ids c) \<Longrightarrow> pk_id (pack_at c' a) = pk_id (pack_at c a)"
  shows "get_block c' i = get_block c i"
  using assms by (auto simp: get_block_def packs_find_def cong: find_cong)

text \<open>The ways down from a block are one way: a longer one passes the end of a shorter one.\<close>

lemma is_branch_through:
  assumes "fork_ok c"
  shows "b \<in> set (fc_ids c) \<Longrightarrow> is_branch c b xs h \<Longrightarrow> is_branch c b ys f \<Longrightarrow>
    unat (pk_num (pack_at c f)) < unat (pk_num (pack_at c h)) \<Longrightarrow> h \<in> set ys"
proof (induction xs arbitrary: b ys)
  case Nil
  then show ?case by (cases ys) auto
next
  case (Cons x xs)
  then obtain d where d: "get_block c (prev_id (pack_at c b)) = Some d" "is_branch c d xs h" by (auto split: option.splits)
  note p = pred_num [OF assms Cons.prems(1) d(1)]
  have "unat (pk_num (pack_at c h)) \<le> unat (pk_num (pack_at c b))" using is_branch_num [OF assms p(2) d(2)] p(1) by simp
  then obtain zs where "ys = b # zs" "is_branch c d zs f" using Cons.prems(3,4) d(1) by (cases ys) auto
  then show ?case using Cons.IH [OF p(2) d(2)] Cons.prems(4) by simp
qed

section \<open>A concrete context\<close>

text \<open>The first block is the head, and the fork database holds one on top of it; the end of a block creates an object.\<close>

definition demo_next :: signed_block where
  "demo_next = empty_block\<lparr>previous := demo_id 1 1, timestamp := 1, builder := 7\<rparr>"

definition demo_ctx :: "nat chain_ctx" where
  "demo_ctx = \<lparr>cx_building = None, cx_head = Some 0, cx_log = \<lparr>block_stream = [], index_stream = [], head_block = None\<rparr>, cx_db = sample_db,
     cx_fork = fork_open (Some \<lparr>ff_size = 2, ff_head_id = demo_id 2 2,
       ff_packs = [(demo_pack 1 1 empty_sha256)\<lparr>current_builders := two_rule\<rparr>,
         (demo_pack 2 2 (demo_id 1 1))\<lparr>pk_block := demo_next\<rparr>]\<rparr>),
     cx_last_irreversible = 0\<rparr>"

definition demo_exec :: "nat exec" where
  "demo_exec = \<lparr>ex_apply = \<lambda>_ d. Inr (None, d),
     ex_final = \<lambda>_ d. (case db_create 1 (\<lambda>_. 7) d of Inl (_, d) \<Rightarrow> Inl (DbExc, d) | Inr d \<Rightarrow> Inr d),
     ex_next_round = \<lambda>_. [], ex_builder_key = \<lambda>_ _. Some empty_public_key\<rparr>"

lemma demo_exec_session: "exec_in_session demo_exec"
proof -
  have "db_run d d'" if "db_create 1 (\<lambda>_. 7) d = Inr d'" for d d' :: "nat database"
    using that by (intro session_run.Change [OF session_run.Nothing]) (auto simp: db_change_def)
  then show ?thesis by (auto simp: exec_in_session_def demo_exec_def split: sum.splits intro: session_run.Nothing)
qed

lemma demo_ctx_fork: "fork_ok (cx_fork demo_ctx)"
proof -
  have "fork_run demo_crypto (\<lambda>_ s. Inr s) ((), cx_fork demo_ctx)"
    unfolding demo_ctx_def chain_ctx.simps
    by (rule fork_run.opened)
      (simp add: demo_pack_def demo_id_def pack_linked_def prev_id_def new_pack_def empty_header_def)
  then show ?thesis using fork_run_ok by force
qed

section \<open>Properties\<close>



text \<open>
  C9. \<^verbatim>\<open>_check_fork\<close> cannot move to a block above the head: when the head of the fork database is a descendant of the controller's
  head, the branch to undo is empty and the code reads its first element. The state arises whenever a switch fails:
  the old blocks are popped, the bad branch is removed, and the next head starts from where the branches parted.
\<close>

theorem switch_to_descendant_undefined:
  assumes "fork_ok (cx_fork x)" and "cx_head x = Some h" and "h \<in> set (fc_ids (cx_fork x))"
    and "n \<in> set (fc_ids (cx_fork x))" and "is_branch (cx_fork x) n xs h"
  shows "switch_fork cr pad ex n x = Inl (Undefined, x)"
proof -
  let ?c = "cx_fork x"
  have g: "get_block ?c (pk_id (pack_at ?c h)) = Some h" "get_block ?c (pk_id (pack_at ?c n)) = Some n"
    using assms by (simp_all add: get_block_member)
  have self: "is_branch ?c h [] h" by simp
  obtain r where r: "fetch_branch_from_fork ?c (pk_id (pack_at ?c h)) (pk_id (pack_at ?c n)) = Inr r"
    "is_branch ?c h (first_branch r) (fork_node r)" "is_branch ?c n (second_branch r) (fork_node r)"
    "set (first_branch r) \<inter> set (second_branch r) = {}"
    using fetch_branch_result [OF assms(1) g self assms(5)] by blast
  have "first_branch r = []"
  proof (rule ccontr)
    assume ne: "first_branch r \<noteq> []"
    then have m: "h \<in> set (first_branch r)" using r(2) by (cases "first_branch r") auto
    then have "h \<in> set (second_branch r)"
      using is_branch_num [OF assms(1,3) r(2)] by (intro is_branch_through [OF assms(1,4,5) r(3)]) auto
    then show False using m r(4) by blast
  qed
  then show ?thesis using r(1) assms(2) by (simp add: switch_fork_def)
qed

theorem switch_to_descendant_undefined_witness:
  "switch_fork demo_crypto ([], []) demo_exec 3 (demo_ctx\<lparr>cx_fork := demo_fork, cx_head := Some 1\<rparr>) =
    Inl (Undefined, demo_ctx\<lparr>cx_fork := demo_fork, cx_head := Some 1\<rparr>)"
proof (rule switch_to_descendant_undefined)
  show "is_branch (cx_fork (demo_ctx\<lparr>cx_fork := demo_fork, cx_head := Some 1\<rparr>)) 3 [3] 1" by code_simp
qed (simp_all add: demo_ok demo_ids)

end
