(* ===== verification/Chain_Objects.thy ===== *)
theory Chain_Objects
  imports Fc_Raw Basechain_Undo
begin

text \<open>
  The objects the native contracts work on and the tables they live in. Each table is a \<^verbatim>\<open>generic_index\<close> of the state
  database with a unique key beside the identifier (\<^verbatim>\<open>chain/include/objects\<close>). A reference to an object is its
  identifier. A handler that throws gives only the exception: its changes are in an undo session that the
  transaction drops.

  The locale \<open>object_table\<close> is the contract of a table towards the contracts' code: what a lookup returns
  after an update or a creation.
\<close>

section \<open>Errors and signed arithmetic\<close>

text \<open>\<open>DbThrow\<close>: an exception of the database; \<open>BadName\<close>: a character that no name may have; \<open>Unpack\<close>: message data that cannot be read; \<open>Ub\<close>: undefined behaviour.\<close>

datatype contract_exc = MessageValidate | MessagePrecondition | MissingAuth | MissingScope | TrxExc | AccountExists
  | InvalidOperator | AuthorizationExc | FcExc | BadName | DbThrow | Unpack chain_exc | Ub

definition bindE :: "'e + 'a \<Rightarrow> ('a \<Rightarrow> 'e + 'b) \<Rightarrow> 'e + 'b" where
  "bindE r f = (case r of Inl e \<Rightarrow> Inl e | Inr x \<Rightarrow> f x)"

lemma bindE_simps [simp]: "bindE (Inl e) f = Inl e" "bindE (Inr x) f = f x"
  by (simp_all add: bindE_def)

lemma bindE_Inr: "bindE r f = Inr y \<longleftrightarrow> (\<exists>x. r = Inr x \<and> f x = Inr y)"
  by (cases r) auto

definition assertE :: "bool \<Rightarrow> 'e \<Rightarrow> 'a \<Rightarrow> 'e + 'a" where
  "assertE b e x = (if b then Inr x else Inl e)"

lemma assertE_Inr [simp]: "assertE b e x = Inr y \<longleftrightarrow> b \<and> x = y"
  by (simp add: assertE_def)

text \<open>\<^verbatim>\<open>share_type\<close> is a signed 64-bit number: an overflow is undefined.\<close>

type_synonym share_type = int

definition in64 :: "int \<Rightarrow> bool" where
  "in64 x \<longleftrightarrow> - (2 ^ 63) \<le> x \<and> x < 2 ^ 63"

definition share_add :: "share_type \<Rightarrow> share_type \<Rightarrow> contract_exc + share_type" where
  "share_add a b = (if in64 (a + b) then Inr (a + b) else Inl Ub)"

definition share_sub :: "share_type \<Rightarrow> share_type \<Rightarrow> contract_exc + share_type" where
  "share_sub a b = (if in64 (a - b) then Inr (a - b) else Inl Ub)"

text \<open>\<^verbatim>\<open>SafeMath\<close>: \<^verbatim>\<open>add\<close> computes the sum before it checks it.\<close>

definition safe_sub :: "share_type \<Rightarrow> share_type \<Rightarrow> contract_exc + share_type" where
  "safe_sub a b = (if b \<le> a then share_sub a b else Inl InvalidOperator)"

definition safe_add :: "share_type \<Rightarrow> share_type \<Rightarrow> contract_exc + share_type" where
  "safe_add a b = bindE (share_add a b) (\<lambda>c. assertE (c \<ge> a) InvalidOperator c)"

section \<open>Tables\<close>

definition table_find :: "('v \<Rightarrow> 'k) \<Rightarrow> 'k \<Rightarrow> 'v generic_index \<Rightarrow> (int \<times> 'v) option" where
  "table_find key k g = List.find (\<lambda>(_, v). key v = k) (gi_indices g)"

definition table_get :: "('v \<Rightarrow> 'k) \<Rightarrow> 'k \<Rightarrow> 'v generic_index \<Rightarrow> contract_exc + (int \<times> 'v)" where
  "table_get key k g = (case table_find key k g of None \<Rightarrow> Inl DbThrow | Some p \<Rightarrow> Inr p)"

definition same_key :: "('v \<Rightarrow> 'k) \<Rightarrow> 'v \<Rightarrow> 'v \<Rightarrow> bool" where
  "same_key key v w \<longleftrightarrow> key v = key w"

text \<open>A modifier sees the object as it is when it runs, and may throw.\<close>

definition table_update ::
  "('v \<Rightarrow> 'v \<Rightarrow> bool) \<Rightarrow> int \<Rightarrow> ('v \<Rightarrow> contract_exc + 'v) \<Rightarrow> 'v generic_index \<Rightarrow> contract_exc + 'v generic_index" where
  "table_update conf i f g =
     (case map_of (gi_indices g) i of None \<Rightarrow> Inl Ub
      | Some v \<Rightarrow> bindE (f v) (\<lambda>v'. case gi_modify conf i (\<lambda>_. v') g of Inl _ \<Rightarrow> Inl DbThrow | Inr g' \<Rightarrow> Inr g'))"

definition table_create :: "('v \<Rightarrow> 'v \<Rightarrow> bool) \<Rightarrow> (int \<Rightarrow> 'v) \<Rightarrow> 'v generic_index \<Rightarrow> contract_exc + 'v generic_index" where
  "table_create conf c g = (case gi_emplace conf c g of Inl _ \<Rightarrow> Inl DbThrow | Inr g' \<Rightarrow> Inr g')"

section \<open>Objects\<close>

record xmx_token_object =
  tok_owner :: account_name
  main_token :: share_type

record resource_token_object =
  res_owner :: account_name
  locked_token :: share_type
  unlocked_token :: share_type
  last_unlocked_time :: u64

datatype account_type = acc_personal | acc_system | acc_contract | acc_erc20 | acc_erc721

record account_object =
  acc_name :: account_name
  acc_type :: account_type
  acc_creation :: u64
  acc_contract_code :: "bytes option"

record voter_info_object =
  vi_owner :: account_name
  vi_proxy :: account_name
  vi_is_proxy :: u32
  proxied_votes :: u128
  vi_builders :: "account_name list"
  staked :: share_type
  unstaking :: share_type
  unstake_per_week :: share_type
  deferred_trx_id :: u32
  last_update :: u64
  last_unstake_time :: u64

record builder_info_object =
  bi_owner :: account_name
  total_votes :: u128
  builder_key :: public_key

type_synonym asset_symbol = u64

record erc20_token_object =
  e20_name :: asset_symbol
  e20_owner :: account_name
  total_supply :: share_type
  e20_decimal :: share_type
  e20_revoked :: bool
  e20_stopmint :: bool

record erc20_token_account_object =
  e20a_name :: asset_symbol
  e20a_owner :: account_name
  e20a_balance :: share_type

record erc721_token_object =
  e721_name :: asset_symbol
  e721_owner :: account_name
  e721_revoked :: bool
  e721_stopmint :: bool

record erc721_token_account_object =
  e721a_name :: asset_symbol
  e721a_id :: sha256
  e721a_owner :: account_name
  e721a_url :: string

text \<open>Authorities: keys and other accounts' authorities with their weights, and the weight needed.\<close>

record key_permission =
  kp_weight :: u16
  kp_key :: public_key

record account_permission =
  ap_weight :: u16
  ap_auth :: account_auth

record authority =
  au_threshold :: u32
  au_keys :: "key_permission list"
  au_accounts :: "account_permission list"

record authority_object =
  ao_owner :: account_name
  ao_name :: authority_name
  ao_parent :: int
  ao_auth :: authority
  ao_updated :: u64

record linked_permission_object =
  lp_account :: account_name
  lp_code :: account_name
  lp_func :: func_name
  lp_required :: authority_name

definition ao_key :: "authority_object \<Rightarrow> account_name \<times> authority_name" where
  "ao_key a = (ao_owner a, ao_name a)"

definition lp_key :: "linked_permission_object \<Rightarrow> account_name \<times> account_name \<times> func_name" where
  "lp_key l = (lp_account l, lp_code l, lp_func l)"

definition e20a_key :: "erc20_token_account_object \<Rightarrow> asset_symbol \<times> account_name" where
  "e20a_key a = (e20a_name a, e20a_owner a)"

text \<open>The tokens of an \<^verbatim>\<open>erc721\<close> contract have two unique keys: by contract and owner, and by contract and token.\<close>

definition e721a_conf :: "erc721_token_account_object \<Rightarrow> erc721_token_account_object \<Rightarrow> bool" where
  "e721a_conf a b \<longleftrightarrow> e721a_name a = e721a_name b \<and> (e721a_owner a = e721a_owner b \<or> e721a_id a = e721a_id b)"

record world =
  w_authorities :: "authority_object generic_index"
  w_links :: "linked_permission_object generic_index"
  w_accounts :: "account_object generic_index"
  w_tokens :: "xmx_token_object generic_index"
  w_resources :: "resource_token_object generic_index"
  w_voters :: "voter_info_object generic_index"
  w_builders :: "builder_info_object generic_index"
  w_erc20 :: "erc20_token_object generic_index"
  w_erc20_accounts :: "erc20_token_account_object generic_index"
  w_erc721 :: "erc721_token_object generic_index"
  w_erc721_accounts :: "erc721_token_account_object generic_index"

section \<open>The contract of a table\<close>

text \<open>What of each object a table holds, summed up.\<close>

definition tally :: "('v \<Rightarrow> 'n::comm_monoid_add) \<Rightarrow> ('k \<Rightarrow> (int \<times> 'v) option) \<Rightarrow> 'n" where
  "tally F look = (\<Sum>k | look k \<noteq> None. F (snd (the (look k))))"

lemma tally_upd:
  fixes F :: "'v \<Rightarrow> 'n::comm_monoid_add"
  assumes fin: "finite {k. look k \<noteq> None}" and k: "look k = Some (i, v)"
    and upd: "\<And>k'. look' k' = (if k' = k then Some (i, v') else look k')"
  shows "tally F look' + F v = tally F look + F v'"
proof -
  have dom: "{k. look' k \<noteq> None} = {k. look k \<noteq> None}" using k upd by auto
  have split: "(\<Sum>k | look k \<noteq> None. f k) = f k + (\<Sum>k \<in> {k. look k \<noteq> None} - {k}. f k)" for f :: "_ \<Rightarrow> 'n"
    using fin k by (simp add: sum.remove)
  have "(\<Sum>k \<in> {k. look k \<noteq> None} - {k}. F (snd (the (look' k)))) = (\<Sum>k \<in> {k. look k \<noteq> None} - {k}. F (snd (the (look k))))"
    using upd by (intro sum.cong) auto
  then show ?thesis unfolding tally_def dom split using k upd by (simp add: ac_simps)
qed

lemma tally_new:
  assumes fin: "finite {k. look k \<noteq> None}" and k: "look k = None"
    and upd: "\<And>k'. look' k' = (if k' = k then Some (i, v) else look k')"
  shows "tally F look' = F v + tally F look"
proof -
  have dom: "{k. look' k \<noteq> None} = insert k {k. look k \<noteq> None}" using k upd by auto
  have "(\<Sum>k | look k \<noteq> None. F (snd (the (look' k)))) = (\<Sum>k | look k \<noteq> None. F (snd (the (look k))))"
    using upd k by (intro sum.cong) auto
  then show ?thesis unfolding tally_def dom using k upd fin by simp
qed

locale object_table =
  fixes key :: "'v \<Rightarrow> 'k" and inv :: "'g \<Rightarrow> bool" and look :: "'k \<Rightarrow> 'g \<Rightarrow> (int \<times> 'v) option"
    and update :: "int \<Rightarrow> ('v \<Rightarrow> 'e + 'v) \<Rightarrow> 'g \<Rightarrow> 'e + 'g" and create :: "(int \<Rightarrow> 'v) \<Rightarrow> 'g \<Rightarrow> 'e + 'g"
    and next_id :: "'g \<Rightarrow> int"
  assumes look_key: "inv g \<Longrightarrow> look k g = Some (i, v) \<Longrightarrow> key v = k"
    and look_finite: "inv g \<Longrightarrow> finite {k. look k g \<noteq> None}"
    and update_ok: "inv g \<Longrightarrow> look k g = Some (i, v) \<Longrightarrow> f v = Inr v' \<Longrightarrow> key v' = k \<Longrightarrow>
      \<exists>g'. update i f g = Inr g' \<and> inv g' \<and> next_id g' = next_id g \<and>
        (\<forall>k'. look k' g' = (if k' = k then Some (i, v') else look k' g))"
    and update_throws: "inv g \<Longrightarrow> look k g = Some (i, v) \<Longrightarrow> f v = Inl e \<Longrightarrow> update i f g = Inl e"
    and create_ok: "inv g \<Longrightarrow> look (key (c (next_id g))) g = None \<Longrightarrow>
      \<exists>g'. create c g = Inr g' \<and> inv g' \<and> next_id g' = next_id g + 1 \<and>
        (\<forall>k'. look k' g' = (if k' = key (c (next_id g)) then Some (next_id g, c (next_id g)) else look k' g))"
    and create_taken: "inv g \<Longrightarrow> look (key (c (next_id g))) g \<noteq> None \<Longrightarrow> \<exists>e. create c g = Inl e"
begin

lemma updateE:
  assumes "inv g" and "look k g = Some (i, v)" and "\<And>v'. f v = Inr v' \<Longrightarrow> key v' = k" and "update i f g = Inr g'"
  obtains v' where "f v = Inr v'" and "inv g'" and "next_id g' = next_id g"
    and "\<And>k'. look k' g' = (if k' = k then Some (i, v') else look k' g)"
proof (cases "f v")
  case (Inl e)
  then show ?thesis using update_throws [of g k i v f e, OF assms(1,2) Inl] assms(4) by simp
next
  case (Inr v')
  then show ?thesis using update_ok [of g k i v f v', OF assms(1,2) Inr assms(3) [OF Inr]] assms(4) that by auto
qed

lemma createE:
  assumes "inv g" and "create c g = Inr g'"
  obtains "look (key (c (next_id g))) g = None" and "inv g'" and "next_id g' = next_id g + 1"
    and "\<And>k'. look k' g' = (if k' = key (c (next_id g)) then Some (next_id g, c (next_id g)) else look k' g)"
proof (cases "look (key (c (next_id g))) g")
  case None
  then show ?thesis using create_ok [of g c, OF assms(1) None] assms(2) that by auto
next
  case (Some p)
  then show ?thesis using create_taken [of g c, OF assms(1)] assms(2) by auto
qed

lemma update_tally:
  assumes "inv g" and "look k g = Some (i, v)" and "\<And>k'. look k' g' = (if k' = k then Some (i, v') else look k' g)"
  shows "tally F (\<lambda>k. look k g') + F v = tally F (\<lambda>k. look k g) + F v'"
  by (rule tally_upd [OF look_finite [OF assms(1)] assms(2,3)])

lemma create_tally:
  assumes "inv g" and "look k g = None" and "\<And>k'. look k' g' = (if k' = k then Some (i, v) else look k' g)"
  shows "tally F (\<lambda>k. look k g') = F v + tally F (\<lambda>k. look k g)"
  by (rule tally_new [OF look_finite [OF assms(1)] assms(2,3)])

end

section \<open>The tables satisfy it\<close>

definition table_inv :: "('v \<Rightarrow> 'k) \<Rightarrow> 'v generic_index \<Rightarrow> bool" where
  "table_inv key g \<longleftrightarrow> distinct (map fst (gi_indices g)) \<and>
     (\<forall>i j v w. map_of (gi_indices g) i = Some v \<longrightarrow> map_of (gi_indices g) j = Some w \<longrightarrow> key v = key w \<longrightarrow> i = j) \<and>
     (\<forall>i v. map_of (gi_indices g) i = Some v \<longrightarrow> i < gi_next_id g)"

lemma table_find_iff:
  assumes "table_inv key g"
  shows "table_find key k g = Some (i, v) \<longleftrightarrow> map_of (gi_indices g) i = Some v \<and> key v = k"
proof
  assume "table_find key k g = Some (i, v)"
  then have "(i, v) \<in> set (gi_indices g)" "key v = k" by (auto simp: table_find_def dest: find_SomeD)
  then show "map_of (gi_indices g) i = Some v \<and> key v = k" using assms by (simp add: table_inv_def)
next
  assume a: "map_of (gi_indices g) i = Some v \<and> key v = k"
  then have "table_find key k g \<noteq> None" by (auto simp: table_find_def find_None_iff dest: map_of_SomeD)
  then obtain j w where f: "table_find key k g = Some (j, w)" by auto
  then have "(j, w) \<in> set (gi_indices g)" "key w = k" by (auto simp: table_find_def dest: find_SomeD)
  then have "map_of (gi_indices g) j = Some w" "key w = k" using assms by (simp_all add: table_inv_def)
  then have "j = i" using assms a by (auto simp: table_inv_def)
  then show "table_find key k g = Some (i, v)" using f a \<open>map_of (gi_indices g) j = Some w\<close> by simp
qed

lemma table_member:
  assumes "table_inv key g"
  shows "(i, v) \<in> set (gi_indices g) \<longleftrightarrow> table_find key (key v) g = Some (i, v)"
  using table_find_iff [OF assms, of "key v" i v] assms by (auto simp: table_inv_def dest: map_of_SomeD)

lemma table_member_less:
  assumes "table_inv key g" and "(i, v) \<in> set (gi_indices g)"
  shows "i < gi_next_id g"
proof -
  have "map_of (gi_indices g) i = Some v" using assms by (simp add: table_inv_def)
  then show ?thesis using assms(1) unfolding table_inv_def by blast
qed

lemma table_find_eqI:
  assumes "table_inv key g" and "\<And>i v. map_of (gi_indices g) i = Some v \<and> key v = k \<longleftrightarrow> r = Some (i, v)"
  shows "table_find key k g = r"
proof (cases r)
  case None
  have "table_find key k g \<noteq> Some (i, v)" for i v using table_find_iff [OF assms(1)] assms(2) None by simp
  then show ?thesis using None by (cases "table_find key k g") auto
qed (use assms(2) table_find_iff [OF assms(1)] in auto)

lemma table_update_result:
  assumes "map_of (gi_indices g) i = Some v" and "f v = Inr v'"
    and "\<not> (\<exists>j w. map_of (gi_indices g) j = Some w \<and> j \<noteq> i \<and> conf v' w)" and "distinct (map fst (gi_indices g))"
  shows "\<exists>g'. table_update conf i f g = Inr g' \<and> gi_next_id g' = gi_next_id g \<and> gi_indices g' = AList.update i v' (gi_indices g)"
proof -
  have fr: "gi_indices (on_modify i v g) = gi_indices g" "gi_next_id (on_modify i v g) = gi_next_id g"
    by (auto simp: on_modify_def split: list.splits)
  have "\<not> list_ex (\<lambda>(k', w). k' \<noteq> i \<and> conf v' w) (gi_indices g)"
    using assms(3,4) by (auto simp: list_ex_iff)
  then show ?thesis using assms(1,2) fr
    by (simp add: table_update_def gi_modify_def idx_modify_def Let_def)
qed

lemma map_of_alist_update: "map_of (AList.update i v m) j = (if j = i then Some v else map_of m j)"
  by (simp add: AList.update_conv')

lemma table_update_inv:
  assumes inv: "table_inv key g" and k: "table_find key k g = Some (i, v)" and v': "key v' = k"
    and g': "gi_next_id g' = gi_next_id g" "gi_indices g' = AList.update i v' (gi_indices g)"
  shows "table_inv key g' \<and> (\<forall>k'. table_find key k' g' = (if k' = k then Some (i, v') else table_find key k' g))"
proof -
  have v: "map_of (gi_indices g) i = Some v" "key v = k" using k table_find_iff [OF inv] by simp_all
  have m: "map_of (gi_indices g') j = (if j = i then Some v' else map_of (gi_indices g) j)" for j
    using g'(2) by (simp add: map_of_alist_update)
  have uniq: "map_of (gi_indices g) j = Some w \<Longrightarrow> key w = k \<Longrightarrow> j = i" for j w
    using inv v unfolding table_inv_def by blast
  have "distinct (map fst (gi_indices g'))" using inv g'(2) by (simp add: table_inv_def distinct_update)
  moreover have "\<forall>a b x y. map_of (gi_indices g') a = Some x \<longrightarrow> map_of (gi_indices g') b = Some y \<longrightarrow> key x = key y \<longrightarrow> a = b"
  proof (intro allI impI)
    fix a b x y
    assume a: "map_of (gi_indices g') a = Some x" "map_of (gi_indices g') b = Some y" "key x = key y"
    show "a = b"
    proof (cases "a = i \<or> b = i")
      case True
      then show ?thesis using a uniq v' m by (metis option.inject)
    next
      case False
      then have "map_of (gi_indices g) a = Some x" "map_of (gi_indices g) b = Some y" using a m by simp_all
      then show ?thesis using inv a(3) unfolding table_inv_def by blast
    qed
  qed
  moreover have "\<forall>j w. map_of (gi_indices g') j = Some w \<longrightarrow> j < gi_next_id g'"
    using inv v m g'(1) by (auto simp: table_inv_def)
  ultimately have inv': "table_inv key g'" unfolding table_inv_def by blast
  have "table_find key k' g' = (if k' = k then Some (i, v') else table_find key k' g)" for k'
  proof (rule table_find_eqI [OF inv'])
    fix j w
    show "(map_of (gi_indices g') j = Some w \<and> key w = k') = ((if k' = k then Some (i, v') else table_find key k' g) = Some (j, w))"
    proof (cases "k' = k")
      case True
      then show ?thesis using uniq v' by (cases "j = i") (auto simp: m)
    next
      case False
      then show ?thesis using v v' by (cases "j = i") (auto simp: m table_find_iff [OF inv])
    qed
  qed
  then show ?thesis using inv' by blast
qed

lemma table_create_result:
  assumes inv: "table_inv key g" and k: "table_find key (key (c (gi_next_id g))) g = None"
  shows "\<exists>g'. table_create (same_key key) c g = Inr g' \<and> table_inv key g' \<and> gi_next_id g' = gi_next_id g + 1 \<and>
    (\<forall>k'. table_find key k' g' = (if k' = key (c (gi_next_id g)) then Some (gi_next_id g, c (gi_next_id g)) else table_find key k' g))"
proof -
  define n where "n = gi_next_id g"
  define v where "v = c n"
  define g' where "g' = on_create n (g\<lparr>gi_indices := insort_key fst (n, v) (gi_indices g), gi_next_id := n + 1\<rparr>)"
  have fresh: "map_of (gi_indices g) n = None"
    using inv unfolding table_inv_def n_def by (metis less_irrefl not_None_eq)
  have new: "key w \<noteq> key v" if "map_of (gi_indices g) j = Some w" for j w
    using k that table_find_iff [OF inv, of "key v" j w] by (auto simp: n_def v_def)
  have "\<not> list_ex (\<lambda>(_, w). same_key key v w) (gi_indices g)"
    using new inv by (force simp: list_ex_iff same_key_def table_inv_def)
  then have cr: "table_create (same_key key) c g = Inr g'"
    using fresh by (simp add: table_create_def gi_emplace_def idx_emplace_def Let_def n_def v_def g'_def)
  have oc: "gi_indices (on_create n h) = gi_indices h" "gi_next_id (on_create n h) = gi_next_id h" for h :: "'a generic_index"
    by (auto simp: on_create_def split: list.splits)
  have m: "map_of (gi_indices g') j = (if j = n then Some v else map_of (gi_indices g) j)" for j
    using fresh by (simp add: g'_def oc)
  have nx: "gi_next_id g' = n + 1" by (simp add: g'_def oc)
  have "distinct (map fst (gi_indices g'))" using inv fresh by (simp add: g'_def oc table_inv_def)
  moreover have "\<forall>a b x y. map_of (gi_indices g') a = Some x \<longrightarrow> map_of (gi_indices g') b = Some y \<longrightarrow> key x = key y \<longrightarrow> a = b"
    using inv new unfolding table_inv_def m by (metis option.inject)
  moreover have "\<forall>j w. map_of (gi_indices g') j = Some w \<longrightarrow> j < gi_next_id g'"
    using inv unfolding table_inv_def m nx n_def by (metis less_add_one less_trans)
  ultimately have inv': "table_inv key g'" unfolding table_inv_def by blast
  have "table_find key k' g' = (if k' = key v then Some (n, v) else table_find key k' g)" for k'
  proof (rule table_find_eqI [OF inv'])
    fix j w
    show "(map_of (gi_indices g') j = Some w \<and> key w = k') = ((if k' = key v then Some (n, v) else table_find key k' g) = Some (j, w))"
      using new fresh by (auto simp: m table_find_iff [OF inv] split: if_splits)
  qed
  then show ?thesis using cr inv' nx by (auto simp: n_def v_def)
qed

lemma table_is_object_table:
  "object_table key (table_inv key) (table_find key) (table_update (same_key key)) (table_create (same_key key)) gi_next_id"
proof (unfold_locales, goal_cases)
  case (1 g k i v)
  then show ?case using table_find_iff [of key g k i v] by simp
next
  case (2 g)
  have "{k. table_find key k g \<noteq> None} \<subseteq> (key \<circ> snd) ` set (gi_indices g)"
    by (force simp: table_find_def dest: find_SomeD)
  then show ?case by (rule finite_subset) simp
next
  case (3 g k i v f v')
  have v: "map_of (gi_indices g) i = Some v" "key v = k" using 3(2) table_find_iff [OF 3(1)] by simp_all
  have "\<not> (\<exists>j w. map_of (gi_indices g) j = Some w \<and> j \<noteq> i \<and> same_key key v' w)"
    using 3(1,4) v unfolding table_inv_def same_key_def by metis
  then obtain g' where g': "table_update (same_key key) i f g = Inr g'" "gi_next_id g' = gi_next_id g"
      "gi_indices g' = AList.update i v' (gi_indices g)"
    using table_update_result [of g i v f v' "same_key key", OF v(1) 3(3)] 3(1) by (auto simp: table_inv_def)
  then show ?case using table_update_inv [OF 3(1,2,4) g'(2,3)] by blast
next
  case (4 g k i v f e)
  then have "map_of (gi_indices g) i = Some v" using table_find_iff [of key g k i v] by simp
  then show ?case using 4(3) by (simp add: table_update_def)
next
  case (5 g c)
  then show ?case by (rule table_create_result)
next
  case (6 g c)
  then obtain i v where "table_find key (key (c (gi_next_id g))) g = Some (i, v)" by auto
  then have "map_of (gi_indices g) i = Some v" "key v = key (c (gi_next_id g))" using table_find_iff [OF 6(1)] by simp_all
  then have "list_ex (\<lambda>(_, w). same_key key (c (gi_next_id g)) w) (gi_indices g)"
    by (auto simp: list_ex_iff same_key_def dest: map_of_SomeD intro!: bexI [of _ "(i, v)"])
  then show ?case by (simp add: table_create_def gi_emplace_def idx_emplace_def Let_def)
qed

interpretation accounts: object_table acc_name "table_inv acc_name" "table_find acc_name"
    "table_update (same_key acc_name)" "table_create (same_key acc_name)" gi_next_id
  by (rule table_is_object_table)

interpretation tokens: object_table tok_owner "table_inv tok_owner" "table_find tok_owner"
    "table_update (same_key tok_owner)" "table_create (same_key tok_owner)" gi_next_id
  by (rule table_is_object_table)

interpretation resources: object_table res_owner "table_inv res_owner" "table_find res_owner"
    "table_update (same_key res_owner)" "table_create (same_key res_owner)" gi_next_id
  by (rule table_is_object_table)

interpretation voters: object_table vi_owner "table_inv vi_owner" "table_find vi_owner"
    "table_update (same_key vi_owner)" "table_create (same_key vi_owner)" gi_next_id
  by (rule table_is_object_table)

interpretation builders: object_table bi_owner "table_inv bi_owner" "table_find bi_owner"
    "table_update (same_key bi_owner)" "table_create (same_key bi_owner)" gi_next_id
  by (rule table_is_object_table)

interpretation erc20: object_table e20_name "table_inv e20_name" "table_find e20_name"
    "table_update (same_key e20_name)" "table_create (same_key e20_name)" gi_next_id
  by (rule table_is_object_table)

interpretation erc20_accounts: object_table e20a_key "table_inv e20a_key" "table_find e20a_key"
    "table_update (same_key e20a_key)" "table_create (same_key e20a_key)" gi_next_id
  by (rule table_is_object_table)

interpretation erc721: object_table e721_name "table_inv e721_name" "table_find e721_name"
    "table_update (same_key e721_name)" "table_create (same_key e721_name)" gi_next_id
  by (rule table_is_object_table)

end
