(* ===== verification/Chain_Name.thy ===== *)
theory Chain_Name
  imports Chain_Types
begin

text \<open>
  Names (\<^verbatim>\<open>long_name<uint128>\<close>): up to twenty-one characters of an alphabet of forty-three, six bits each
  from the top of a 128-bit code; the two bits that are left take the low bits of a twenty-second character.
\<close>

section \<open>Operations\<close>

definition CODE_MAP_U128 :: string where
  "CODE_MAP_U128 = ''abcdefghijklmnopqrstuvwxyz0123456789.#@$%_-''"

text \<open>\<open>UnknownChar\<close> is the \<^verbatim>\<open>out_of_range\<close> of \<^verbatim>\<open>at\<close>, \<open>AssertAborts\<close> a failing \<^verbatim>\<open>assert\<close>.\<close>

datatype name_exc = UnknownChar | AssertAborts

abbreviation (input) char_bits :: nat where "char_bits \<equiv> 6"
abbreviation (input) type_bits :: nat where "type_bits \<equiv> 128"
abbreviation (input) max_char_count :: nat where "max_char_count \<equiv> 21"
abbreviation (input) char_code_mask :: u128 where "char_code_mask \<equiv> 63"
abbreviation (input) last_code_mask :: u128 where "last_code_mask \<equiv> 3"

fun code_index :: "string \<Rightarrow> char \<Rightarrow> nat option" where
  "code_index [] chr = None"
| "code_index (c # cs) chr = (if c = chr then Some 0 else map_option Suc (code_index cs chr))"

definition char_to_code :: "char \<Rightarrow> name_exc + u128" where
  "char_to_code chr = (case code_index CODE_MAP_U128 chr of None \<Rightarrow> Inl UnknownChar | Some i \<Rightarrow> Inr (of_nat (i + 1)))"

definition code_to_char :: "u128 \<Rightarrow> name_exc + char" where
  "code_to_char code =
     (if code < of_nat (length CODE_MAP_U128) then Inr (CODE_MAP_U128 ! (unat code - 1)) else Inl AssertAborts)"

text \<open>The two loops, over the index \<open>i\<close>.\<close>

fun name_code_loop :: "nat list \<Rightarrow> string \<Rightarrow> u128 \<Rightarrow> name_exc + u128" where
  "name_code_loop [] str val = Inr val"
| "name_code_loop (i # is) str val =
     (case (if i < length str \<and> i \<le> max_char_count then char_to_code (str ! i) else Inr 0) of
        Inl e \<Rightarrow> Inl e
      | Inr c \<Rightarrow> name_code_loop is str (val OR
          (if i < max_char_count then push_bit (type_bits - char_bits * (i + 1)) (c AND char_code_mask)
           else c AND last_code_mask)))"

definition to_name_code :: "string \<Rightarrow> name_exc + u128" where
  "to_name_code str = name_code_loop [0..<max_char_count + 1] str 0"

fun name_string_loop :: "nat list \<Rightarrow> u128 \<Rightarrow> string \<Rightarrow> name_exc + string" where
  "name_string_loop [] name_code res = Inr res"
| "name_string_loop (i # is) name_code res =
     (let code = drop_bit (type_bits - char_bits * (i + 1)) name_code AND char_code_mask
      in if code = 0 then Inr res
      else case code_to_char code of Inl e \<Rightarrow> Inl e | Inr chr \<Rightarrow> name_string_loop is name_code (res @ [chr]))"

definition name_to_string :: "u128 \<Rightarrow> name_exc + string" where
  "name_to_string name_code = (if name_code = 0 then Inr [] else name_string_loop [0..<max_char_count] name_code [])"

section \<open>Lemmas\<close>

lemma code_index_Some: "code_index cs chr = Some i \<Longrightarrow> i < length cs \<and> cs ! i = chr"
  by (induction cs arbitrary: i) (auto split: if_splits)

lemma code_index_None: "code_index cs chr = None \<longleftrightarrow> chr \<notin> set cs"
  by (induction cs) auto

lemma map_length: "length CODE_MAP_U128 = 43"
  by (simp add: CODE_MAP_U128_def)

definition code_of :: "char \<Rightarrow> nat" where
  "code_of chr = (case code_index CODE_MAP_U128 chr of None \<Rightarrow> 0 | Some i \<Rightarrow> i + 1)"

lemma code_of_known:
  assumes "chr \<in> set CODE_MAP_U128"
  shows "char_to_code chr = Inr (of_nat (code_of chr))" "0 < code_of chr" "code_of chr \<le> 43" "CODE_MAP_U128 ! (code_of chr - 1) = chr"
proof -
  obtain i where i: "code_index CODE_MAP_U128 chr = Some i" using assms code_index_None [of CODE_MAP_U128 chr] by auto
  note k = code_index_Some [OF i]
  show "char_to_code chr = Inr (of_nat (code_of chr))" "0 < code_of chr" "CODE_MAP_U128 ! (code_of chr - 1) = chr" "code_of chr \<le> 43"
    using i k by (simp_all add: char_to_code_def code_of_def map_length)
qed

lemma last_code: "chr \<in> set CODE_MAP_U128 \<Longrightarrow> code_of chr = 43 \<longleftrightarrow> chr = CHR ''-''"
proof
  assume "chr \<in> set CODE_MAP_U128" "code_of chr = 43"
  then have "CODE_MAP_U128 ! 42 = chr" using code_of_known(4) [of chr] by simp
  then show "chr = CHR ''-''" by (simp add: CODE_MAP_U128_def)
qed (simp add: code_of_def CODE_MAP_U128_def)

text \<open>The digit number \<open>i\<close> of a string, and a code as the union of its digits.\<close>

definition digit :: "string \<Rightarrow> nat \<Rightarrow> nat" where
  "digit str i = (if i < length str then code_of (str ! i) else 0)"

lemma known_nth: "set str \<subseteq> set CODE_MAP_U128 \<Longrightarrow> i < length str \<Longrightarrow> str ! i \<in> set CODE_MAP_U128"
  using nth_mem by blast

lemma digit_known: "set str \<subseteq> set CODE_MAP_U128 \<Longrightarrow> digit str i < 64"
  using code_of_known(3) [OF known_nth, of str i] by (auto simp: digit_def)

lemma name_code_loop_digits:
  assumes "set str \<subseteq> set CODE_MAP_U128" and "\<forall>i \<in> set is. i \<le> max_char_count"
  shows "name_code_loop is str val = Inr (foldl (OR) val (map (\<lambda>i. if i < max_char_count
      then push_bit (type_bits - char_bits * (i + 1)) (of_nat (digit str i) AND char_code_mask)
      else of_nat (digit str i) AND last_code_mask) is))"
  using assms(2)
proof (induction "is" arbitrary: val)
  case (Cons i "is")
  have "(if i < length str \<and> i \<le> max_char_count then char_to_code (str ! i) else Inr 0) = Inr (of_nat (digit str i))"
    using Cons.prems code_of_known(1) [OF known_nth [OF assms(1)], of i] by (auto simp: digit_def)
  then show ?case using Cons by simp
qed simp

lemma bit_foldl_or: "bit (foldl (OR) val ws) n \<longleftrightarrow> bit val n \<or> (\<exists>w \<in> set ws. bit (w :: u128) n)"
  by (induction ws arbitrary: val) (auto simp: bit_simps)

lemma bit_masks: "bit (63 :: u128) k \<longleftrightarrow> k < 6" "bit (3 :: u128) k \<longleftrightarrow> k < 2"
proof -
  have "(63 :: u128) = mask 6" "(3 :: u128) = mask 2" by (simp_all add: mask_eq_exp_minus_1)
  then show "bit (63 :: u128) k \<longleftrightarrow> k < 6" "bit (3 :: u128) k \<longleftrightarrow> k < 2" by (simp_all only: bit_mask_iff) auto
qed

definition piece :: "string \<Rightarrow> nat \<Rightarrow> u128" where
  "piece str i = (if i < max_char_count then push_bit (type_bits - char_bits * (i + 1)) (of_nat (digit str i) AND char_code_mask)
     else of_nat (digit str i) AND last_code_mask)"

lemma bit_piece:
  assumes "2 \<le> p" and "p < 128"
  shows "bit (piece str j) p \<longleftrightarrow> j < 21 \<and> 122 - 6 * j \<le> p \<and> p - (122 - 6 * j) < 6 \<and>
    bit (of_nat (digit str j) :: u128) (p - (122 - 6 * j))"
proof (cases "j < 21")
  case True
  have 1: "bit (of_nat (digit str j) AND 63 :: u128) k \<longleftrightarrow> k < 6 \<and> bit (of_nat (digit str j) :: u128) k" for k
    by (simp only: bit_and_iff bit_masks conj_commute)
  have 2: "piece str j = push_bit (122 - 6 * j) (of_nat (digit str j) AND 63)" using True by (simp add: piece_def)
  show ?thesis unfolding 2 bit_push_bit_iff 1 using True assms(2) by auto
next
  case False
  then have "piece str j = of_nat (digit str j) AND 3" by (simp add: piece_def)
  then show ?thesis using False assms(1) by (simp only: bit_and_iff bit_masks) simp
qed

lemma digit_bit: "set str \<subseteq> set CODE_MAP_U128 \<Longrightarrow> bit (of_nat (digit str i) :: u128) k \<Longrightarrow> k < 6"
proof -
  assume known: "set str \<subseteq> set CODE_MAP_U128" and "bit (of_nat (digit str i) :: u128) k"
  then have "bit (digit str i) k" by (simp add: bit_simps)
  then have "2 ^ k \<le> digit str i" by (intro leI notI) (simp add: bit_iff_odd)
  then have "2 ^ k < (2::nat) ^ 6" using digit_known [OF known, of i] by simp
  then show "k < 6" by (simp only: power_strict_increasing_iff)
qed

lemma name_code_field:
  assumes known: "set str \<subseteq> set CODE_MAP_U128"
  shows "\<exists>w. to_name_code str = Inr w \<and> (\<forall>i < max_char_count. drop_bit (type_bits - char_bits * (i + 1)) w AND char_code_mask = of_nat (digit str i))"
proof -
  define w where "w = foldl (OR) 0 (map (piece str) [0..<max_char_count + 1])"
  have code: "to_name_code str = Inr w"
    using name_code_loop_digits [OF known, of "[0..<max_char_count + 1]" 0]
    by (auto simp: to_name_code_def w_def piece_def [abs_def] intro!: arg_cong2 [of _ _ _ _ "foldl (OR)"])
  have field: "drop_bit (type_bits - char_bits * (i + 1)) w AND char_code_mask = of_nat (digit str i)" if i: "i < 21" for i
  proof (rule bit_word_eqI)
    fix n assume "n < LENGTH(128)"
    have "bit w (122 - 6 * i + n) \<longleftrightarrow> bit (of_nat (digit str i) :: u128) n" if n: "n < 6"
    proof -
      let ?p = "122 - 6 * i + n"
      have p: "2 \<le> ?p" "?p < 128" using i n by auto
      have one: "j = i" if "j < 21" "122 - 6 * j \<le> ?p" "?p - (122 - 6 * j) < 6" for j
        using that i n by linarith
      have "bit w ?p \<longleftrightarrow> (\<exists>j \<in> {0..<22}. bit (piece str j) ?p)"
        unfolding w_def bit_foldl_or by (simp del: upt_Suc)
      also have "\<dots> \<longleftrightarrow> bit (piece str i) ?p"
      proof
        assume "\<exists>j \<in> {0..<22}. bit (piece str j) ?p"
        then obtain j where "bit (piece str j) ?p" by blast
        moreover from this have "j = i" unfolding bit_piece [OF p] using one by blast
        ultimately show "bit (piece str i) ?p" by simp
      qed (use i in \<open>auto intro!: bexI [of _ i]\<close>)
      also have "\<dots> \<longleftrightarrow> bit (of_nat (digit str i) :: u128) n" unfolding bit_piece [OF p] using i n by (simp add: diff_le_mono)
      finally show ?thesis .
    qed
    then show "bit (drop_bit (type_bits - char_bits * (i + 1)) w AND char_code_mask) n \<longleftrightarrow> bit (of_nat (digit str i) :: u128) n"
      using digit_bit [OF known, of i n] unfolding bit_and_iff bit_drop_bit_eq o_def bit_masks by auto
  qed
  show ?thesis using code field by auto
qed

lemma code_to_char_digit:
  assumes "set str \<subseteq> set CODE_MAP_U128" and "i < length str"
  shows "(of_nat (digit str i) :: u128) \<noteq> 0"
    "code_to_char (of_nat (digit str i)) = (if str ! i = CHR ''-'' then Inl AssertAborts else Inr (str ! i))"
proof -
  let ?d = "digit str i"
  note k = known_nth [OF assms]
  have d: "?d = code_of (str ! i)" "0 < ?d" "?d \<le> 43" using code_of_known(2,3) [OF k] assms(2) by (simp_all add: digit_def)
  have u: "unat (of_nat ?d :: u128) = ?d" using d(3) by (simp add: unsigned_of_nat take_bit_nat_eq_self)
  then show "(of_nat ?d :: u128) \<noteq> 0" using d(2) by auto
  have "(of_nat ?d :: u128) < of_nat (length CODE_MAP_U128) \<longleftrightarrow> ?d \<noteq> 43"
    using d(3) u by (auto simp: word_less_nat_alt map_length)
  then show "code_to_char (of_nat ?d) = (if str ! i = CHR ''-'' then Inl AssertAborts else Inr (str ! i))"
    using last_code [OF k] code_of_known(4) [OF k] by (auto simp: code_to_char_def u [unfolded d(1)] d(1))
qed

lemma name_string_loop_digits:
  assumes known: "set str \<subseteq> set CODE_MAP_U128" and len: "length str \<le> 21"
    and w: "\<forall>i < 21. drop_bit (type_bits - char_bits * (i + 1)) w AND char_code_mask = of_nat (digit str i)"
  shows "k \<le> length str \<Longrightarrow> name_string_loop [k..<21] w res =
    (if CHR ''-'' \<in> set (drop k str) then Inl AssertAborts else Inr (res @ drop k str))"
proof (induction "21 - k" arbitrary: k res)
  case 0
  then have "k = 21" "length str = 21" using len by auto
  then show ?case by simp
next
  case (Suc m)
  then have k: "k < 21" "[k..<21] = k # [Suc k..<21]" by (simp_all add: upt_conv_Cons)
  show ?case
  proof (cases "k < length str")
    case False
    then have "k = length str" using Suc.prems by simp
    then show ?thesis using k w by (simp add: digit_def)
  next
    case True
    note c = code_to_char_digit [OF known True]
    have dr: "drop k str = str ! k # drop (Suc k) str" using True by (simp add: Cons_nth_drop_Suc)
    have ih: "name_string_loop [Suc k..<21] w (res @ [str ! k]) =
        (if CHR ''-'' \<in> set (drop (Suc k) str) then Inl AssertAborts else Inr ((res @ [str ! k]) @ drop (Suc k) str))"
      using Suc(1) [of "Suc k" "res @ [str ! k]"] Suc(2) True by simp
    have f: "drop_bit (type_bits - char_bits * (k + 1)) w AND char_code_mask = of_nat (digit str k)" using w k(1) by blast
    show ?thesis
    proof (cases "str ! k = CHR ''-''")
      case True
      then have "code_to_char (of_nat (digit str k)) = Inl AssertAborts" using c(2) by simp
      then show ?thesis unfolding k(2) name_string_loop.simps Let_def f using c(1) True dr by simp
    next
      case False
      then have "code_to_char (of_nat (digit str k)) = Inr (str ! k)" using c(2) by simp
      then show ?thesis unfolding k(2) name_string_loop.simps Let_def f using c(1) False dr ih by simp
    qed
  qed
qed

lemma name_code_string:
  assumes "set str \<subseteq> set CODE_MAP_U128" and "length str \<le> 21"
  shows "\<exists>w. to_name_code str = Inr w \<and>
    name_to_string w = (if CHR ''-'' \<in> set str then Inl AssertAborts else Inr str)"
proof -
  obtain w where w: "to_name_code str = Inr w"
    "\<forall>i < 21. drop_bit (type_bits - char_bits * (i + 1)) w AND char_code_mask = of_nat (digit str i)"
    using name_code_field [OF assms(1)] by blast
  show ?thesis
  proof (cases "str = []")
    case True
    moreover have "to_name_code [] = Inr 0" by code_simp
    ultimately show ?thesis using True by (simp add: name_to_string_def)
  next
    case False
    have "w \<noteq> 0"
    proof
      assume "w = 0"
      then have "(of_nat (digit str 0) :: u128) = 0" using w(2) [rule_format, of 0] by simp
      then show False using code_to_char_digit(1) [OF assms(1), of 0] False by simp
    qed
    then show ?thesis using w(1) name_string_loop_digits [OF assms w(2), of 0 "[]"] by (simp add: name_to_string_def)
  qed
qed

text \<open>Two names of valid strings are equal only for equal strings.\<close>

lemma name_code_inj:
  assumes "set s \<subseteq> set CODE_MAP_U128 - {CHR ''-''}" and "length s \<le> 21" and "set s' \<subseteq> set CODE_MAP_U128 - {CHR ''-''}" and "length s' \<le> 21"
  shows "to_name_code s = to_name_code s' \<longleftrightarrow> s = s'"
proof
  assume eq: "to_name_code s = to_name_code s'"
  have "set s \<subseteq> set CODE_MAP_U128" "CHR ''-'' \<notin> set s" "set s' \<subseteq> set CODE_MAP_U128" "CHR ''-'' \<notin> set s'" using assms(1,3) by blast+
  then obtain w w' where "to_name_code s = Inr w" "name_to_string w = Inr s" "to_name_code s' = Inr w'" "name_to_string w' = Inr s'"
    using name_code_string [of s] name_code_string [of s'] assms(2,4) by metis
  then show "s = s'" using eq by simp
qed simp

text \<open>
  C17. Names survive encoding, but for the last letter of the alphabet. A string of at most twenty-one characters of
  the code map has a code, and the code gives the string back, unless the string contains a hyphen: the
  assertion in \<^verbatim>\<open>code_to_char\<close> compares the code, which starts at one, with the size of the map, so
  that it fails for the last character.
\<close>

theorem name_roundtrip:
  assumes "set str \<subseteq> set CODE_MAP_U128" and "length str \<le> 21"
  shows "\<exists>w. to_name_code str = Inr w \<and>
    name_to_string w = (if CHR ''-'' \<in> set str then Inl AssertAborts else Inr str)"
  by (rule name_code_string [OF assms])

theorem name_roundtrip_witness:
  "\<exists>w. to_name_code ''xmax.builder_1'' = Inr w \<and> name_to_string w = Inr ''xmax.builder_1''"
  using name_roundtrip [of "''xmax.builder_1''"] by (simp add: CODE_MAP_U128_def)

end
