(* ===== verification/Contract_Token.thy ===== *)
theory Contract_Token
  imports Contract_Voting
begin

text \<open>
  The token handlers of the system contract (\<^verbatim>\<open>native_contract/xmax_contract.cpp\<close>): transfers, locking tokens as a stake,
  unlocking them, and new accounts; the payment of gas (\<^verbatim>\<open>chain_xmax.cpp\<close>). A handler gets the message its data was
  unpacked to.
\<close>

section \<open>Messages\<close>

record transfer_msg =
  tr_from :: account_name
  tr_to :: account_name
  tr_amount :: u64
  tr_memo :: bytes

record lock_msg =
  lk_from :: account_name
  lk_to :: account_name
  lk_amount :: share_type

record unlock_msg =
  ul_account :: account_name
  ul_amount :: share_type

record asset =
  as_amount :: share_type
  as_symbol :: asset_symbol

record addaccount_msg =
  aa_creator :: account_name
  aa_name :: account_name
  aa_owner :: authority
  aa_active :: authority
  aa_deposit :: asset

definition xmax_owner_name :: authority_name where
  "xmax_owner_name = (case to_name_code ''owner'' of Inr n \<Rightarrow> n | Inl _ \<Rightarrow> 0)"

definition xmax_active_name :: authority_name where
  "xmax_active_name = (case to_name_code ''active'' of Inr n \<Rightarrow> n | Inl _ \<Rightarrow> 0)"

section \<open>Tables\<close>

abbreviation tokens_of :: "msg_context \<Rightarrow> xmx_token_object generic_index" where
  "tokens_of c \<equiv> w_tokens (mc_world c)"

abbreviation resources_of :: "msg_context \<Rightarrow> resource_token_object generic_index" where
  "resources_of c \<equiv> w_resources (mc_world c)"

definition set_tokens :: "xmx_token_object generic_index \<Rightarrow> msg_context \<Rightarrow> msg_context" where
  "set_tokens g c = c\<lparr>mc_world := (mc_world c)\<lparr>w_tokens := g\<rparr>\<rparr>"

definition set_resources :: "resource_token_object generic_index \<Rightarrow> msg_context \<Rightarrow> msg_context" where
  "set_resources g c = c\<lparr>mc_world := (mc_world c)\<lparr>w_resources := g\<rparr>\<rparr>"

definition set_accounts :: "account_object generic_index \<Rightarrow> msg_context \<Rightarrow> msg_context" where
  "set_accounts g c = c\<lparr>mc_world := (mc_world c)\<lparr>w_accounts := g\<rparr>\<rparr>"

definition set_authorities :: "authority_object generic_index \<Rightarrow> msg_context \<Rightarrow> msg_context" where
  "set_authorities g c = c\<lparr>mc_world := (mc_world c)\<lparr>w_authorities := g\<rparr>\<rparr>"

text \<open>The two modifiers of a balance.\<close>

definition debit :: "int \<Rightarrow> share_type \<Rightarrow> xmx_token_object generic_index \<Rightarrow> contract_exc + xmx_token_object generic_index" where
  "debit i x = table_update (same_key tok_owner) i (\<lambda>a. bindE (share_sub (main_token a) x) (\<lambda>m. Inr (a\<lparr>main_token := m\<rparr>)))"

definition credit :: "int \<Rightarrow> share_type \<Rightarrow> xmx_token_object generic_index \<Rightarrow> contract_exc + xmx_token_object generic_index" where
  "credit i x = table_update (same_key tok_owner) i (\<lambda>a. bindE (share_add (main_token a) x) (\<lambda>m. Inr (a\<lparr>main_token := m\<rparr>)))"

section \<open>Handlers\<close>

text \<open>The amount of a transfer is unsigned: the balance is converted to compare the two.\<close>

definition xmax_system_transfer :: "transfer_msg \<Rightarrow> msg_context \<Rightarrow> contract_exc + msg_context" where
  "xmax_system_transfer t c =
     (if \<not> 0 < tr_amount t then Inl MessageValidate
      else bindE (require_scope (tr_to t) c) (\<lambda>c. bindE (require_scope (tr_from t) c) (\<lambda>c.
        let c = require_recipient (tr_from t) (require_recipient (tr_to t) c)
        in bindE (table_get tok_owner (tr_from t) (tokens_of c)) (\<lambda>(i, from).
          if \<not> tr_amount t \<le> of_int (main_token from) then Inl MessagePrecondition
          else bindE (table_get tok_owner (tr_to t) (tokens_of c)) (\<lambda>(j, _).
            bindE (debit i (sint (tr_amount t)) (tokens_of c)) (\<lambda>tt.
            bindE (credit j (sint (tr_amount t)) tt) (\<lambda>tt. Inr (set_tokens tt c))))))))"

definition xmax_system_lock :: "(int \<Rightarrow> voter_info_object) \<Rightarrow> lock_msg \<Rightarrow> msg_context \<Rightarrow> contract_exc + msg_context" where
  "xmax_system_lock mem l c =
     (if \<not> 0 < lk_amount l then Inl MessageValidate
      else bindE (require_scope (lk_to l) c) (\<lambda>c. bindE (require_scope (lk_from l) c) (\<lambda>c.
        bindE (require_scope xmax_contract_name c) (\<lambda>c. bindE (require_authorization (lk_from l) c) (\<lambda>c.
        let c = require_recipient (lk_from l) (require_recipient (lk_to l) c)
        in bindE (table_get tok_owner (lk_from l) (tokens_of c)) (\<lambda>(i, locker).
          if \<not> lk_amount l \<le> main_token locker then Inl MessagePrecondition
          else bindE (table_get res_owner (lk_to l) (resources_of c)) (\<lambda>(j, _).
            bindE (debit i (lk_amount l) (tokens_of c)) (\<lambda>tt.
            bindE (table_update (same_key res_owner) j
              (\<lambda>a. bindE (share_add (locked_token a) (lk_amount l)) (\<lambda>x. Inr (a\<lparr>locked_token := x\<rparr>))) (resources_of c)) (\<lambda>rt.
            increase_votes mem (lk_to l) (lk_amount l) (set_resources rt (set_tokens tt c)))))))))))"

definition xmax_system_unlock :: "unlock_msg \<Rightarrow> msg_context \<Rightarrow> contract_exc + msg_context" where
  "xmax_system_unlock u c =
     bindE (require_authorization (ul_account u) c) (\<lambda>c.
       if \<not> 0 \<le> ul_amount u then Inl MessageValidate
       else bindE (table_get res_owner (ul_account u) (resources_of c)) (\<lambda>(j, unlocker).
         if \<not> ul_amount u \<le> locked_token unlocker then Inl MessagePrecondition
         else bindE (table_update (same_key res_owner) j
             (\<lambda>a. bindE (share_sub (locked_token a) (ul_amount u)) (\<lambda>x. bindE (share_add (unlocked_token a) (ul_amount u)) (\<lambda>y.
               Inr (a\<lparr>locked_token := x, unlocked_token := y, last_unlocked_time := mc_time c\<rparr>)))) (resources_of c)) (\<lambda>rt.
           decrease_votes (ul_account u) (ul_amount u) (set_resources rt c))))"

definition xmax_new_account :: "account_name \<Rightarrow> u64 \<Rightarrow> account_type \<Rightarrow> account_object generic_index
    \<Rightarrow> contract_exc + account_object generic_index" where
  "xmax_new_account n t ty = table_create (same_key acc_name)
     (\<lambda>_. \<lparr>acc_name = n, acc_type = ty, acc_creation = t, acc_contract_code = None\<rparr>)"

text \<open>The authority of the owner, and below it the active one.\<close>

definition new_authority :: "account_name \<Rightarrow> authority_name \<Rightarrow> int \<Rightarrow> authority \<Rightarrow> u64 \<Rightarrow> authority_object generic_index
    \<Rightarrow> contract_exc + authority_object generic_index" where
  "new_authority acc n parent a t = table_create (same_key ao_key)
     (\<lambda>_. \<lparr>ao_owner = acc, ao_name = n, ao_parent = parent, ao_auth = a, ao_updated = t\<rparr>)"

definition xmax_system_addaccount :: "addaccount_msg \<Rightarrow> msg_context \<Rightarrow> contract_exc + msg_context" where
  "xmax_system_addaccount m c =
     bindE (require_authorization (aa_creator m) c) (\<lambda>c.
       if table_find acc_name (aa_name m) (w_accounts (mc_world c)) \<noteq> None then Inl AccountExists
       else if \<not> 0 < as_amount (aa_deposit m) then Inl MessageValidate
       else bindE (xmax_new_account (aa_name m) (mc_time c) acc_personal (w_accounts (mc_world c))) (\<lambda>at.
         bindE (table_get tok_owner (aa_creator m) (tokens_of c)) (\<lambda>(i, creator_token).
         if \<not> as_amount (aa_deposit m) \<le> main_token creator_token then Inl MessageValidate
         else bindE (debit i (as_amount (aa_deposit m)) (tokens_of c)) (\<lambda>tt.
           bindE (table_create (same_key tok_owner) (\<lambda>_. \<lparr>tok_owner = aa_name m, main_token = as_amount (aa_deposit m)\<rparr>) tt) (\<lambda>tt.
           let auths = w_authorities (mc_world c); owner_id = gi_next_id auths
           in bindE (new_authority (aa_name m) xmax_owner_name 0 (aa_owner m) (mc_time c) auths) (\<lambda>auths.
             bindE (new_authority (aa_name m) xmax_active_name owner_id (aa_active m) (mc_time c) auths) (\<lambda>auths.
             Inr (set_authorities auths (set_tokens tt (set_accounts at c))))))))))"

section \<open>Gas\<close>

definition check_gaspayer :: "u64 \<Rightarrow> account_name \<Rightarrow> world \<Rightarrow> contract_exc + unit" where
  "check_gaspayer lim payer w =
     (if lim = 0 then Inr ()
      else bindE (table_get tok_owner payer (w_tokens w)) (\<lambda>(_, tok). assertE (lim \<le> of_int (main_token tok)) TrxExc ()))"

definition transfer_gas :: "account_name \<Rightarrow> account_name \<Rightarrow> u64 \<Rightarrow> world \<Rightarrow> contract_exc + world" where
  "transfer_gas payer bld gas_used w =
     (if gas_used = 0 then Inr w
      else bindE (table_get tok_owner payer (w_tokens w)) (\<lambda>(i, from).
        bindE (table_get tok_owner bld (w_tokens w)) (\<lambda>(j, _).
        if \<not> gas_used \<le> of_int (main_token from) then Inl TrxExc
        else bindE (debit i (sint gas_used) (w_tokens w)) (\<lambda>tt.
          bindE (credit j (sint gas_used) tt) (\<lambda>tt. Inr (w\<lparr>w_tokens := tt\<rparr>))))))"

section \<open>The system contract\<close>

text \<open>The calls of the system contract that touch tokens, stakes or votes.\<close>

datatype sys_call = Transfer transfer_msg | Lock lock_msg | Unlock unlock_msg | Addaccount addaccount_msg
  | Votebuilder votebuilder | Regbuilder account_name public_key | Unregbuilder account_name
  | Regproxy account_name | Unregproxy account_name

fun sys_apply :: "(int \<Rightarrow> voter_info_object) \<Rightarrow> sys_call \<Rightarrow> msg_context \<Rightarrow> contract_exc + msg_context" where
  "sys_apply mem (Transfer t) c = xmax_system_transfer t c"
| "sys_apply mem (Lock l) c = xmax_system_lock mem l c"
| "sys_apply mem (Unlock u) c = xmax_system_unlock u c"
| "sys_apply mem (Addaccount a) c = xmax_system_addaccount a c"
| "sys_apply mem (Votebuilder v) c = vote_builder v c"
| "sys_apply mem (Regbuilder b key) c = reg_builder b key c"
| "sys_apply mem (Unregbuilder b) c = unreg_builder b c"
| "sys_apply mem (Regproxy p) c = reg_proxy mem p c"
| "sys_apply mem (Unregproxy p) c = unreg_proxy p c"

end
