(* ===== verification/Contract_Votes.thy ===== *)
theory Contract_Votes
  imports Contract_Voting
begin

text \<open>
  The bookkeeping of votes. The invariant \<open>votes_inv\<close> says, of the tables of voters and builders: the votes
  proxied to a voter are the stakes of those who chose it as proxy, and the votes of a builder are the weights of the voters who list it.
  Every operation of \<^verbatim>\<open>xmax_voting\<close> keeps it, as long as the memory of new objects is zero where the code leaves it
  uninitialised. The next round consists of the best active builders.
\<close>

section \<open>What the votes should be\<close>

definition weight :: "voter_info_object \<Rightarrow> u128" where
  "weight v = of_int (staked v) + (if vi_is_proxy v \<noteq> 0 then proxied_votes v else 0)"

definition backing :: "account_name \<Rightarrow> voter_info_object \<Rightarrow> u128" where
  "backing b v = (if b \<in> set (vi_builders v) then weight v else 0)"

definition pledge :: "account_name \<Rightarrow> voter_info_object \<Rightarrow> u128" where
  "pledge k v = (if vi_proxy v = k then of_int (staked v) else 0)"

definition voter_ok :: "voter_info_object generic_index \<Rightarrow> builder_info_object generic_index \<Rightarrow> voter_info_object \<Rightarrow> bool" where
  "voter_ok vt bt v \<longleftrightarrow> increasing (vi_builders v) \<and> (\<forall>b \<in> set (vi_builders v). find_builder_info b bt \<noteq> None) \<and>
     (vi_proxy v \<noteq> 0 \<longrightarrow> vi_builders v = [] \<and> vi_is_proxy v = 0 \<and> vi_proxy v \<noteq> vi_owner v \<and> find_voter (vi_proxy v) vt \<noteq> None) \<and>
     unstaking v = 0"

definition votes_inv :: "voter_info_object generic_index \<Rightarrow> builder_info_object generic_index \<Rightarrow> bool" where
  "votes_inv vt bt \<longleftrightarrow> table_inv vi_owner vt \<and> table_inv bi_owner bt \<and>
     (\<forall>k i v. find_voter k vt = Some (i, v) \<longrightarrow> voter_ok vt bt v) \<and>
     (\<forall>k i v. k \<noteq> 0 \<longrightarrow> find_voter k vt = Some (i, v) \<longrightarrow> proxied_votes v = tally (pledge k) (\<lambda>k. find_voter k vt)) \<and>
     (\<forall>b i x. find_builder_info b bt = Some (i, x) \<longrightarrow> total_votes x = tally (backing b) (\<lambda>k. find_voter k vt))"

section \<open>Lists of names\<close>

lemma increasing_Cons: "increasing (x # xs) \<longleftrightarrow> increasing xs \<and> (\<forall>y \<in> set xs. x < y)"
  by (induction xs arbitrary: x) fastforce+

lemma increasing_distinct: "increasing xs \<Longrightarrow> distinct xs"
  by (induction xs) (auto simp: increasing_Cons)

lemma set_difference_set:
  "increasing xs \<Longrightarrow> increasing ys \<Longrightarrow> set (set_difference xs ys) = set xs - set ys \<and> increasing (set_difference xs ys)"
proof (induction xs ys rule: set_difference.induct)
  case (3 x xs y ys)
  consider "x < y" | "y < x" | "x = y" by fastforce
  then show ?case
  proof cases
    case 1
    then have "x \<notin> set (y # ys)" "\<forall>z \<in> set (set_difference xs (y # ys)). x < z"
      using 3 by (auto simp: increasing_Cons)
    then show ?thesis using 3 1 by (auto simp: increasing_Cons)
  next
    case 2
    then show ?thesis using 3 by (auto simp: increasing_Cons)
  next
    case 3
    then show ?thesis using "3.IH" "3.prems" by (auto simp: increasing_Cons)
  qed
qed auto

section \<open>Changing the votes of builders\<close>

lemma change_votes_look:
  "table_inv bi_owner g \<Longrightarrow> distinct ps \<Longrightarrow> change_votes f ps g = Inr g' \<Longrightarrow>
    table_inv bi_owner g' \<and> (\<forall>b. find_builder_info b g' =
      map_option (\<lambda>(i, x). (i, if b \<in> set ps then x\<lparr>total_votes := f (total_votes x)\<rparr> else x)) (find_builder_info b g))"
proof (induction ps arbitrary: g)
  case Nil
  then show ?case by (auto simp: option.map_ident_strong)
next
  case (Cons p ps)
  from Cons.prems(3) obtain i x g1 where p: "find_builder_info p g = Some (i, x)"
    and g1: "modify_builder_info i (\<lambda>b. b\<lparr>total_votes := f (total_votes b)\<rparr>) g = Inr g1" and rest: "change_votes f ps g1 = Inr g'"
    by (auto simp: bindE_Inr split: option.splits)
  have key: "bi_owner x = p" by (rule builders.look_key [OF Cons.prems(1) p])
  obtain inv1: "table_inv bi_owner g1"
    and look1: "\<And>b. find_builder_info b g1 = (if b = p then Some (i, x\<lparr>total_votes := f (total_votes x)\<rparr>) else find_builder_info b g)"
    by (rule builders.updateE [OF Cons.prems(1) p _ g1 [unfolded modify_builder_info_def]]) (auto simp: key)
  have "p \<notin> set ps" using Cons.prems(2) by simp
  then show ?case using Cons.IH [OF inv1 _ rest] Cons.prems(2) p by (auto simp: look1)
qed

lemma change_votes_found:
  "table_inv bi_owner g \<Longrightarrow> distinct ps \<Longrightarrow> change_votes f ps g = Inr g' \<Longrightarrow> p \<in> set ps \<Longrightarrow> find_builder_info p g \<noteq> None"
proof (induction ps arbitrary: g)
  case (Cons q ps)
  from Cons.prems(3) obtain i x g1 where q: "find_builder_info q g = Some (i, x)"
    and g1: "modify_builder_info i (\<lambda>b. b\<lparr>total_votes := f (total_votes b)\<rparr>) g = Inr g1" and rest: "change_votes f ps g1 = Inr g'"
    by (auto simp: bindE_Inr split: option.splits)
  have one: "change_votes f [q] g = Inr g1" using q g1 by simp
  show ?case
  proof (cases "p = q")
    case False
    then have "find_builder_info p g1 \<noteq> None"
      using Cons.IH [OF _ _ rest] Cons.prems change_votes_look [OF Cons.prems(1) _ one] by auto
    then show ?thesis using change_votes_look [OF Cons.prems(1) _ one] by auto
  qed (use q in simp)
qed simp

lemma elect_change: "elect direct votes ps g = Inr g' \<Longrightarrow> change_votes (\<lambda>t. t + votes) ps g = Inr g'"
  by (induction ps arbitrary: g) (auto simp: bindE_Inr split: option.splits if_splits)

section \<open>Changing voters\<close>

text \<open>The tally after one voter has changed.\<close>

lemma tally_diff:
  fixes F :: "voter_info_object \<Rightarrow> u128"
  assumes "table_inv vi_owner vt" and "find_voter k vt = Some (i, v)"
    and "\<And>k'. find_voter k' vt' = (if k' = k then Some (i, v') else find_voter k' vt)"
  shows "tally F (\<lambda>k. find_voter k vt') = tally F (\<lambda>k. find_voter k vt) - F v + F v'"
proof -
  have group: "x + a = y + b \<Longrightarrow> x = y - a + b" for x y a b :: u128 by (simp add: eq_diff_eq [symmetric])
  show ?thesis by (rule group [OF voters.update_tally [OF assms]])
qed

lemma modify_voter_look:
  assumes "table_inv vi_owner vt" and "find_voter k vt = Some (i, v)" and "vi_owner (f v) = vi_owner v"
    and "modify_voter i f vt = Inr vt'"
  shows "table_inv vi_owner vt' \<and> (\<forall>k'. find_voter k' vt' = (if k' = k then Some (i, f v) else find_voter k' vt))"
proof -
  have "vi_owner (f v) = k" using voters.look_key [OF assms(1,2)] assms(3) by simp
  then show ?thesis
    using voters.update_ok [of vt k i v "\<lambda>v. Inr (f v)" "f v", OF assms(1,2)] assms(4) by (simp add: modify_voter_def)
qed

lemma voter_ok_cong:
  assumes "voter_ok vt bt v" and "vi_owner v' = vi_owner v" "vi_proxy v' = vi_proxy v" "vi_builders v' = vi_builders v" "unstaking v' = unstaking v"
    and "vi_proxy v \<noteq> 0 \<Longrightarrow> vi_is_proxy v' = vi_is_proxy v"
    and "\<And>y. find_voter y vt' = None \<Longrightarrow> find_voter y vt = None" and "\<And>b. find_builder_info b bt' = None \<Longrightarrow> find_builder_info b bt = None"
  shows "voter_ok vt' bt' v'"
  using assms unfolding voter_ok_def by metis

lemma no_pledge:
  assumes inv: "votes_inv vt bt" and k: "find_voter k vt = None" and nz: "k \<noteq> 0"
  shows "tally (pledge k) (\<lambda>k. find_voter k vt) = 0"
proof -
  have "pledge k v = 0" if "find_voter k' vt = Some (i, v)" for k' i v
  proof -
    have "voter_ok vt bt v" using inv that by (auto simp: votes_inv_def)
    then show ?thesis using k nz by (auto simp: pledge_def voter_ok_def)
  qed
  then show ?thesis unfolding tally_def by (intro sum.neutral) auto
qed

text \<open>A change of the tables that keeps both sides of the two equations in step keeps the invariant.\<close>

lemma votes_inv_step:
  assumes inv: "votes_inv vt bt" and t: "table_inv vi_owner vt'" "table_inv bi_owner bt'"
    and ok: "\<And>k i v. find_voter k vt' = Some (i, v) \<Longrightarrow> voter_ok vt' bt' v"
    and prox: "\<And>k i v'. k \<noteq> 0 \<Longrightarrow> find_voter k vt' = Some (i, v') \<Longrightarrow>
      (find_voter k vt = None \<and> proxied_votes v' = tally (pledge k) (\<lambda>k. find_voter k vt')) \<or>
      (\<exists>v. find_voter k vt = Some (i, v) \<and>
        proxied_votes v' - proxied_votes v = tally (pledge k) (\<lambda>k. find_voter k vt') - tally (pledge k) (\<lambda>k. find_voter k vt))"
    and bld: "\<And>b i x'. find_builder_info b bt' = Some (i, x') \<Longrightarrow> \<exists>x. find_builder_info b bt = Some (i, x) \<and>
        total_votes x' - total_votes x = tally (backing b) (\<lambda>k. find_voter k vt') - tally (backing b) (\<lambda>k. find_voter k vt)"
  shows "votes_inv vt' bt'"
proof -
  have "proxied_votes v' = tally (pledge k) (\<lambda>k. find_voter k vt')" if "k \<noteq> 0" "find_voter k vt' = Some (i, v')" for k i v'
    using prox [OF that]
  proof
    assume "\<exists>v. find_voter k vt = Some (i, v) \<and>
        proxied_votes v' - proxied_votes v = tally (pledge k) (\<lambda>k. find_voter k vt') - tally (pledge k) (\<lambda>k. find_voter k vt)"
    then obtain v where v: "find_voter k vt = Some (i, v)"
      and d: "proxied_votes v' - proxied_votes v = tally (pledge k) (\<lambda>k. find_voter k vt') - tally (pledge k) (\<lambda>k. find_voter k vt)" by blast
    have "proxied_votes v = tally (pledge k) (\<lambda>k. find_voter k vt)" using inv v that(1) by (auto simp: votes_inv_def)
    then show ?thesis using d by simp
  qed blast
  moreover have "total_votes x' = tally (backing b) (\<lambda>k. find_voter k vt')" if b: "find_builder_info b bt' = Some (i, x')" for b i x'
  proof -
    obtain x where x: "find_builder_info b bt = Some (i, x)"
      and d: "total_votes x' - total_votes x = tally (backing b) (\<lambda>k. find_voter k vt') - tally (backing b) (\<lambda>k. find_voter k vt)"
      using bld [OF b] by blast
    have "total_votes x = tally (backing b) (\<lambda>k. find_voter k vt)" using inv x by (auto simp: votes_inv_def)
    then show ?thesis using d by simp
  qed
  ultimately show ?thesis using t ok unfolding votes_inv_def by blast
qed

section \<open>Stakes\<close>

text \<open>
  A change of a voter's stake by \<open>d\<close>, carried on to its proxy and to the builders, as \<^verbatim>\<open>increase_votes\<close> and \<^verbatim>\<open>decrease_votes\<close> do it.
\<close>

lemma stake_change:
  assumes inv: "votes_inv vt bt" and k: "find_voter k vt = Some (i, v)"
    and s: "of_int s' = (of_int (staked v) + d :: u128)" and v': "v' = v\<lparr>staked := s', last_update := t\<rparr>"
    and t1: "table_inv vi_owner vt1" and look1: "\<And>k'. find_voter k' vt1 = (if k' = k then Some (i, v') else find_voter k' vt)"
    and t2: "table_inv vi_owner vt2"
    and look2: "\<And>k'. find_voter k' vt2 = (if vi_proxy v \<noteq> 0 \<and> k' = vi_proxy v
        then Some (j, q\<lparr>proxied_votes := proxied_votes q + d\<rparr>) else find_voter k' vt1)"
    and q: "vi_proxy v \<noteq> 0 \<Longrightarrow> find_voter (vi_proxy v) vt = Some (j, q)"
    and blds: "blds = (if vi_proxy v = 0 then vi_builders v else if vi_is_proxy q \<noteq> 0 then vi_builders q else [])"
    and ch: "change_votes (\<lambda>t. t + d) blds bt = Inr bt'"
  shows "votes_inv vt2 bt'"
proof -
  define q' where "q' = q\<lparr>proxied_votes := proxied_votes q + d\<rparr>"
  have tabs: "table_inv vi_owner vt" "table_inv bi_owner bt" using inv by (auto simp: votes_inv_def)
  have vok: "voter_ok vt bt v" using inv k by (auto simp: votes_inv_def)
  have own: "vi_owner v = k" by (rule voters.look_key [OF tabs(1) k])
  have qok: "vi_proxy v \<noteq> 0 \<Longrightarrow> voter_ok vt bt q" using inv q by (auto simp: votes_inv_def)
  have ne: "vi_proxy v \<noteq> 0 \<Longrightarrow> vi_proxy v \<noteq> k" using vok own by (auto simp: voter_ok_def)
  have q1: "vi_proxy v \<noteq> 0 \<Longrightarrow> find_voter (vi_proxy v) vt1 = Some (j, q)" using q look1 ne by simp
  have "distinct blds" using vok qok blds by (auto simp: voter_ok_def increasing_distinct)
  note cb = change_votes_look [OF tabs(2) this ch]
  have tal: "tally F (\<lambda>k. find_voter k vt2) =
      tally F (\<lambda>k. find_voter k vt) - F v + F v' + (if vi_proxy v = 0 then 0 else F q' - F q)" for F :: "voter_info_object \<Rightarrow> u128"
  proof (cases "vi_proxy v = 0")
    case True
    then have "find_voter k' vt2 = find_voter k' vt1" for k' by (simp add: look2)
    then show ?thesis using True tally_diff [OF tabs(1) k look1, of F] by simp
  next
    case False
    have "find_voter k' vt2 = (if k' = vi_proxy v then Some (j, q') else find_voter k' vt1)" for k' using False by (simp add: look2 q'_def)
    from tally_diff [OF t1 q1 [OF False] this, of F] tally_diff [OF tabs(1) k look1, of F] False show ?thesis by simp
  qed
  show ?thesis
  proof (rule votes_inv_step [OF inv t2])
    show "table_inv bi_owner bt'" using cb by blast
  next
    fix k' i' u'
    assume u': "find_voter k' vt2 = Some (i', u')"
    obtain u where u: "find_voter k' vt = Some (i', u)" and same: "vi_owner u' = vi_owner u" "vi_proxy u' = vi_proxy u"
        "vi_is_proxy u' = vi_is_proxy u" "vi_builders u' = vi_builders u" "unstaking u' = unstaking u"
      using u' q k by (auto simp: look2 look1 v' split: if_splits)
    have "voter_ok vt bt u" using inv u by (auto simp: votes_inv_def)
    moreover have "find_voter x vt2 = None \<longleftrightarrow> find_voter x vt = None" for x using q k by (auto simp: look2 look1)
    ultimately show "voter_ok vt2 bt' u'" using cb by (auto simp: voter_ok_def same)
  next
    fix k' i' u'
    assume nz: "k' \<noteq> 0" and u': "find_voter k' vt2 = Some (i', u')"
    have pl: "tally (pledge k') (\<lambda>k. find_voter k vt2) - tally (pledge k') (\<lambda>k. find_voter k vt) = (if vi_proxy v = k' then d else 0)"
      using s by (auto simp: tal pledge_def v' q'_def)
    have "\<exists>u. find_voter k' vt = Some (i', u) \<and> proxied_votes u' - proxied_votes u = (if vi_proxy v = k' then d else 0)"
      using u' q k nz ne by (auto simp: look2 look1 v' split: if_splits)
    then show "find_voter k' vt = None \<and> proxied_votes u' = tally (pledge k') (\<lambda>k. find_voter k vt2) \<or>
      (\<exists>u. find_voter k' vt = Some (i', u) \<and>
        proxied_votes u' - proxied_votes u = tally (pledge k') (\<lambda>k. find_voter k vt2) - tally (pledge k') (\<lambda>k. find_voter k vt))"
      unfolding pl by blast
  next
    fix b i' x'
    assume x': "find_builder_info b bt' = Some (i', x')"
    obtain x where x: "find_builder_info b bt = Some (i', x)" "x' = (if b \<in> set blds then x\<lparr>total_votes := total_votes x + d\<rparr> else x)"
      using x' cb by fastforce
    then have d: "total_votes x' - total_votes x = (if b \<in> set blds then d else 0)" by simp
    have "tally (backing b) (\<lambda>k. find_voter k vt2) - tally (backing b) (\<lambda>k. find_voter k vt) = (if b \<in> set blds then d else 0)"
    proof (cases "vi_proxy v = 0")
      case True
      then show ?thesis using s blds by (auto simp: tal backing_def weight_def v')
    next
      case False
      then have "vi_builders v = []" using vok by (auto simp: voter_ok_def)
      then show ?thesis using False blds by (auto simp: tal backing_def weight_def v' q'_def)
    qed
    then show "\<exists>x. find_builder_info b bt = Some (i', x) \<and>
        total_votes x' - total_votes x = tally (backing b) (\<lambda>k. find_voter k vt2) - tally (backing b) (\<lambda>k. find_voter k vt)"
      using x d by auto
  qed
qed

text \<open>The step of both functions that carries the change on to the proxy.\<close>

lemma proxy_step:
  assumes inv: "votes_inv vt bt" and k: "find_voter k vt = Some (i, v)"
    and t1: "table_inv vi_owner vt1" and look1: "\<And>k'. find_voter k' vt1 = (if k' = k then Some (i, v') else find_voter k' vt)"
    and same: "vi_proxy v' = vi_proxy v" "vi_builders v' = vi_builders v"
    and step: "pass_to_proxy e (\<lambda>t. t + d) v' vt1 = Inr (vt2, blds)"
  obtains j q where "table_inv vi_owner vt2"
    and "\<And>k'. find_voter k' vt2 = (if vi_proxy v \<noteq> 0 \<and> k' = vi_proxy v
        then Some (j, q\<lparr>proxied_votes := proxied_votes q + d\<rparr>) else find_voter k' vt1)"
    and "vi_proxy v \<noteq> 0 \<Longrightarrow> find_voter (vi_proxy v) vt = Some (j, q)"
    and "blds = (if vi_proxy v = 0 then vi_builders v else if vi_is_proxy q \<noteq> 0 then vi_builders q else [])"
proof (cases "vi_proxy v = 0")
  case True
  then show ?thesis using step t1 same by (intro that) (auto simp: pass_to_proxy_def)
next
  case False
  have "voter_ok vt bt v" "vi_owner v = k" using inv k voters.look_key [OF _ k] by (auto simp: votes_inv_def)
  then have ne: "vi_proxy v \<noteq> k" using False by (auto simp: voter_ok_def)
  obtain j q where q: "find_voter (vi_proxy v) vt1 = Some (j, q)"
    and m: "modify_voter j (\<lambda>a. a\<lparr>proxied_votes := proxied_votes a + d\<rparr>) vt1 = Inr vt2"
    and b: "blds = (if vi_is_proxy q \<noteq> 0 then vi_builders q else [])"
    using step False same by (auto simp: pass_to_proxy_def bindE_Inr split: option.splits)
  have "table_inv vi_owner vt2 \<and> (\<forall>k'. find_voter k' vt2 =
      (if k' = vi_proxy v then Some (j, q\<lparr>proxied_votes := proxied_votes q + d\<rparr>) else find_voter k' vt1))"
    using modify_voter_look [OF t1 q _ m] by simp
  moreover have "find_voter (vi_proxy v) vt = Some (j, q)" using q ne by (simp add: look1)
  ultimately show ?thesis using False b by (intro that [of j q]) auto
qed

lemma world_of_sets [simp]:
  "voters_of (set_builder_infos bt c) = voters_of c" "builders_of (set_builder_infos bt c) = bt"
  "voters_of (set_voters vt c) = vt" "builders_of (set_voters vt c) = builders_of c"
  by (simp_all add: set_builder_infos_def set_voters_def)

lemma votes_inv_ok: "votes_inv vt bt \<Longrightarrow> find_voter k vt = Some (i, v) \<Longrightarrow> voter_ok vt bt v"
  unfolding votes_inv_def by blast

text \<open>A new voter, without proxy and votes.\<close>

lemma create_voter_inv:
  assumes inv: "votes_inv vt bt" and a: "find_voter a vt = None"
    and nv: "\<And>i. vi_owner (nv i) = a" "\<And>i. vi_proxy (nv i) = 0" "\<And>i. vi_builders (nv i) = []" "\<And>i. proxied_votes (nv i) = 0" "\<And>i. unstaking (nv i) = 0"
    and cr: "table_create (same_key vi_owner) nv vt = Inr vt'"
  shows "votes_inv vt' bt \<and> find_voter a vt' = Some (gi_next_id vt, nv (gi_next_id vt))"
proof -
  define n where "n = gi_next_id vt"
  have t: "table_inv vi_owner vt" "table_inv bi_owner bt" using inv by (auto simp: votes_inv_def)
  obtain t': "table_inv vi_owner vt'" and look: "\<And>k'. find_voter k' vt' = (if k' = a then Some (n, nv n) else find_voter k' vt)"
    by (rule voters.createE [OF t(1) cr]) (auto simp: nv n_def)
  have tal: "tally F (\<lambda>k. find_voter k vt') = F (nv n) + tally F (\<lambda>k. find_voter k vt)" for F :: "voter_info_object \<Rightarrow> u128"
    by (rule voters.create_tally [OF t(1) a look])
  have "votes_inv vt' bt"
  proof (rule votes_inv_step [OF inv t' t(2)])
    fix k i v
    assume v: "find_voter k vt' = Some (i, v)"
    show "voter_ok vt' bt v"
    proof (cases "k = a")
      case True
      then have "v = nv n" using v by (auto simp: look)
      then show ?thesis by (simp add: voter_ok_def nv)
    next
      case False
      then have "voter_ok vt bt v" using v votes_inv_ok [OF inv] by (simp add: look)
      then show ?thesis by (auto simp: voter_ok_def look)
    qed
  next
    fix k i v'
    assume nz: "k \<noteq> 0" and v': "find_voter k vt' = Some (i, v')"
    show "find_voter k vt = None \<and> proxied_votes v' = tally (pledge k) (\<lambda>k. find_voter k vt') \<or>
        (\<exists>v. find_voter k vt = Some (i, v) \<and>
          proxied_votes v' - proxied_votes v = tally (pledge k) (\<lambda>k. find_voter k vt') - tally (pledge k) (\<lambda>k. find_voter k vt))"
    proof (cases "k = a")
      case True
      then have "v' = nv n" using v' by (auto simp: look)
      then show ?thesis using True nz a no_pledge [OF inv a] by (simp add: tal pledge_def nv)
    next
      case False
      then have "find_voter k vt = Some (i, v')" using v' by (simp add: look)
      then show ?thesis using nz by (simp add: tal pledge_def nv)
    qed
  next
    fix b i x'
    assume "find_builder_info b bt = Some (i, x')"
    then show "\<exists>x. find_builder_info b bt = Some (i, x) \<and>
        total_votes x' - total_votes x = tally (backing b) (\<lambda>k. find_voter k vt') - tally (backing b) (\<lambda>k. find_voter k vt)"
      by (simp add: tal backing_def nv)
  qed
  then show ?thesis by (simp add: look n_def)
qed

text \<open>Changes of a voter that do not touch its votes.\<close>

lemma same_voter_inv:
  assumes inv: "votes_inv vt bt" and k: "find_voter k vt = Some (i, v)"
    and t1: "table_inv vi_owner vt1" and look1: "\<And>k'. find_voter k' vt1 = (if k' = k then Some (i, v') else find_voter k' vt)"
    and same: "vi_owner v' = vi_owner v" "vi_proxy v' = vi_proxy v" "vi_is_proxy v' = vi_is_proxy v" "proxied_votes v' = proxied_votes v"
      "vi_builders v' = vi_builders v" "staked v' = staked v" "unstaking v' = unstaking v"
  shows "votes_inv vt1 bt"
proof -
  have t: "table_inv vi_owner vt" "table_inv bi_owner bt" using inv by (auto simp: votes_inv_def)
  have tal: "tally F (\<lambda>k. find_voter k vt1) = tally F (\<lambda>k. find_voter k vt)" if "F v' = F v" for F :: "voter_info_object \<Rightarrow> u128"
    using tally_diff [OF t(1) k look1, of F] that by simp
  have w: "pledge x v' = pledge x v" "backing x v' = backing x v" for x by (simp_all add: pledge_def backing_def weight_def same)
  show ?thesis
  proof (rule votes_inv_step [OF inv t1 t(2)])
    fix x j u
    assume u: "find_voter x vt1 = Some (j, u)"
    have dom: "find_voter y vt1 = None \<Longrightarrow> find_voter y vt = None" for y using k by (simp add: look1 split: if_splits)
    show "voter_ok vt1 bt u"
    proof (cases "x = k")
      case True
      then have "u = v'" using u by (auto simp: look1)
      then show ?thesis by (intro voter_ok_cong [OF votes_inv_ok [OF inv k]]) (simp_all add: same dom)
    next
      case False
      then have "find_voter x vt = Some (j, u)" using u by (simp add: look1)
      then show ?thesis by (intro voter_ok_cong [OF votes_inv_ok [OF inv]]) (simp_all add: dom)
    qed
  next
    fix x j u
    assume "find_voter x vt1 = Some (j, u)"
    then have "\<exists>w. find_voter x vt = Some (j, w) \<and> proxied_votes u = proxied_votes w"
      using k same(4) by (auto simp: look1 split: if_splits)
    then show "find_voter x vt = None \<and> proxied_votes u = tally (pledge x) (\<lambda>k. find_voter k vt1) \<or>
        (\<exists>w. find_voter x vt = Some (j, w) \<and>
          proxied_votes u - proxied_votes w = tally (pledge x) (\<lambda>k. find_voter k vt1) - tally (pledge x) (\<lambda>k. find_voter k vt))"
      by (auto simp: tal [OF w(1)])
  next
    fix b j x
    assume "find_builder_info b bt = Some (j, x)"
    then show "\<exists>y. find_builder_info b bt = Some (j, y) \<and>
        total_votes x - total_votes y = tally (backing b) (\<lambda>k. find_voter k vt1) - tally (backing b) (\<lambda>k. find_voter k vt)"
      by (simp add: tal [OF w(2)])
  qed
qed

lemma increase_votes_inv:
  assumes inv: "votes_inv (voters_of c) (builders_of c)" and mem: "\<And>i. unstaking (mem i) = 0"
    and r: "increase_votes mem acnt amount c = Inr c'"
  shows "votes_inv (voters_of c') (builders_of c')"
proof (cases "find_voter acnt (voters_of c)")
  case None
  define nv where "nv = (\<lambda>i. (new_voter mem i)\<lparr>vi_owner := acnt, last_update := mc_time c, staked := amount\<rparr>)"
  have nv: "vi_owner (nv i) = acnt" "vi_proxy (nv i) = 0" "vi_builders (nv i) = []" "proxied_votes (nv i) = 0" "unstaking (nv i) = 0" for i
    using mem by (simp_all add: nv_def new_voter_def)
  obtain vt where cr: "table_create (same_key vi_owner) nv (voters_of c) = Inr vt"
    using r None by (auto simp: increase_votes_def nv_def [symmetric] bindE_Inr)
  have "find_voter acnt vt = Some (gi_next_id (voters_of c), nv (gi_next_id (voters_of c)))" "votes_inv vt (builders_of c)"
    using create_voter_inv [OF inv None nv cr] by blast+
  then show ?thesis using r None cr by (auto simp: increase_votes_def nv_def [symmetric] nv pass_to_proxy_def)
next
  case (Some p)
  then obtain i v where k: "find_voter acnt (voters_of c) = Some (i, v)" by (cases p) auto
  have t: "table_inv vi_owner (voters_of c)" using inv by (auto simp: votes_inv_def)
  define f where "f = (\<lambda>v::voter_info_object. bindE (share_add (staked v) amount) (\<lambda>s. Inr (v\<lparr>last_update := mc_time c, staked := s\<rparr>)))"
  obtain vt1 where u: "table_update (same_key vi_owner) i f (voters_of c) = Inr vt1"
    using r k by (auto simp: increase_votes_def f_def [symmetric] bindE_Inr)
  have "\<And>v'. f v = Inr v' \<Longrightarrow> vi_owner v' = acnt" using voters.look_key [OF t k] by (auto simp: f_def bindE_Inr)
  from voters.updateE [OF t k this u] obtain v' where v': "f v = Inr v'" and t1: "table_inv vi_owner vt1"
    and look1: "\<And>k'. find_voter k' vt1 = (if k' = acnt then Some (i, v') else find_voter k' (voters_of c))" by blast
  obtain s' where s': "share_add (staked v) amount = Inr s'" and v'e: "v' = v\<lparr>staked := s', last_update := mc_time c\<rparr>"
    using v' by (auto simp: f_def bindE_Inr)
  have s: "of_int s' = (of_int (staked v) + of_int amount :: u128)" using s' by (auto simp: share_add_def split: if_splits)
  have same: "vi_proxy v' = vi_proxy v" "vi_builders v' = vi_builders v" by (simp_all add: v'e)
  obtain vt2 blds bt where step: "pass_to_proxy MessageValidate (\<lambda>t. t + of_int amount) v' vt1 = Inr (vt2, blds)"
    and ch: "change_votes (\<lambda>t. t + of_int amount) blds (builders_of c) = Inr bt" and c': "c' = set_builder_infos bt (set_voters vt2 c)"
    using r k u by (auto simp: increase_votes_def f_def [symmetric] bindE_Inr look1)
  obtain j q where "table_inv vi_owner vt2"
    and "\<And>k'. find_voter k' vt2 = (if vi_proxy v \<noteq> 0 \<and> k' = vi_proxy v
        then Some (j, q\<lparr>proxied_votes := proxied_votes q + of_int amount\<rparr>) else find_voter k' vt1)"
    and "vi_proxy v \<noteq> 0 \<Longrightarrow> find_voter (vi_proxy v) (voters_of c) = Some (j, q)"
    and "blds = (if vi_proxy v = 0 then vi_builders v else if vi_is_proxy q \<noteq> 0 then vi_builders q else [])"
    by (rule proxy_step [OF inv k t1 look1 same step]) blast
  from stake_change [OF inv k s v'e t1 look1 this ch] show ?thesis unfolding c' by simp
qed

lemma decrease_votes_inv:
  assumes inv: "votes_inv (voters_of c) (builders_of c)" and r: "decrease_votes acnt amount c = Inr c'"
  shows "votes_inv (voters_of c') (builders_of c')"
proof -
  obtain i v where k: "find_voter acnt (voters_of c) = Some (i, v)" using r by (auto simp: decrease_votes_def split: option.splits)
  have t: "table_inv vi_owner (voters_of c)" using inv by (auto simp: votes_inv_def)
  have own: "vi_owner v = acnt" by (rule voters.look_key [OF t k])
  show ?thesis
  proof (cases "0 < amount")
    case True
    define f where "f = (\<lambda>v::voter_info_object. bindE (share_sub (staked v) amount) (\<lambda>s. Inr (v\<lparr>staked := s, last_update := mc_time c\<rparr>)))"
    obtain vt1 where u: "table_update (same_key vi_owner) i f (voters_of c) = Inr vt1"
      using r k True by (auto simp: decrease_votes_def f_def [symmetric] bindE_Inr split: if_splits)
    have "\<And>v'. f v = Inr v' \<Longrightarrow> vi_owner v' = acnt" using own by (auto simp: f_def bindE_Inr)
    from voters.updateE [OF t k this u] obtain v' where v': "f v = Inr v'" and t1: "table_inv vi_owner vt1"
      and look1: "\<And>k'. find_voter k' vt1 = (if k' = acnt then Some (i, v') else find_voter k' (voters_of c))" by blast
    obtain s' where s': "share_sub (staked v) amount = Inr s'" and v'e: "v' = v\<lparr>staked := s', last_update := mc_time c\<rparr>"
      using v' by (auto simp: f_def bindE_Inr)
    have s: "of_int s' = (of_int (staked v) + - of_int amount :: u128)" using s' by (auto simp: share_sub_def split: if_splits)
    have same: "vi_proxy v' = vi_proxy v" "vi_builders v' = vi_builders v" by (simp_all add: v'e)
    have pv: "pass_to_proxy e f v' g = pass_to_proxy e f v g" for e f g by (simp add: pass_to_proxy_def same)
    obtain vt2 blds bt where step: "pass_to_proxy Ub (\<lambda>t. t + - of_int amount) v' vt1 = Inr (vt2, blds)"
      and ch: "change_votes (\<lambda>t. t + - of_int amount) blds (builders_of c) = Inr bt" and c': "c' = set_builder_infos bt (set_voters vt2 c)"
      using r k u True by (auto simp: decrease_votes_def f_def [symmetric] bindE_Inr pv split: if_splits)
    obtain j q where "table_inv vi_owner vt2"
      and "\<And>k'. find_voter k' vt2 = (if vi_proxy v \<noteq> 0 \<and> k' = vi_proxy v
          then Some (j, q\<lparr>proxied_votes := proxied_votes q + - of_int amount\<rparr>) else find_voter k' vt1)"
      and "vi_proxy v \<noteq> 0 \<Longrightarrow> find_voter (vi_proxy v) (voters_of c) = Some (j, q)"
      and "blds = (if vi_proxy v = 0 then vi_builders v else if vi_is_proxy q \<noteq> 0 then vi_builders q else [])"
      by (rule proxy_step [OF inv k t1 look1 same step]) blast
    from stake_change [OF inv k s v'e t1 look1 this ch] show ?thesis unfolding c' by simp
  next
    case False
    define f where "f = (\<lambda>v::voter_info_object. bindE (share_add (staked v) (unstaking v)) (\<lambda>s. Inr (v\<lparr>staked := s, unstaking := 0, unstake_per_week := 0,
      deferred_trx_id := 0, last_update := mc_time c\<rparr>)))"
    obtain vt1 where u: "table_update (same_key vi_owner) i f (voters_of c) = Inr vt1" and c': "c' = set_voters vt1 c"
      using r k False by (auto simp: decrease_votes_def f_def [symmetric] bindE_Inr)
    have "\<And>v'. f v = Inr v' \<Longrightarrow> vi_owner v' = acnt" using own by (auto simp: f_def bindE_Inr)
    from voters.updateE [OF t k this u] obtain v' where v': "f v = Inr v'" and t1: "table_inv vi_owner vt1"
      and look1: "\<And>k'. find_voter k' vt1 = (if k' = acnt then Some (i, v') else find_voter k' (voters_of c))" by blast
    have un: "unstaking v = 0" using votes_inv_ok [OF inv k] by (simp add: voter_ok_def)
    have v'e: "v' = v\<lparr>staked := staked v, unstaking := 0, unstake_per_week := 0, deferred_trx_id := 0, last_update := mc_time c\<rparr>"
      using v' un by (auto simp: f_def bindE_Inr share_add_def split: if_splits)
    show ?thesis unfolding c' world_of_sets by (rule same_voter_inv [OF inv k t1 look1]) (auto simp: v'e un)
  qed
qed

section \<open>Proxies and builders come and go\<close>

lemma reweigh:
  assumes inv: "votes_inv vt bt" and k: "find_voter k vt = Some (i, v)"
    and t1: "table_inv vi_owner vt1" and look1: "\<And>k'. find_voter k' vt1 = (if k' = k then Some (i, v') else find_voter k' vt)"
    and same: "vi_owner v' = vi_owner v" "vi_proxy v' = vi_proxy v" "proxied_votes v' = proxied_votes v"
      "vi_builders v' = vi_builders v" "staked v' = staked v" "unstaking v' = unstaking v" and p: "vi_proxy v = 0"
    and tb: "table_inv bi_owner bt'" and lookb: "\<And>b. find_builder_info b bt' =
      map_option (\<lambda>(i, x). (i, if b \<in> set (vi_builders v) then x\<lparr>total_votes := total_votes x + d\<rparr> else x)) (find_builder_info b bt)"
    and d: "weight v' = weight v + d"
  shows "votes_inv vt1 bt'"
proof -
  have t: "table_inv vi_owner vt" using inv by (auto simp: votes_inv_def)
  have tal: "tally F (\<lambda>k. find_voter k vt1) = tally F (\<lambda>k. find_voter k vt) - F v + F v'" for F :: "voter_info_object \<Rightarrow> u128"
    by (rule tally_diff [OF t k look1])
  have pl: "pledge x v' = pledge x v" for x by (simp add: pledge_def same)
  show ?thesis
  proof (rule votes_inv_step [OF inv t1 tb])
    fix x j u
    assume u: "find_voter x vt1 = Some (j, u)"
    have dom: "find_voter y vt1 = None \<Longrightarrow> find_voter y vt = None" "find_builder_info b bt' = None \<Longrightarrow> find_builder_info b bt = None" for y b
      using k by (simp_all add: look1 lookb split: if_splits)
    show "voter_ok vt1 bt' u"
    proof (cases "x = k")
      case True
      then have "u = v'" using u by (auto simp: look1)
      then show ?thesis by (intro voter_ok_cong [OF votes_inv_ok [OF inv k]]) (simp_all add: same dom p)
    next
      case False
      then have "find_voter x vt = Some (j, u)" using u by (simp add: look1)
      then show ?thesis by (intro voter_ok_cong [OF votes_inv_ok [OF inv]]) (simp_all add: dom)
    qed
  next
    fix x j u
    assume "find_voter x vt1 = Some (j, u)"
    then have "\<exists>w. find_voter x vt = Some (j, w) \<and> proxied_votes u = proxied_votes w"
      using k same(3) by (auto simp: look1 split: if_splits)
    then show "find_voter x vt = None \<and> proxied_votes u = tally (pledge x) (\<lambda>k. find_voter k vt1) \<or>
        (\<exists>w. find_voter x vt = Some (j, w) \<and>
          proxied_votes u - proxied_votes w = tally (pledge x) (\<lambda>k. find_voter k vt1) - tally (pledge x) (\<lambda>k. find_voter k vt))"
      by (auto simp: tal pl)
  next
    fix b j x'
    assume "find_builder_info b bt' = Some (j, x')"
    then obtain x where "find_builder_info b bt = Some (j, x)"
      "x' = (if b \<in> set (vi_builders v) then x\<lparr>total_votes := total_votes x + d\<rparr> else x)"
      unfolding lookb by auto
    then show "\<exists>x. find_builder_info b bt = Some (j, x) \<and>
        total_votes x' - total_votes x = tally (backing b) (\<lambda>k. find_voter k vt1) - tally (backing b) (\<lambda>k. find_voter k vt)"
      by (simp add: tal backing_def same d)
  qed
qed

text \<open>The builders of a proxy get or lose the votes proxied to it.\<close>

lemma proxy_votes_look:
  assumes inv: "votes_inv vt bt" and k: "find_voter k vt = Some (i, v)" and f: "f = (\<lambda>t. t + d)" and d: "proxied_votes v = 0 \<Longrightarrow> d = 0"
    and r: "(if 0 < proxied_votes v then change_votes f (vi_builders v) bt else Inr bt) = Inr bt'"
  shows "table_inv bi_owner bt' \<and> (\<forall>b. find_builder_info b bt' =
    map_option (\<lambda>(i, x). (i, if b \<in> set (vi_builders v) then x\<lparr>total_votes := total_votes x + d\<rparr> else x)) (find_builder_info b bt))"
proof -
  have t: "table_inv bi_owner bt" using inv by (auto simp: votes_inv_def)
  have dist: "distinct (vi_builders v)" using votes_inv_ok [OF inv k] by (simp add: voter_ok_def increasing_distinct)
  show ?thesis
  proof (cases "0 < proxied_votes v")
    case True
    then show ?thesis using change_votes_look [OF t dist, of "\<lambda>t. t + d" bt'] r f by simp
  next
    case False
    then have "proxied_votes v = 0" by (simp add: word_gt_0)
    then have "bt' = bt" "d = 0" using r d by simp_all
    moreover have "map_option (\<lambda>(i, x). (i, if P then x\<lparr>total_votes := total_votes x + 0\<rparr> else x)) m = m"
      for P and m :: "(int \<times> builder_info_object) option" by (cases m) auto
    ultimately show ?thesis using t by (simp only:) simp
  qed
qed

lemma reg_proxy_inv:
  assumes inv: "votes_inv (voters_of c) (builders_of c)" and mem: "\<And>i. unstaking (mem i) = 0" and r: "reg_proxy mem p c = Inr c'"
  shows "votes_inv (voters_of c') (builders_of c')"
proof (cases "find_voter p (voters_of c)")
  case None
  define nv where "nv = (\<lambda>i. (new_voter mem i)\<lparr>vi_owner := p, last_update := mc_time c, vi_proxy := 0, vi_is_proxy := 1, proxied_votes := 0, staked := 0\<rparr>)"
  have nv: "vi_owner (nv i) = p" "vi_proxy (nv i) = 0" "vi_builders (nv i) = []" "proxied_votes (nv i) = 0" "unstaking (nv i) = 0" for i
    using mem by (simp_all add: nv_def new_voter_def)
  obtain vt where cr: "table_create (same_key vi_owner) nv (voters_of c) = Inr vt" and c': "c' = set_voters vt c"
    using r None by (auto simp: reg_proxy_def nv_def [symmetric] bindE_Inr)
  show ?thesis using create_voter_inv [OF inv None nv cr] by (simp add: c')
next
  case (Some x)
  then obtain i v where k: "find_voter p (voters_of c) = Some (i, v)" by (cases x) auto
  have t: "table_inv vi_owner (voters_of c)" using inv by (auto simp: votes_inv_def)
  obtain vt bt where z: "vi_is_proxy v = 0" "vi_proxy v = 0"
    and m: "modify_voter i (\<lambda>a. a\<lparr>vi_is_proxy := 1, last_update := mc_time c\<rparr>) (voters_of c) = Inr vt"
    and b: "(if 0 < proxied_votes v then change_votes (\<lambda>t. t + proxied_votes v) (vi_builders v) (builders_of c) else Inr (builders_of c)) = Inr bt"
    and c': "c' = set_builder_infos bt (set_voters vt c)"
    using r k by (auto simp: reg_proxy_def bindE_Inr split: if_splits)
  note mv = modify_voter_look [OF t k _ m]
  note pb = proxy_votes_look [OF inv k, of _ "proxied_votes v", OF _ _ b]
  have w: "weight (v\<lparr>vi_is_proxy := 1, last_update := mc_time c\<rparr>) = weight v + proxied_votes v" using z by (simp add: weight_def)
  show ?thesis unfolding c' world_of_sets
    by (rule reweigh [OF inv k _ _ _ _ _ _ _ _ _ _ _ w]) (use mv pb z in simp_all)
qed

lemma unreg_proxy_inv:
  assumes inv: "votes_inv (voters_of c) (builders_of c)" and r: "unreg_proxy p c = Inr c'"
  shows "votes_inv (voters_of c') (builders_of c')"
proof -
  obtain i v vt bt where k: "find_voter p (voters_of c) = Some (i, v)" and one: "vi_is_proxy v = 1"
    and m: "modify_voter i (\<lambda>a. a\<lparr>vi_is_proxy := 0, last_update := mc_time c\<rparr>) (voters_of c) = Inr vt"
    and b: "(if 0 < proxied_votes v then change_votes (\<lambda>t. t - proxied_votes v) (vi_builders v) (builders_of c) else Inr (builders_of c)) = Inr bt"
    and c': "c' = set_builder_infos bt (set_voters vt c)"
    using r by (auto simp: unreg_proxy_def bindE_Inr split: option.splits if_splits)
  have t: "table_inv vi_owner (voters_of c)" using inv by (auto simp: votes_inv_def)
  have z: "vi_proxy v = 0" using votes_inv_ok [OF inv k] one by (auto simp: voter_ok_def)
  note mv = modify_voter_look [OF t k _ m]
  note pb = proxy_votes_look [OF inv k, of _ "- proxied_votes v", OF _ _ b]
  have w: "weight (v\<lparr>vi_is_proxy := 0, last_update := mc_time c\<rparr>) = weight v + - proxied_votes v" using one by (simp add: weight_def)
  show ?thesis unfolding c' world_of_sets
    by (rule reweigh [OF inv k _ _ _ _ _ _ _ _ _ _ _ w]) (use mv pb z in simp_all)
qed

lemma builder_key_inv:
  assumes inv: "votes_inv vt bt" and b: "find_builder_info b bt = Some (i, x)"
    and m: "modify_builder_info i (\<lambda>x. x\<lparr>builder_key := key\<rparr>) bt = Inr bt'"
  shows "votes_inv vt bt'"
proof -
  have t: "table_inv vi_owner vt" "table_inv bi_owner bt" using inv by (auto simp: votes_inv_def)
  have own: "bi_owner x = b" by (rule builders.look_key [OF t(2) b])
  obtain t': "table_inv bi_owner bt'"
    and look: "\<And>k. find_builder_info k bt' = (if k = b then Some (i, x\<lparr>builder_key := key\<rparr>) else find_builder_info k bt)"
    by (rule builders.updateE [OF t(2) b _ m [unfolded modify_builder_info_def]]) (auto simp: own)
  show ?thesis
  proof (rule votes_inv_step [OF inv t(1) t'])
    fix k j v
    assume "find_voter k vt = Some (j, v)"
    then show "voter_ok vt bt' v" by (intro voter_ok_cong [OF votes_inv_ok [OF inv]]) (auto simp: look split: if_splits)
  qed (use b in \<open>auto simp: look split: if_splits\<close>)
qed

lemma reg_builder_inv:
  assumes inv: "votes_inv (voters_of c) (builders_of c)" and r: "reg_builder b key c = Inr c'"
  shows "votes_inv (voters_of c') (builders_of c')"
proof (cases "find_builder_info b (builders_of c)")
  case (Some p)
  obtain i x where b: "find_builder_info b (builders_of c) = Some (i, x)" using Some by (cases p) auto
  obtain bt where m: "modify_builder_info i (\<lambda>x. x\<lparr>builder_key := key\<rparr>) (builders_of c) = Inr bt" and c': "c' = set_builder_infos bt c"
    using r b by (auto simp: reg_builder_def bindE_Inr)
  show ?thesis using builder_key_inv [OF inv b m] by (simp add: c')
next
  case None
  define nb where "nb = \<lparr>bi_owner = b, total_votes = 0, builder_key = key\<rparr>"
  have t: "table_inv vi_owner (voters_of c)" "table_inv bi_owner (builders_of c)" using inv by (auto simp: votes_inv_def)
  obtain bt where cr: "table_create (same_key bi_owner) (\<lambda>_. nb) (builders_of c) = Inr bt" and c': "c' = set_builder_infos bt c"
    using r None by (auto simp: reg_builder_def nb_def bindE_Inr)
  have own: "bi_owner nb = b" by (simp add: nb_def)
  have t': "table_inv bi_owner bt"
    and look: "\<And>k. find_builder_info k bt = (if k = b then Some (gi_next_id (builders_of c), nb) else find_builder_info k (builders_of c))"
    using builders.create_ok [OF t(2), of "\<lambda>_. nb"] None cr by (simp_all add: own)
  have ok: "voter_ok (voters_of c) bt v" if "find_voter k (voters_of c) = Some (i, v)" for k i v
    by (rule voter_ok_cong [OF votes_inv_ok [OF inv that]]) (simp_all add: look split: if_splits)
  have "backing b v = 0" if "find_voter k (voters_of c) = Some (i, v)" for k i v
    using votes_inv_ok [OF inv that] None by (auto simp: voter_ok_def backing_def)
  then have "tally (backing b) (\<lambda>k. find_voter k (voters_of c)) = 0" unfolding tally_def by (intro sum.neutral) auto
  then have "total_votes x = tally (backing k) (\<lambda>k. find_voter k (voters_of c))" if "find_builder_info k bt = Some (i, x)" for k i x
    using that inv by (cases "k = b") (auto simp: look nb_def votes_inv_def)
  then show ?thesis using inv ok t t' unfolding c' world_of_sets votes_inv_def by blast
qed

lemma unreg_builder_inv:
  assumes inv: "votes_inv (voters_of c) (builders_of c)" and r: "unreg_builder b c = Inr c'"
  shows "votes_inv (voters_of c') (builders_of c')"
proof -
  obtain i x bt where b: "find_builder_info b (builders_of c) = Some (i, x)"
    and m: "modify_builder_info i (\<lambda>x. x\<lparr>builder_key := empty_public_key\<rparr>) (builders_of c) = Inr bt" and c': "c' = set_builder_infos bt c"
    using r by (auto simp: unreg_builder_def bindE_Inr split: option.splits)
  show ?thesis using builder_key_inv [OF inv b m] by (simp add: c')
qed

section \<open>Votes\<close>

text \<open>
  The proxied votes of the voter \<open>q\<close> have changed by \<open>d\<close>, and nothing else; \<open>blds\<close> are the builders this concerns.
\<close>

definition shifted :: "voter_info_object generic_index \<Rightarrow> voter_info_object generic_index \<Rightarrow> account_name \<Rightarrow> u128 \<Rightarrow> account_name list \<Rightarrow> bool" where
  "shifted vt vt' q d blds \<longleftrightarrow> table_inv vi_owner vt' \<and>
     (\<forall>k. find_voter k vt' = map_option (\<lambda>(i, u). (i, u\<lparr>proxied_votes := proxied_votes u + (if q \<noteq> 0 \<and> k = q then d else 0)\<rparr>)) (find_voter k vt)) \<and>
     (\<forall>b. tally (backing b) (\<lambda>k. find_voter k vt') = tally (backing b) (\<lambda>k. find_voter k vt) + (if q \<noteq> 0 \<and> b \<in> set blds then d else 0)) \<and>
     (\<forall>k. tally (pledge k) (\<lambda>k. find_voter k vt') = tally (pledge k) (\<lambda>k. find_voter k vt))"

lemma shiftedI:
  assumes t: "table_inv vi_owner vt" and q: "find_voter q vt = Some (j, u)"
    and m: "modify_voter j (\<lambda>a. a\<lparr>proxied_votes := proxied_votes a + d\<rparr>) vt = Inr vt'" and "q \<noteq> 0"
    and blds: "blds = (if vi_is_proxy u \<noteq> 0 then vi_builders u else [])"
  shows "shifted vt vt' q d blds"
proof -
  define u' where "u' = u\<lparr>proxied_votes := proxied_votes u + d\<rparr>"
  have t': "table_inv vi_owner vt'" and look: "find_voter k vt' = (if k = q then Some (j, u') else find_voter k vt)" for k
    using modify_voter_look [OF t q _ m] by (simp_all add: u'_def)
  have tal: "tally F (\<lambda>k. find_voter k vt') = tally F (\<lambda>k. find_voter k vt) - F u + F u'" for F :: "voter_info_object \<Rightarrow> u128"
    by (rule tally_diff [OF t q look])
  have "find_voter k vt' = map_option (\<lambda>(i, u). (i, u\<lparr>proxied_votes := proxied_votes u + (if q \<noteq> 0 \<and> k = q then d else 0)\<rparr>)) (find_voter k vt)" for k
    using q \<open>q \<noteq> 0\<close> by (cases "find_voter k vt") (auto simp: look u'_def)
  moreover have "tally (pledge k) (\<lambda>k. find_voter k vt') = tally (pledge k) (\<lambda>k. find_voter k vt)" for k
    by (simp add: tal pledge_def u'_def)
  moreover have "tally (backing b) (\<lambda>k. find_voter k vt') =
      tally (backing b) (\<lambda>k. find_voter k vt) + (if q \<noteq> 0 \<and> b \<in> set blds then d else 0)" for b
    using \<open>q \<noteq> 0\<close> by (auto simp: tal backing_def weight_def u'_def blds)
  ultimately show ?thesis using t' unfolding shifted_def by blast
qed

lemma shifted_refl: "table_inv vi_owner vt \<Longrightarrow> shifted vt vt 0 d blds"
proof -
  have "m = map_option (\<lambda>(i, u). (i, u\<lparr>proxied_votes := proxied_votes u + 0\<rparr>)) m" for m :: "(int \<times> voter_info_object) option" by (cases m) auto
  then show "table_inv vi_owner vt \<Longrightarrow> shifted vt vt 0 d blds" by (simp add: shifted_def)
qed

lemma leave_old_shifted:
  assumes inv: "votes_inv vt bt" and r: "leave_old (i, v) vt = Inr (vt', blds)"
  shows "shifted vt vt' (vi_proxy v) (- of_int (staked v)) blds \<and> (vi_proxy v = 0 \<longrightarrow> blds = vi_builders v) \<and>
    (blds \<noteq> [] \<and> vi_proxy v \<noteq> 0 \<longrightarrow> (\<exists>k j u. find_voter k vt = Some (j, u) \<and> blds = vi_builders u))"
proof (cases "vi_proxy v = 0")
  case True
  then show ?thesis using r inv by (auto simp: leave_old_def pass_to_proxy_def votes_inv_def shifted_refl)
next
  case False
  then obtain j u where u: "find_voter (vi_proxy v) vt = Some (j, u)"
    and m: "modify_voter j (\<lambda>a. a\<lparr>proxied_votes := proxied_votes a + - of_int (staked v)\<rparr>) vt = Inr vt'"
    and b: "blds = (if vi_is_proxy u \<noteq> 0 then vi_builders u else [])"
    using r by (auto simp: leave_old_def pass_to_proxy_def bindE_Inr split: option.splits)
  have "table_inv vi_owner vt" using inv by (simp add: votes_inv_def)
  from shiftedI [OF this u m False b] show ?thesis using u b False by auto
qed

lemma join_new_shifted:
  assumes t: "table_inv vi_owner vt" and r: "join_new vp (i, v) vt = Inr (vt', blds)"
  shows "shifted vt vt' (vb_proxy vp) (of_int (staked v)) blds \<and> (vb_proxy vp = 0 \<longrightarrow> blds = vb_builders vp) \<and>
    (vb_proxy vp \<noteq> 0 \<longrightarrow> (\<exists>j u. find_voter (vb_proxy vp) vt = Some (j, u) \<and> vi_is_proxy u \<noteq> 0 \<and> blds = vi_builders u))"
proof (cases "vb_proxy vp = 0")
  case True
  then show ?thesis using r t by (auto simp: join_new_def shifted_refl)
next
  case False
  then obtain j u where u: "find_voter (vb_proxy vp) vt = Some (j, u)" "vi_is_proxy u \<noteq> 0"
    and m: "modify_voter j (\<lambda>a. a\<lparr>proxied_votes := proxied_votes a + of_int (staked v)\<rparr>) vt = Inr vt'"
    and b: "blds = vi_builders u"
    using r by (auto simp: join_new_def bindE_Inr split: option.splits if_splits)
  from shiftedI [OF t u(1) m False] show ?thesis using u b False by auto
qed

text \<open>Taking votes from the old builders and giving them to the new ones.\<close>

lemma move_votes_look:
  assumes t: "table_inv bi_owner bt" and inc: "increasing old" "increasing new"
    and c1: "change_votes (\<lambda>t. t - w) (set_difference old new) bt = Inr bt1"
    and c2: "change_votes (\<lambda>t. t + w) (if old \<noteq> [] then set_difference new old else new) bt1 = Inr bt2"
  shows "table_inv bi_owner bt2 \<and> (\<forall>b. b \<in> set new - set old \<longrightarrow> find_builder_info b bt \<noteq> None) \<and>
    (\<forall>b i x'. find_builder_info b bt2 = Some (i, x') \<longrightarrow> (\<exists>x. find_builder_info b bt = Some (i, x) \<and>
      total_votes x' - total_votes x = (if b \<in> set new then w else 0) - (if b \<in> set old then w else 0))) \<and>
    (\<forall>b. find_builder_info b bt2 = None \<longrightarrow> find_builder_info b bt = None)"
proof -
  define el where "el = (if old \<noteq> [] then set_difference new old else new)"
  have el: "set el = set new - set old" "distinct el"
    using set_difference_set [OF inc(2,1)] inc(2) by (auto simp: el_def increasing_distinct)
  have rv: "set (set_difference old new) = set old - set new" "distinct (set_difference old new)"
    using set_difference_set [OF inc] by (auto simp: increasing_distinct)
  note l1 = change_votes_look [OF t rv(2) c1] and l2 = change_votes_look [OF _ el(2) c2 [folded el_def]]
  have t1: "table_inv bi_owner bt1" using l1 by blast
  have found: "find_builder_info b bt \<noteq> None" if "b \<in> set new - set old" for b
    using change_votes_found [OF t1 el(2) c2 [folded el_def], of b] that el(1) l1 by auto
  have "\<exists>x. find_builder_info b bt = Some (i, x) \<and>
      total_votes x' - total_votes x = (if b \<in> set new then w else 0) - (if b \<in> set old then w else 0)"
    if x': "find_builder_info b bt2 = Some (i, x')" for b i x'
  proof -
    obtain y where y: "find_builder_info b bt1 = Some (i, y)" "x' = (if b \<in> set el then y\<lparr>total_votes := total_votes y + w\<rparr> else y)"
      using x' l2 [OF t1] by fastforce
    obtain x where x: "find_builder_info b bt = Some (i, x)"
        "y = (if b \<in> set (set_difference old new) then x\<lparr>total_votes := total_votes x - w\<rparr> else x)"
      using y(1) l1 by fastforce
    have "total_votes x' - total_votes x = (if b \<in> set new then w else 0) - (if b \<in> set old then w else 0)"
      by (auto simp: y(2) x(2) el(1) rv(1))
    then show ?thesis using x(1) by blast
  qed
  then show ?thesis using l2 [OF t1] l1 found by auto
qed

lemma vote_core:
  assumes inv: "votes_inv vt bt" and k: "find_voter k vt = Some (i, v)"
    and sh1: "shifted vt vt1 (vi_proxy v) (- of_int (staked v)) old" and sh2: "shifted vt1 vt2 r (of_int (staked v)) new"
    and old: "vi_proxy v = 0 \<Longrightarrow> old = vi_builders v" "increasing old" "\<And>b. b \<in> set old \<Longrightarrow> find_builder_info b bt \<noteq> None"
    and new: "r = 0 \<Longrightarrow> new = blds" "r \<noteq> 0 \<Longrightarrow> blds = []" "increasing new"
    and r: "vi_is_proxy v \<noteq> 0 \<Longrightarrow> r = 0" "r \<noteq> 0 \<Longrightarrow> r \<noteq> vi_proxy v" "r \<noteq> 0 \<Longrightarrow> r \<noteq> k" "r \<noteq> 0 \<Longrightarrow> find_voter r vt \<noteq> None"
    and c1: "change_votes (\<lambda>t. t - weight v) (set_difference old new) bt = Inr bt1"
    and c2: "change_votes (\<lambda>t. t + weight v) (if old \<noteq> [] then set_difference new old else new) bt1 = Inr bt2"
    and m: "modify_voter i (\<lambda>a. a\<lparr>vi_proxy := r, last_update := t, vi_builders := blds\<rparr>) vt2 = Inr vt3"
  shows "votes_inv vt3 bt2"
proof -
  define v3 where "v3 = v\<lparr>vi_proxy := r, last_update := t, vi_builders := blds\<rparr>"
  have tb: "table_inv bi_owner bt" using inv by (simp add: votes_inv_def)
  have vok: "voter_ok vt bt v" by (rule votes_inv_ok [OF inv k])
  have "vi_owner v = k" using voters.look_key [OF _ k] inv by (simp add: votes_inv_def)
  then have pk: "vi_proxy v \<noteq> 0 \<Longrightarrow> vi_proxy v \<noteq> k" and p0: "vi_proxy v \<noteq> 0 \<Longrightarrow> vi_is_proxy v = 0" "vi_proxy v \<noteq> 0 \<Longrightarrow> vi_builders v = []"
    using vok by (auto simp: voter_ok_def)
  define del where "del = (\<lambda>k'. (if vi_proxy v \<noteq> 0 \<and> k' = vi_proxy v then - of_int (staked v) else 0) + (if r \<noteq> 0 \<and> k' = r then of_int (staked v) else 0) :: u128)"
  have look2: "find_voter k' vt2 = map_option (\<lambda>(i, u). (i, u\<lparr>proxied_votes := proxied_votes u + del k'\<rparr>)) (find_voter k' vt)" for k'
    using sh1 sh2 by (cases "find_voter k' vt") (auto simp: shifted_def del_def)
  have "del k = 0" using pk r(3) by (auto simp: del_def)
  then have k2: "find_voter k vt2 = Some (i, v)" using k by (simp add: look2)
  have t2: "table_inv vi_owner vt2" using sh2 by (simp add: shifted_def)
  have t3: "table_inv vi_owner vt3" and look3: "find_voter k' vt3 = (if k' = k then Some (i, v3) else find_voter k' vt2)" for k'
    using modify_voter_look [OF t2 k2 _ m] by (simp_all add: v3_def)
  have tal: "tally F (\<lambda>k. find_voter k vt3) = tally F (\<lambda>k. find_voter k vt2) - F v + F v3" for F :: "voter_info_object \<Rightarrow> u128"
    by (rule tally_diff [OF t2 k2 look3])
  have pl: "tally (pledge x) (\<lambda>k. find_voter k vt2) = tally (pledge x) (\<lambda>k. find_voter k vt)" for x
    using sh1 sh2 unfolding shifted_def by metis
  have ba: "tally (backing b) (\<lambda>k. find_voter k vt2) = tally (backing b) (\<lambda>k. find_voter k vt) +
      (if vi_proxy v \<noteq> 0 \<and> b \<in> set old then - of_int (staked v) else 0) + (if r \<noteq> 0 \<and> b \<in> set new then of_int (staked v) else 0)" for b
    using sh1 sh2 unfolding shifted_def by metis
  note mv = move_votes_look [OF tb old(2) new(3) c1 c2]
  show ?thesis
  proof (rule votes_inv_step [OF inv t3])
    show "table_inv bi_owner bt2" using mv by blast
  next
    fix x j u
    assume u: "find_voter x vt3 = Some (j, u)"
    have dom1: "find_voter y vt3 = None \<Longrightarrow> find_voter y vt = None" for y using k by (auto simp: look3 look2 split: if_splits)
    have dom2: "find_builder_info b bt2 = None \<Longrightarrow> find_builder_info b bt = None" for b using mv by blast
    show "voter_ok vt3 bt2 u"
    proof (cases "x = k")
      case True
      then have u3: "u = v3" using u by (simp add: look3)
      have "increasing blds" using new by (cases "r = 0") auto
      moreover have "find_builder_info b bt2 \<noteq> None" if "b \<in> set blds" for b
      proof -
        have "b \<in> set new" using that new(1,2) by (cases "r = 0") auto
        then have "find_builder_info b bt \<noteq> None" using mv old(3) [of b] by (cases "b \<in> set old") simp_all
        then show ?thesis by (rule contrapos_nn) (rule dom2)
      qed
      moreover have "r \<noteq> 0 \<longrightarrow> blds = [] \<and> vi_is_proxy v = 0 \<and> r \<noteq> vi_owner v \<and> find_voter r vt3 \<noteq> None"
      proof (intro impI)
        assume nz: "r \<noteq> 0"
        have "find_voter r vt3 \<noteq> None" using r(4) [OF nz] by (rule contrapos_nn) (rule dom1)
        then show "blds = [] \<and> vi_is_proxy v = 0 \<and> r \<noteq> vi_owner v \<and> find_voter r vt3 \<noteq> None"
          using new(2) [OF nz] r(1) r(3) [OF nz] nz \<open>vi_owner v = k\<close> by blast
      qed
      moreover have "unstaking v = 0" using vok by (simp add: voter_ok_def)
      ultimately show ?thesis unfolding u3 v3_def voter_ok_def by simp
    next
      case False
      then obtain w where w: "find_voter x vt = Some (j, w)" "u = w\<lparr>proxied_votes := proxied_votes w + del x\<rparr>"
        using u by (auto simp: look3 look2)
      show ?thesis by (rule voter_ok_cong [OF votes_inv_ok [OF inv w(1)]]) (simp_all add: w(2) dom1 dom2)
    qed
  next
    fix x j u
    assume nz: "x \<noteq> 0" and u: "find_voter x vt3 = Some (j, u)"
    have "tally (pledge x) (\<lambda>k. find_voter k vt3) - tally (pledge x) (\<lambda>k. find_voter k vt) = del x"
      unfolding tal pl using nz by (auto simp: pledge_def v3_def del_def)
    moreover obtain w where "find_voter x vt = Some (j, w)" "proxied_votes u - proxied_votes w = del x"
      using u k \<open>del k = 0\<close> by (cases "x = k") (auto simp: look3 look2 v3_def)
    ultimately show "find_voter x vt = None \<and> proxied_votes u = tally (pledge x) (\<lambda>k. find_voter k vt3) \<or>
        (\<exists>w. find_voter x vt = Some (j, w) \<and>
          proxied_votes u - proxied_votes w = tally (pledge x) (\<lambda>k. find_voter k vt3) - tally (pledge x) (\<lambda>k. find_voter k vt))"
      by auto
  next
    fix b j x'
    assume x': "find_builder_info b bt2 = Some (j, x')"
    have "weight v = of_int (staked v)" if "vi_proxy v \<noteq> 0 \<or> r \<noteq> 0" using that p0 r(1) by (auto simp: weight_def)
    moreover have "weight v3 = weight v" by (simp add: weight_def v3_def)
    ultimately have "tally (backing b) (\<lambda>k. find_voter k vt3) - tally (backing b) (\<lambda>k. find_voter k vt) =
        (if b \<in> set new then weight v else 0) - (if b \<in> set old then weight v else 0)"
      unfolding tal ba using old(1) new(1,2) p0(2)
      by (cases "vi_proxy v = 0"; cases "r = 0") (auto simp: backing_def v3_def)
    then show "\<exists>x. find_builder_info b bt = Some (j, x) \<and>
        total_votes x' - total_votes x = tally (backing b) (\<lambda>k. find_voter k vt3) - tally (backing b) (\<lambda>k. find_voter k vt)"
      using mv x' by auto
  qed
qed

lemma cast_votes_inv:
  assumes inv: "votes_inv (voters_of c) (builders_of c)" and k: "find_voter k (voters_of c) = Some (i, v)"
    and form: "vb_proxy vp \<noteq> 0 \<Longrightarrow> vb_builders vp = []" "vb_proxy vp = 0 \<Longrightarrow> increasing (vb_builders vp)"
    and ip: "vi_is_proxy v \<noteq> 0 \<Longrightarrow> vb_proxy vp = 0" and ne: "vb_proxy vp \<noteq> 0 \<Longrightarrow> vb_proxy vp \<noteq> vi_proxy v"
    and r: "cast_votes vp (i, v) c = Inr c'"
  shows "votes_inv (voters_of c') (builders_of c')"
proof -
  obtain vt1 old where lo: "leave_old (i, v) (voters_of c) = Inr (vt1, old)" using r by (auto simp: cast_votes_def bindE_Inr)
  obtain vt2 new where jn: "join_new vp (i, v) vt1 = Inr (vt2, new)" using r lo by (auto simp: cast_votes_def bindE_Inr)
  obtain v2 where v2: "map_of (gi_indices vt2) i = Some v2" using r lo jn by (auto simp: cast_votes_def split: option.splits)
  obtain bt1 where c1: "change_votes (\<lambda>t. t - weight v2) (set_difference old new) (builders_of c) = Inr bt1"
    using r lo jn v2 by (auto simp: cast_votes_def bindE_Inr Let_def weight_def)
  obtain bt2 where c2: "elect (vb_proxy vp = 0) (weight v2) (if old \<noteq> [] then set_difference new old else new) bt1 = Inr bt2"
    using r lo jn v2 c1 by (auto simp: cast_votes_def bindE_Inr Let_def weight_def)
  obtain vt3 where m: "modify_voter i (\<lambda>a. a\<lparr>vi_proxy := vb_proxy vp, last_update := mc_time c, vi_builders := vb_builders vp\<rparr>) vt2 = Inr vt3"
      and c': "c' = set_builder_infos bt2 (set_voters vt3 c)"
    using r lo jn v2 c1 c2 by (auto simp: cast_votes_def bindE_Inr Let_def weight_def)
  note sh1 = leave_old_shifted [OF inv lo]
  have t1: "table_inv vi_owner vt1" using sh1 by (simp add: shifted_def)
  note sh2 = join_new_shifted [OF t1 jn]
  have ok: "voter_ok (voters_of c) (builders_of c) u" if "find_voter x (voters_of c) = Some (j, u)" for x j u by (rule votes_inv_ok [OF inv that])
  have own: "vi_owner v = k" using voters.look_key [OF _ k] inv by (simp add: votes_inv_def)
  have old: "increasing old \<and> (\<forall>b \<in> set old. find_builder_info b (builders_of c) \<noteq> None)"
  proof (cases "vi_proxy v = 0 \<or> old = []")
    case True
    then show ?thesis using sh1 ok [OF k] by (auto simp: voter_ok_def)
  next
    case False
    then obtain x j u where "find_voter x (voters_of c) = Some (j, u)" "old = vi_builders u" using sh1 by blast
    then show ?thesis using ok by (auto simp: voter_ok_def)
  qed
  have look1: "find_voter x vt1 = map_option (\<lambda>(i, u). (i, u\<lparr>proxied_votes := proxied_votes u +
      (if vi_proxy v \<noteq> 0 \<and> x = vi_proxy v then - of_int (staked v) else 0)\<rparr>)) (find_voter x (voters_of c))" for x
    using sh1 by (simp add: shifted_def)
  have rp: "vb_proxy vp \<noteq> 0 \<Longrightarrow> \<exists>j u. find_voter (vb_proxy vp) (voters_of c) = Some (j, u) \<and> vi_is_proxy u \<noteq> 0 \<and> new = vi_builders u"
    using sh2 by (auto simp: look1)
  then have rk: "vb_proxy vp \<noteq> 0 \<Longrightarrow> vb_proxy vp \<noteq> k" using ip k by auto
  have new: "increasing new"
  proof (cases "vb_proxy vp = 0")
    case False
    then show ?thesis using rp ok by (auto simp: voter_ok_def)
  qed (use form sh2 in simp)
  have "find_voter k vt2 = Some (i, v)"
    using k sh2 ok [OF k] own rk by (auto simp: shifted_def look1 voter_ok_def)
  moreover have "table_inv vi_owner vt2" using sh2 by (simp add: shifted_def)
  ultimately have vv: "v2 = v" using v2 table_find_iff [of vi_owner vt2 k i v] by simp
  show ?thesis unfolding c' world_of_sets
  proof (rule vote_core [OF inv k _ _ _ _ _ _ _ new ip ne rk _ c1 [unfolded vv] elect_change [OF c2 [unfolded vv]] m])
    show "shifted (voters_of c) vt1 (vi_proxy v) (- word_of_int (staked v)) old" "vi_proxy v = 0 \<Longrightarrow> old = vi_builders v"
      using sh1 by blast+
    show "shifted vt1 vt2 (vb_proxy vp) (word_of_int (staked v)) new" "vb_proxy vp = 0 \<Longrightarrow> new = vb_builders vp" using sh2 by blast+
  qed (use old form rp in auto)
qed

lemma vote_builder_inv:
  assumes inv: "votes_inv (voters_of c) (builders_of c)" and r: "vote_builder vp c = Inr c'"
  shows "votes_inv (voters_of c') (builders_of c')"
proof -
  define c0 where "c0 = (if vb_proxy vp \<noteq> 0 then require_recipient (vb_proxy vp) c else c)"
  have w0: "mc_world c0 = mc_world c" by (simp add: c0_def require_recipient_def)
  have form: "vb_proxy vp \<noteq> 0 \<Longrightarrow> vb_builders vp = []" "vb_proxy vp = 0 \<Longrightarrow> increasing (vb_builders vp)"
    using r by (auto simp: vote_builder_def bindE_Inr split: if_splits)
  obtain i v where k: "find_voter (vb_voter vp) (voters_of c0) = Some (i, v)" and ip: "vi_is_proxy v \<noteq> 0 \<Longrightarrow> vb_proxy vp = 0"
    and res: "if vi_proxy v \<noteq> 0 \<and> vi_proxy v = vb_proxy vp then c' = c0 else cast_votes vp (i, v) c0 = Inr c'"
    using r by (auto simp: vote_builder_def bindE_Inr c0_def split: if_splits option.splits)
  show ?thesis
  proof (cases "vi_proxy v \<noteq> 0 \<and> vi_proxy v = vb_proxy vp")
    case True
    then have "c' = c0" using res by (simp split: if_splits)
    then show ?thesis using inv w0 by simp
  next
    case False
    then show ?thesis using cast_votes_inv [OF _ k form ip] res inv w0 by auto
  qed
qed

end
