(* ===== verification/Contract_Funds.thy ===== *)
theory Contract_Funds
  imports Contract_Votes Contract_Token
begin

text \<open>
  Tokens are neither made nor lost by the system contract, no balance becomes negative, the stake of a voter is what it
  has locked, and no handler runs into undefined behaviour.
\<close>

section \<open>Balances\<close>

abbreviation find_token :: "account_name \<Rightarrow> xmx_token_object generic_index \<Rightarrow> (int \<times> xmx_token_object) option" where
  "find_token \<equiv> table_find tok_owner"

abbreviation find_resource :: "account_name \<Rightarrow> resource_token_object generic_index \<Rightarrow> (int \<times> resource_token_object) option" where
  "find_resource \<equiv> table_find res_owner"

definition money :: "xmx_token_object generic_index \<Rightarrow> int" where
  "money tt = tally main_token (\<lambda>k. find_token k tt)"

definition reserves :: "resource_token_object generic_index \<Rightarrow> int" where
  "reserves rt = tally (\<lambda>r. locked_token r + unlocked_token r) (\<lambda>k. find_resource k rt)"

definition all_tokens :: "world \<Rightarrow> int" where
  "all_tokens w = money (w_tokens w) + reserves (w_resources w)"

definition tokens_ok :: "xmx_token_object generic_index \<Rightarrow> bool" where
  "tokens_ok tt \<longleftrightarrow> table_inv tok_owner tt \<and> (\<forall>k i a. find_token k tt = Some (i, a) \<longrightarrow> 0 \<le> main_token a)"

definition resources_ok :: "resource_token_object generic_index \<Rightarrow> bool" where
  "resources_ok rt \<longleftrightarrow> table_inv res_owner rt \<and>
     (\<forall>k i r. find_resource k rt = Some (i, r) \<longrightarrow> 0 \<le> locked_token r \<and> 0 \<le> unlocked_token r)"

text \<open>What an account has staked, and what it has locked.\<close>

definition stake_of :: "account_name \<Rightarrow> voter_info_object generic_index \<Rightarrow> share_type" where
  "stake_of k vt = (case find_voter k vt of None \<Rightarrow> 0 | Some (_, v) \<Rightarrow> staked v)"

definition locked_of :: "account_name \<Rightarrow> resource_token_object generic_index \<Rightarrow> share_type" where
  "locked_of k rt = (case find_resource k rt of None \<Rightarrow> 0 | Some (_, r) \<Rightarrow> locked_token r)"

definition funds_inv :: "world \<Rightarrow> bool" where
  "funds_inv w \<longleftrightarrow> tokens_ok (w_tokens w) \<and> resources_ok (w_resources w) \<and> all_tokens w < 2 ^ 63 \<and>
     (\<forall>k. stake_of k (w_voters w) = locked_of k (w_resources w))"

definition sys_inv :: "world \<Rightarrow> bool" where
  "sys_inv w \<longleftrightarrow> votes_inv (w_voters w) (w_builders w) \<and> funds_inv w \<and> table_inv acc_name (w_accounts w) \<and> table_inv ao_key (w_authorities w)"

lemma tally_member:
  fixes F :: "'v \<Rightarrow> int"
  assumes fin: "finite {k. look k \<noteq> None}" and nn: "\<And>k i v. look k = Some (i, v) \<Longrightarrow> 0 \<le> F v" and k: "look k = Some (i, v)"
  shows "F v \<le> tally F look"
proof -
  have "(\<Sum>k | look k \<noteq> None. F (snd (the (look k)))) \<ge> F (snd (the (look k)))"
    using nn k by (intro member_le_sum [OF _ _ fin]) (auto split: option.splits)
  then show ?thesis using k by (simp add: tally_def)
qed

lemma tally_nonneg:
  fixes F :: "'v \<Rightarrow> int"
  assumes "\<And>k i v. look k = Some (i, v) \<Longrightarrow> 0 \<le> F v"
  shows "0 \<le> tally F look"
  unfolding tally_def using assms by (intro sum_nonneg) (auto split: option.splits)

lemma money_member: "tokens_ok tt \<Longrightarrow> find_token k tt = Some (i, a) \<Longrightarrow> 0 \<le> main_token a \<and> main_token a \<le> money tt"
  unfolding money_def tokens_ok_def using tally_member [OF tokens.look_finite, of tt main_token k i a] by blast

lemma money_nonneg: "tokens_ok tt \<Longrightarrow> 0 \<le> money tt"
  unfolding money_def tokens_ok_def by (rule tally_nonneg) blast

lemma reserves_member:
  assumes ok: "resources_ok rt" and k: "find_resource k rt = Some (i, r)"
  shows "0 \<le> locked_token r \<and> 0 \<le> unlocked_token r \<and> locked_token r + unlocked_token r \<le> reserves rt"
proof -
  have nn: "0 \<le> locked_token s \<and> 0 \<le> unlocked_token s" if "find_resource x rt = Some (j, s)" for x j s
    using ok that by (auto simp: resources_ok_def)
  have "finite {k. find_resource k rt \<noteq> None}" using ok by (intro resources.look_finite) (simp add: resources_ok_def)
  then show ?thesis unfolding reserves_def using nn nn [OF k]
    tally_member [of "\<lambda>k. find_resource k rt" "\<lambda>r. locked_token r + unlocked_token r" k i r] k by force
qed

lemma reserves_nonneg: "resources_ok rt \<Longrightarrow> 0 \<le> reserves rt"
  unfolding reserves_def resources_ok_def by (rule tally_nonneg) fastforce

text \<open>Setting a balance.\<close>

lemma set_token:
  assumes ok: "tokens_ok tt" and k: "find_token k tt = Some (i, a)" and f: "f a = Inr (a\<lparr>main_token := x\<rparr>)" and x: "0 \<le> x"
  shows "\<exists>tt'. table_update (same_key tok_owner) i f tt = Inr tt' \<and> tokens_ok tt' \<and> money tt' = money tt - main_token a + x \<and>
    (\<forall>k'. find_token k' tt' = (if k' = k then Some (i, a\<lparr>main_token := x\<rparr>) else find_token k' tt))"
proof -
  have t: "table_inv tok_owner tt" using ok by (simp add: tokens_ok_def)
  have "tok_owner (a\<lparr>main_token := x\<rparr>) = k" using tokens.look_key [OF t k] by simp
  from tokens.update_ok [of tt k i a f, OF t k f this] obtain tt' where u: "table_update (same_key tok_owner) i f tt = Inr tt'" "table_inv tok_owner tt'"
    and look: "\<And>k'. find_token k' tt' = (if k' = k then Some (i, a\<lparr>main_token := x\<rparr>) else find_token k' tt)" by blast
  have "money tt' + main_token a = money tt + main_token (a\<lparr>main_token := x\<rparr>)"
    unfolding money_def by (rule tokens.update_tally [OF t k look])
  moreover have "tokens_ok tt'" using ok u(2) x by (auto simp: tokens_ok_def look)
  ultimately show ?thesis using u(1) look by auto
qed

lemma debit_step:
  assumes "tokens_ok tt" and "money tt < 2 ^ 63" and "find_token k tt = Some (i, a)" and "0 \<le> x" and "x \<le> main_token a"
  shows "\<exists>tt'. debit i x tt = Inr tt' \<and> tokens_ok tt' \<and> money tt' = money tt - x \<and>
    (\<forall>k'. find_token k' tt' = (if k' = k then Some (i, a\<lparr>main_token := main_token a - x\<rparr>) else find_token k' tt))"
proof -
  have "in64 (main_token a - x)" using money_member [OF assms(1,3)] assms by (simp add: in64_def)
  then show ?thesis unfolding debit_def
    using set_token [of tt k i a "\<lambda>a. bindE (share_sub (main_token a) x) (\<lambda>m. Inr (a\<lparr>main_token := m\<rparr>))" "main_token a - x"] assms
    by (simp add: share_sub_def)
qed

lemma credit_step:
  assumes "tokens_ok tt" and "money tt + x < 2 ^ 63" and "find_token k tt = Some (i, a)" and "0 \<le> x"
  shows "\<exists>tt'. credit i x tt = Inr tt' \<and> tokens_ok tt' \<and> money tt' = money tt + x \<and>
    (\<forall>k'. find_token k' tt' = (if k' = k then Some (i, a\<lparr>main_token := main_token a + x\<rparr>) else find_token k' tt))"
proof -
  have "0 \<le> main_token a" "in64 (main_token a + x)" using money_member [OF assms(1,3)] assms by (simp_all add: in64_def)
  then show ?thesis unfolding credit_def
    using set_token [of tt k i a "\<lambda>a. bindE (share_add (main_token a) x) (\<lambda>m. Inr (a\<lparr>main_token := m\<rparr>))" "main_token a + x"] assms
    by (auto simp: share_add_def)
qed

text \<open>A payment from one account to another; the two may be the same.\<close>

lemma pay:
  assumes ok: "tokens_ok tt" and m: "money tt < 2 ^ 63" and f: "find_token k tt = Some (i, a)" and t: "find_token k' tt = Some (j, b)"
    and x: "0 \<le> x" "x \<le> main_token a"
  shows "\<exists>tt1 tt2. debit i x tt = Inr tt1 \<and> credit j x tt1 = Inr tt2 \<and> tokens_ok tt2 \<and> money tt2 = money tt"
proof -
  obtain tt1 where 1: "debit i x tt = Inr tt1" "tokens_ok tt1" "money tt1 = money tt - x"
    and look: "\<And>k'. find_token k' tt1 = (if k' = k then Some (i, a\<lparr>main_token := main_token a - x\<rparr>) else find_token k' tt)"
    using debit_step [OF ok m f x] by blast
  obtain b' where "find_token k' tt1 = Some (j, b')" using f t look by (cases "k' = k") auto
  then show ?thesis using credit_step [OF 1(2), of x k' j b'] 1 m x by auto
qed

lemma set_resource:
  assumes ok: "resources_ok rt" and k: "find_resource k rt = Some (i, r)" and f: "f r = Inr r'" "res_owner r' = res_owner r"
    and x: "0 \<le> locked_token r'" "0 \<le> unlocked_token r'"
  shows "\<exists>rt'. table_update (same_key res_owner) i f rt = Inr rt' \<and> resources_ok rt' \<and>
    reserves rt' = reserves rt - (locked_token r + unlocked_token r) + (locked_token r' + unlocked_token r') \<and>
    (\<forall>k'. locked_of k' rt' = (if k' = k then locked_token r' else locked_of k' rt))"
proof -
  have t: "table_inv res_owner rt" using ok by (simp add: resources_ok_def)
  have "res_owner r' = k" using resources.look_key [OF t k] f(2) by simp
  from resources.update_ok [of rt k i r f, OF t k f(1) this] obtain rt' where u: "table_update (same_key res_owner) i f rt = Inr rt'" "table_inv res_owner rt'"
    and look: "\<And>k'. find_resource k' rt' = (if k' = k then Some (i, r') else find_resource k' rt)" by blast
  have "reserves rt' + (locked_token r + unlocked_token r) = reserves rt + (locked_token r' + unlocked_token r')"
    unfolding reserves_def by (rule resources.update_tally [OF t k look])
  moreover have "resources_ok rt'" using ok u(2) x by (auto simp: resources_ok_def look)
  ultimately show ?thesis using u(1) by (auto simp: look locked_of_def)
qed

section \<open>Stakes\<close>

lemma stake_of_look: "find_voter k vt = Some (i, v) \<Longrightarrow> stake_of k vt = staked v"
  by (simp add: stake_of_def)

lemma modify_voter_ok:
  assumes "table_inv vi_owner vt" and "find_voter k vt = Some (i, v)" and "vi_owner (f v) = vi_owner v"
  shows "\<exists>vt'. modify_voter i f vt = Inr vt' \<and> table_inv vi_owner vt' \<and>
    (\<forall>k'. find_voter k' vt' = (if k' = k then Some (i, f v) else find_voter k' vt))"
proof -
  have "vi_owner (f v) = k" using voters.look_key [OF assms(1,2)] assms(3) by simp
  then show ?thesis using voters.update_ok [of vt k i v "\<lambda>v. Inr (f v)" "f v", OF assms(1,2)] by (auto simp: modify_voter_def)
qed

lemma modify_stake:
  assumes t: "table_inv vi_owner vt" and f: "\<And>v. vi_owner (f v) = vi_owner v" "\<And>v. staked (f v) = staked v"
    and m: "modify_voter i f vt = Inr vt'"
  shows "table_inv vi_owner vt' \<and> (\<forall>k. stake_of k vt' = stake_of k vt) \<and>
    (\<forall>k. map_option fst (find_voter k vt') = map_option fst (find_voter k vt))"
proof -
  obtain v where "map_of (gi_indices vt) i = Some v" using m by (auto simp: modify_voter_def table_update_def split: option.splits)
  then have k: "find_voter (vi_owner v) vt = Some (i, v)" using table_find_iff [OF t] by simp
  obtain "table_inv vi_owner vt'" and look: "\<And>k'. find_voter k' vt' = (if k' = vi_owner v then Some (i, f v) else find_voter k' vt)"
    using modify_voter_look [OF t k f(1) m] by blast
  moreover have "stake_of x vt' = stake_of x vt" for x
    by (cases "x = vi_owner v") (simp_all add: stake_of_def look k f)
  moreover have "map_option fst (find_voter x vt') = map_option fst (find_voter x vt)" for x by (simp add: look k)
  ultimately show ?thesis by blast
qed

lemma pass_to_proxy_stake:
  assumes "table_inv vi_owner vt" and "pass_to_proxy e f v vt = Inr (vt', blds)"
  shows "table_inv vi_owner vt' \<and> (\<forall>k. stake_of k vt' = stake_of k vt) \<and>
    (\<forall>k. map_option fst (find_voter k vt') = map_option fst (find_voter k vt))"
proof (cases "vi_proxy v = 0")
  case False
  then obtain j where "modify_voter j (\<lambda>a. a\<lparr>proxied_votes := f (proxied_votes a)\<rparr>) vt = Inr vt'"
    using assms(2) by (auto simp: pass_to_proxy_def bindE_Inr split: option.splits)
  from modify_stake [OF assms(1) _ _ this] show ?thesis by simp
qed (use assms in \<open>auto simp: pass_to_proxy_def\<close>)

lemma join_new_stake:
  assumes "table_inv vi_owner vt" and "join_new vp iv vt = Inr (vt', blds)"
  shows "table_inv vi_owner vt' \<and> (\<forall>k. stake_of k vt' = stake_of k vt) \<and>
    (\<forall>k. map_option fst (find_voter k vt') = map_option fst (find_voter k vt))"
proof (cases "vb_proxy vp = 0")
  case False
  then obtain j where "modify_voter j (\<lambda>a. a\<lparr>proxied_votes := proxied_votes a + of_int (staked (snd iv))\<rparr>) vt = Inr vt'"
    using assms(2) by (auto simp: join_new_def bindE_Inr split: option.splits if_splits)
  from modify_stake [OF assms(1) _ _ this] show ?thesis by simp
qed (use assms in \<open>auto simp: join_new_def\<close>)

lemma vote_builder_stake:
  assumes t: "table_inv vi_owner (voters_of c)" and r: "vote_builder vp c = Inr c'"
  shows "stake_of k (voters_of c') = stake_of k (voters_of c)"
proof -
  define c0 where "c0 = (if vb_proxy vp \<noteq> 0 then require_recipient (vb_proxy vp) c else c)"
  have w0: "mc_world c0 = mc_world c" by (simp add: c0_def require_recipient_def)
  have res: "c' = c0 \<or> (\<exists>i v. cast_votes vp (i, v) c0 = Inr c')"
    using r unfolding vote_builder_def bindE_Inr c0_def by (auto split: if_splits option.splits)
  show ?thesis
  proof (cases "c' = c0")
    case False
    then obtain i v where cast: "cast_votes vp (i, v) c0 = Inr c'" using res by blast
    then obtain vt1 old where lo: "leave_old (i, v) (voters_of c0) = Inr (vt1, old)" by (auto simp: cast_votes_def bindE_Inr)
    obtain vt2 new where jn: "join_new vp (i, v) vt1 = Inr (vt2, new)" using cast lo by (auto simp: cast_votes_def bindE_Inr)
    obtain vt3 bt where m: "modify_voter i (\<lambda>a. a\<lparr>vi_proxy := vb_proxy vp, last_update := mc_time c0, vi_builders := vb_builders vp\<rparr>) vt2 = Inr vt3"
        and c': "c' = set_builder_infos bt (set_voters vt3 c0)"
      using cast lo jn by (auto simp: cast_votes_def bindE_Inr Let_def split: option.splits)
    note p = pass_to_proxy_stake [OF _ lo [unfolded leave_old_def]]
    note j = join_new_stake [OF _ jn]
    show ?thesis using modify_stake [OF _ _ _ m] p j t w0 by (simp add: c')
  qed (simp add: w0)
qed

lemma reg_proxy_stake:
  assumes t: "table_inv vi_owner (voters_of c)" and r: "reg_proxy mem p c = Inr c'"
  shows "stake_of k (voters_of c') = stake_of k (voters_of c)"
proof (cases "find_voter p (voters_of c)")
  case None
  define nv where "nv = (\<lambda>i. (new_voter mem i)\<lparr>vi_owner := p, last_update := mc_time c, vi_proxy := 0, vi_is_proxy := 1, proxied_votes := 0, staked := 0\<rparr>)"
  obtain vt where cr: "table_create (same_key vi_owner) nv (voters_of c) = Inr vt" and c': "c' = set_voters vt c"
    using r None by (auto simp: reg_proxy_def bindE_Inr nv_def)
  have own: "vi_owner (nv i) = p" for i by (simp add: nv_def)
  have "find_voter k vt = (if k = p then Some (gi_next_id (voters_of c), nv (gi_next_id (voters_of c))) else find_voter k (voters_of c))"
    using voters.create_ok [of "voters_of c" nv, OF t] None cr by (simp add: own)
  then show ?thesis using None by (auto simp: c' stake_of_def nv_def)
next
  case (Some q)
  then obtain i vt bt where m: "modify_voter i (\<lambda>a. a\<lparr>vi_is_proxy := 1, last_update := mc_time c\<rparr>) (voters_of c) = Inr vt"
    and c': "c' = set_builder_infos bt (set_voters vt c)"
    using r by (cases q) (auto simp: reg_proxy_def bindE_Inr split: if_splits)
  show ?thesis using modify_stake [OF t _ _ m] by (simp add: c')
qed

lemma unreg_proxy_stake:
  assumes t: "table_inv vi_owner (voters_of c)" and r: "unreg_proxy p c = Inr c'"
  shows "stake_of k (voters_of c') = stake_of k (voters_of c)"
proof -
  obtain i vt bt where m: "modify_voter i (\<lambda>a. a\<lparr>vi_is_proxy := 0, last_update := mc_time c\<rparr>) (voters_of c) = Inr vt"
    and c': "c' = set_builder_infos bt (set_voters vt c)"
    using r by (auto simp: unreg_proxy_def bindE_Inr split: if_splits option.splits)
  show ?thesis using modify_stake [OF t _ _ m] by (simp add: c')
qed

lemma builder_ops_stake:
  "reg_builder b key c = Inr c' \<Longrightarrow> voters_of c' = voters_of c" "unreg_builder b c = Inr c' \<Longrightarrow> voters_of c' = voters_of c"
  by (auto simp: reg_builder_def unreg_builder_def bindE_Inr split: option.splits)

lemma increase_votes_stake:
  assumes t: "table_inv vi_owner (voters_of c)" and r: "increase_votes mem a amount c = Inr c'"
  shows "stake_of k (voters_of c') = stake_of k (voters_of c) + (if k = a then amount else 0)"
proof -
  define nv where "nv = (\<lambda>i. (new_voter mem i)\<lparr>vi_owner := a, last_update := mc_time c, staked := amount\<rparr>)"
  have own: "vi_owner (nv i) = a" for i by (simp add: nv_def)
  obtain vt where vt: "(case find_voter a (voters_of c) of None \<Rightarrow> table_create (same_key vi_owner) nv (voters_of c)
       | Some (i, _) \<Rightarrow> table_update (same_key vi_owner) i
           (\<lambda>v. bindE (share_add (staked v) amount) (\<lambda>s. Inr (v\<lparr>last_update := mc_time c, staked := s\<rparr>))) (voters_of c)) = Inr vt"
    using r unfolding increase_votes_def nv_def bindE_Inr by blast
  obtain i v vt2 blds bt where p: "pass_to_proxy MessageValidate (\<lambda>t. t + of_int amount) v vt = Inr (vt2, blds)"
      and c': "c' = set_builder_infos bt (set_voters vt2 c)"
    using r vt unfolding increase_votes_def nv_def [symmetric] by (auto simp: bindE_Inr split: option.splits)
  have "table_inv vi_owner vt \<and> (\<forall>k. stake_of k vt = stake_of k (voters_of c) + (if k = a then amount else 0))"
  proof (cases "find_voter a (voters_of c)")
    case None
    have "table_inv vi_owner vt \<and> (\<forall>k. find_voter k vt =
        (if k = a then Some (gi_next_id (voters_of c), nv (gi_next_id (voters_of c))) else find_voter k (voters_of c)))"
      using voters.create_ok [of "voters_of c" nv, OF t] None vt by (simp add: own)
    then show ?thesis using None by (auto simp: stake_of_def nv_def)
  next
    case (Some q)
    then obtain j u where q: "find_voter a (voters_of c) = Some (j, u)" by (cases q) auto
    have key: "vi_owner u = a" by (rule voters.look_key [OF t q])
    define f where "f = (\<lambda>v. bindE (share_add (staked v) amount) (\<lambda>s. Inr (v\<lparr>last_update := mc_time c, staked := s\<rparr>)) :: contract_exc + voter_info_object)"
    have upd: "table_update (same_key vi_owner) j f (voters_of c) = Inr vt" using vt q by (simp add: f_def)
    obtain v' where "f u = Inr v'" and ti: "table_inv vi_owner vt"
      and look: "\<And>k'. find_voter k' vt = (if k' = a then Some (j, v') else find_voter k' (voters_of c))"
      by (rule voters.updateE [of "voters_of c" a j u f vt, OF t q _ upd]) (auto simp: f_def bindE_Inr key)
    then have "staked v' = staked u + amount" by (auto simp: f_def bindE_Inr share_add_def split: if_splits)
    then show ?thesis using ti q by (auto simp: stake_of_def look)
  qed
  then show ?thesis using pass_to_proxy_stake [OF _ p] by (simp add: c')
qed

lemma decrease_votes_stake:
  assumes inv: "votes_inv (voters_of c) (builders_of c)" and r: "decrease_votes a amount c = Inr c'" and nn: "0 \<le> amount"
  shows "stake_of k (voters_of c') = stake_of k (voters_of c) - (if k = a then amount else 0)"
proof -
  have t: "table_inv vi_owner (voters_of c)" using inv by (simp add: votes_inv_def)
  obtain i v where q: "find_voter a (voters_of c) = Some (i, v)" using r by (auto simp: decrease_votes_def split: option.splits)
  have key: "vi_owner v = a" by (rule voters.look_key [OF t q])
  have un: "unstaking v = 0" using votes_inv_ok [OF inv q] by (simp add: voter_ok_def)
  have step: "table_inv vi_owner vt \<and> stake_of k vt = stake_of k (voters_of c) - (if k = a then amount else 0)"
    if u: "table_update (same_key vi_owner) i f (voters_of c) = Inr vt"
      and f: "\<And>v'. f v = Inr v' \<Longrightarrow> vi_owner v' = vi_owner v \<and> staked v' = staked v - amount" for f vt
  proof -
    obtain v' where v': "f v = Inr v'" and ti: "table_inv vi_owner vt"
      and look: "\<And>k'. find_voter k' vt = (if k' = a then Some (i, v') else find_voter k' (voters_of c))"
      by (rule voters.updateE [of "voters_of c" a i v f vt, OF t q _ u]) (use f key in auto)
    then show ?thesis using q f [OF v'] by (auto simp: stake_of_def look)
  qed
  show ?thesis
  proof (cases "0 < amount")
    case True
    obtain vt vt2 blds bt where u: "table_update (same_key vi_owner) i
              (\<lambda>v. bindE (share_sub (staked v) amount) (\<lambda>s. Inr (v\<lparr>staked := s, last_update := mc_time c\<rparr>))) (voters_of c) = Inr vt"
        and p: "pass_to_proxy Ub (\<lambda>t. t - of_int amount) v vt = Inr (vt2, blds)"
        and c': "c' = set_builder_infos bt (set_voters vt2 c)"
      using r q True by (auto simp: decrease_votes_def bindE_Inr split: if_splits)
    have "table_inv vi_owner vt \<and> stake_of k vt = stake_of k (voters_of c) - (if k = a then amount else 0)"
      by (rule step [OF u]) (auto simp: bindE_Inr share_sub_def split: if_splits)
    then show ?thesis using pass_to_proxy_stake [OF _ p] by (simp add: c')
  next
    case False
    obtain vt where u: "table_update (same_key vi_owner) i
            (\<lambda>v. bindE (share_add (staked v) (unstaking v)) (\<lambda>s. Inr (v\<lparr>staked := s, unstaking := 0, unstake_per_week := 0,
              deferred_trx_id := 0, last_update := mc_time c\<rparr>))) (voters_of c) = Inr vt" and c': "c' = set_voters vt c"
      using r q False by (auto simp: decrease_votes_def bindE_Inr)
    show ?thesis unfolding c' world_of_sets
      by (rule step [OF u, THEN conjunct2]) (use False nn un in \<open>auto simp: bindE_Inr share_add_def split: if_splits\<close>)
  qed
qed

section \<open>The handlers keep the invariant\<close>

text \<open>What every handler does to a world that satisfies the invariant.\<close>

definition keeps :: "world \<Rightarrow> contract_exc + msg_context \<Rightarrow> bool" where
  "keeps w r \<longleftrightarrow> r \<noteq> Inl Ub \<and> (\<forall>c'. r = Inr c' \<longrightarrow> sys_inv (mc_world c') \<and> all_tokens (mc_world c') = all_tokens w)"

lemma keeps_error: "e \<noteq> Ub \<Longrightarrow> keeps w (Inl e)"
  by (simp add: keeps_def)

lemma keeps_ok: "sys_inv (mc_world c) \<Longrightarrow> all_tokens (mc_world c) = all_tokens w \<Longrightarrow> keeps w (Inr c)"
  by (simp add: keeps_def)

lemma keeps_scope: "(a \<in> set (mc_scope c) \<Longrightarrow> keeps w (f c)) \<Longrightarrow> keeps w (bindE (require_scope a c) f)"
  by (simp add: require_scope_def assertE_def keeps_error)

lemma keeps_auth: "(\<And>c'. mc_world c' = mc_world c \<Longrightarrow> keeps w (f c')) \<Longrightarrow> keeps w (bindE (require_authorization a c) f)"
  by (simp add: require_authorization_def keeps_error split: option.splits)

lemma keeps_get:
  "(\<And>i v. table_find key k g = Some (i, v) \<Longrightarrow> keeps w (f i v)) \<Longrightarrow> keeps w (bindE (table_get key k g) (\<lambda>(i, v). f i v))"
  by (simp add: table_get_def keeps_error split: option.splits)

lemma keeps_if: "e \<noteq> Ub \<Longrightarrow> (\<not> b \<Longrightarrow> keeps w r) \<Longrightarrow> keeps w (if b then Inl e else r)"
  by (simp add: keeps_error)

lemmas keeps_intros = keeps_scope keeps_auth keeps_get keeps_if

lemma world_of_recipient [simp]: "mc_world (require_recipient a c) = mc_world c"
  by (simp add: require_recipient_def)

lemma world_of_set_funds [simp]:
  "mc_world (set_tokens tt c) = (mc_world c)\<lparr>w_tokens := tt\<rparr>" "mc_world (set_resources rt c) = (mc_world c)\<lparr>w_resources := rt\<rparr>"
  "mc_world (set_accounts at c) = (mc_world c)\<lparr>w_accounts := at\<rparr>" "mc_world (set_authorities au c) = (mc_world c)\<lparr>w_authorities := au\<rparr>"
  by (simp_all add: set_tokens_def set_resources_def set_accounts_def set_authorities_def)

text \<open>An unsigned amount within a balance is its signed value.\<close>

lemma amount_fits:
  assumes "0 \<le> m" and "m < 2 ^ 63" and "x \<le> (of_int m :: u64)"
  shows "0 \<le> sint x \<and> sint x \<le> m"
proof -
  have "uint (of_int m :: u64) = m" using assms by (simp add: uint_word_of_int)
  then have "uint x \<le> m" using assms(3) by (simp add: word_le_def)
  moreover have "- (2 ^ 63) \<le> uint x" by (rule order_trans [OF _ uint_ge_0]) simp
  ultimately have "signed_take_bit 63 (uint x) = uint x" using assms(2) by (intro signed_take_bit_int_eq_self) simp_all
  then show ?thesis using \<open>uint x \<le> m\<close> by (simp add: sint_uint)
qed

lemma money_small: "sys_inv w \<Longrightarrow> tokens_ok (w_tokens w) \<and> money (w_tokens w) < 2 ^ 63"
  using reserves_nonneg [of "w_resources w"] by (simp add: sys_inv_def funds_inv_def all_tokens_def)

lemma reserves_small: "sys_inv w \<Longrightarrow> resources_ok (w_resources w) \<and> money (w_tokens w) + reserves (w_resources w) < 2 ^ 63"
  by (simp add: sys_inv_def funds_inv_def all_tokens_def)

lemma sys_inv_tokens:
  assumes "sys_inv w" and "tokens_ok tt" and "money tt = money (w_tokens w)"
  shows "sys_inv (w\<lparr>w_tokens := tt\<rparr>) \<and> all_tokens (w\<lparr>w_tokens := tt\<rparr>) = all_tokens w"
  using assms by (simp add: sys_inv_def funds_inv_def all_tokens_def)

lemma transfer_keeps:
  assumes inv: "sys_inv (mc_world c)"
  shows "keeps (mc_world c) (xmax_system_transfer t c)"
  unfolding xmax_system_transfer_def Let_def
proof (intro keeps_intros, simp_all only: not_not contract_exc.distinct not_False_eq_True world_of_recipient)
  fix i a j b
  assume a: "find_token (tr_from t) (tokens_of c) = Some (i, a)" and b: "find_token (tr_to t) (tokens_of c) = Some (j, b)"
    and le: "tr_amount t \<le> word_of_int (main_token a)"
  note m = money_small [OF inv]
  have "0 \<le> main_token a \<and> main_token a < 2 ^ 63" using money_member [OF _ a] m by auto
  then have "0 \<le> sint (tr_amount t) \<and> sint (tr_amount t) \<le> main_token a" using amount_fits le by blast
  then obtain tt1 tt2 where "debit i (sint (tr_amount t)) (tokens_of c) = Inr tt1" "credit j (sint (tr_amount t)) tt1 = Inr tt2"
      and "tokens_ok tt2" "money tt2 = money (tokens_of c)" using pay [OF _ _ a b] m by blast
  then show "keeps (mc_world c) (bindE (debit i (sint (tr_amount t)) (tokens_of c)) (\<lambda>tt. bindE (credit j (sint (tr_amount t)) tt)
        (\<lambda>tt. Inr (set_tokens tt (require_recipient (tr_from t) (require_recipient (tr_to t) c))))))"
    using sys_inv_tokens [OF inv] by (simp add: keeps_ok)
qed

section \<open>No undefined behaviour in the voting\<close>

lemma modify_builder_ok:
  assumes "table_inv bi_owner g" and "find_builder_info b g = Some (i, x)" and "bi_owner (f x) = bi_owner x"
  shows "\<exists>g'. modify_builder_info i f g = Inr g' \<and> table_inv bi_owner g'"
proof -
  have "bi_owner (f x) = b" using builders.look_key [OF assms(1,2)] assms(3) by simp
  then show ?thesis using builders.update_ok [of g b i x "\<lambda>v. Inr (f v)" "f x", OF assms(1,2)] by (auto simp: modify_builder_info_def)
qed

lemma change_votes_no_ub: "table_inv bi_owner g \<Longrightarrow> change_votes f ps g \<noteq> Inl Ub"
proof (induction ps arbitrary: g)
  case (Cons p ps)
  show ?case
  proof (cases "find_builder_info p g")
    case (Some y)
    then obtain i x where p: "find_builder_info p g = Some (i, x)" by (cases y) auto
    obtain g' where "modify_builder_info i (\<lambda>b. b\<lparr>total_votes := f (total_votes b)\<rparr>) g = Inr g'" "table_inv bi_owner g'"
      using modify_builder_ok [of g p i x "\<lambda>b. b\<lparr>total_votes := f (total_votes b)\<rparr>", OF Cons.prems p] by auto
    then show ?thesis using Cons.IH p by simp
  qed simp
qed simp

lemma elect_no_ub: "table_inv bi_owner g \<Longrightarrow> elect direct w ps g \<noteq> Inl Ub"
proof (induction ps arbitrary: g)
  case (Cons p ps)
  show ?case
  proof (cases "find_builder_info p g")
    case (Some y)
    then obtain i x where p: "find_builder_info p g = Some (i, x)" by (cases y) auto
    obtain g' where "modify_builder_info i (\<lambda>b. b\<lparr>total_votes := total_votes b + w\<rparr>) g = Inr g'" "table_inv bi_owner g'"
      using modify_builder_ok [of g p i x "\<lambda>b. b\<lparr>total_votes := total_votes b + w\<rparr>", OF Cons.prems p] by auto
    then show ?thesis using Cons.IH p by simp
  qed simp
qed simp

lemma change_votes_inv: "table_inv bi_owner g \<Longrightarrow> change_votes f ps g = Inr g' \<Longrightarrow> table_inv bi_owner g'"
proof (induction ps arbitrary: g)
  case (Cons p ps)
  then obtain i x g1 where p: "find_builder_info p g = Some (i, x)"
    and g1: "modify_builder_info i (\<lambda>b. b\<lparr>total_votes := f (total_votes b)\<rparr>) g = Inr g1" and rest: "change_votes f ps g1 = Inr g'"
    by (auto simp: bindE_Inr split: option.splits)
  have "table_inv bi_owner g1"
    using modify_builder_ok [of g p i x "\<lambda>b. b\<lparr>total_votes := f (total_votes b)\<rparr>", OF Cons.prems(1) p] g1 by simp
  then show ?case using Cons.IH rest by blast
qed simp

lemma pass_to_proxy_no_ub:
  assumes t: "table_inv vi_owner vt" and e: "e \<noteq> Ub \<or> vi_proxy v = 0 \<or> find_voter (vi_proxy v) vt \<noteq> None"
  shows "pass_to_proxy e f v vt \<noteq> Inl Ub"
proof (cases "vi_proxy v \<noteq> 0 \<and> find_voter (vi_proxy v) vt \<noteq> None")
  case True
  then obtain j q where q: "vi_proxy v \<noteq> 0" "find_voter (vi_proxy v) vt = Some (j, q)" by auto
  obtain vt' where "modify_voter j (\<lambda>a. a\<lparr>proxied_votes := f (proxied_votes a)\<rparr>) vt = Inr vt'"
    using modify_voter_ok [of vt "vi_proxy v" j q "\<lambda>a. a\<lparr>proxied_votes := f (proxied_votes a)\<rparr>", OF t q(2)] by auto
  then show ?thesis using q by (simp add: pass_to_proxy_def)
qed (use e in \<open>auto simp: pass_to_proxy_def split: option.splits\<close>)

lemma join_new_no_ub:
  assumes t: "table_inv vi_owner vt"
  shows "join_new vp iv vt \<noteq> Inl Ub"
proof (cases "find_voter (vb_proxy vp) vt")
  case (Some y)
  then obtain j q where q: "find_voter (vb_proxy vp) vt = Some (j, q)" by (cases y) auto
  obtain vt' where "modify_voter j (\<lambda>a. a\<lparr>proxied_votes := proxied_votes a + of_int (staked (snd iv))\<rparr>) vt = Inr vt'"
    using modify_voter_ok [of vt "vb_proxy vp" j q "\<lambda>a. a\<lparr>proxied_votes := proxied_votes a + of_int (staked (snd iv))\<rparr>", OF t q] by auto
  then show ?thesis using q by (simp add: join_new_def)
qed (simp add: join_new_def)

lemma bindE_Inl: "bindE r f = Inl e \<longleftrightarrow> r = Inl e \<or> (\<exists>x. r = Inr x \<and> f x = Inl e)"
  by (cases r) auto

lemma cast_votes_no_ub:
  assumes inv: "votes_inv (voters_of c) (builders_of c)" and k: "find_voter k (voters_of c) = Some (i, v)"
  shows "cast_votes vp (i, v) c \<noteq> Inl Ub"
proof
  assume ub: "cast_votes vp (i, v) c = Inl Ub"
  have t: "table_inv vi_owner (voters_of c)" and b: "table_inv bi_owner (builders_of c)" using inv by (simp_all add: votes_inv_def)
  have "leave_old (i, v) (voters_of c) \<noteq> Inl Ub" unfolding leave_old_def by (rule pass_to_proxy_no_ub [OF t]) simp
  then obtain vt1 old where lo: "leave_old (i, v) (voters_of c) = Inr (vt1, old)"
    using ub unfolding cast_votes_def bindE_Inl by fast
  note l = pass_to_proxy_stake [OF t lo [unfolded leave_old_def]]
  then have t1: "table_inv vi_owner vt1" by blast
  then obtain vt2 new where jn: "join_new vp (i, v) vt1 = Inr (vt2, new)"
    using ub lo join_new_no_ub [OF t1, of vp "(i, v)"] by (auto simp: cast_votes_def bindE_Inl)
  note j = join_new_stake [OF t1 jn]
  then have t2: "table_inv vi_owner vt2" by blast
  have "map_option fst (find_voter k vt2) = Some i" using j l k by simp
  then obtain u where u: "find_voter k vt2 = Some (i, u)" by auto
  then have m: "map_of (gi_indices vt2) i = Some u" using table_find_iff [OF t2] by simp
  obtain vt3 where m3: "modify_voter i (\<lambda>a. a\<lparr>vi_proxy := vb_proxy vp, last_update := mc_time c, vi_builders := vb_builders vp\<rparr>) vt2 = Inr vt3"
    using modify_voter_ok [OF t2 u, of "\<lambda>a. a\<lparr>vi_proxy := vb_proxy vp, last_update := mc_time c, vi_builders := vb_builders vp\<rparr>"] by auto
  have "change_votes (\<lambda>t. t - w) (set_difference old new) (builders_of c) = Inl Ub \<or>
      (\<exists>bt. change_votes (\<lambda>t. t - w) (set_difference old new) (builders_of c) = Inr bt \<and> elect (vb_proxy vp = 0) w es bt = Inl Ub)"
    if "w = of_int (staked u) + (if vi_is_proxy u \<noteq> 0 then proxied_votes u else 0)" "es = (if old \<noteq> [] then set_difference new old else new)" for w es
    using ub lo jn m m3 unfolding that by (simp add: cast_votes_def bindE_Inl Let_def)
  then show False using change_votes_no_ub [OF b] elect_no_ub change_votes_inv [OF b] by metis
qed

section \<open>The voting keeps the invariant\<close>

definition other_tables :: "msg_context \<Rightarrow> xmx_token_object generic_index \<times> resource_token_object generic_index
    \<times> account_object generic_index \<times> authority_object generic_index" where
  "other_tables c = (tokens_of c, resources_of c, w_accounts (mc_world c), w_authorities (mc_world c))"

lemma other_tables_sets [simp]:
  "other_tables (set_voters vt c) = other_tables c" "other_tables (set_builder_infos bt c) = other_tables c"
  "other_tables (require_recipient a c) = other_tables c"
  by (simp_all add: other_tables_def set_voters_def set_builder_infos_def)

lemma voting_frame:
  "vote_builder vp c = Inr c' \<Longrightarrow> other_tables c' = other_tables c"
  "reg_builder b key c = Inr c' \<Longrightarrow> other_tables c' = other_tables c"
  "unreg_builder b c = Inr c' \<Longrightarrow> other_tables c' = other_tables c"
  "reg_proxy mem p c = Inr c' \<Longrightarrow> other_tables c' = other_tables c"
  "unreg_proxy p c = Inr c' \<Longrightarrow> other_tables c' = other_tables c"
  "increase_votes mem a x c = Inr c' \<Longrightarrow> other_tables c' = other_tables c"
  "decrease_votes a x c = Inr c' \<Longrightarrow> other_tables c' = other_tables c"
  by (auto simp: vote_builder_def cast_votes_def reg_builder_def unreg_builder_def reg_proxy_def unreg_proxy_def increase_votes_def
      decrease_votes_def bindE_Inr Let_def split: if_splits option.splits)

lemma keeps_voting:
  assumes inv: "sys_inv (mc_world c)" and no: "r \<noteq> Inl Ub"
    and votes: "\<And>c'. r = Inr c' \<Longrightarrow> votes_inv (voters_of c') (builders_of c')"
    and stake: "\<And>c' k. r = Inr c' \<Longrightarrow> stake_of k (voters_of c') = stake_of k (voters_of c)"
    and frame: "\<And>c'. r = Inr c' \<Longrightarrow> other_tables c' = other_tables c"
  shows "keeps (mc_world c) r"
proof -
  have "sys_inv (mc_world c') \<and> all_tokens (mc_world c') = all_tokens (mc_world c)" if r: "r = Inr c'" for c'
    using inv votes [OF r] stake [OF r] frame [OF r] by (simp add: sys_inv_def funds_inv_def all_tokens_def other_tables_def)
  then show ?thesis using no by (simp add: keeps_def)
qed

lemma sys_inv_voters: "sys_inv w \<Longrightarrow> votes_inv (w_voters w) (w_builders w) \<and> table_inv vi_owner (w_voters w) \<and> table_inv bi_owner (w_builders w)"
  by (simp add: sys_inv_def votes_inv_def)

lemma vote_builder_keeps:
  assumes inv: "sys_inv (mc_world c)"
  shows "keeps (mc_world c) (vote_builder vp c)"
proof (rule keeps_voting [OF inv])
  note v = sys_inv_voters [OF inv]
  define c0 where "c0 = (if vb_proxy vp \<noteq> 0 then require_recipient (vb_proxy vp) c else c)"
  have w0: "mc_world c0 = mc_world c" by (simp add: c0_def)
  show "vote_builder vp c \<noteq> Inl Ub"
  proof
    assume "vote_builder vp c = Inl Ub"
    then obtain i x where "find_voter (vb_voter vp) (voters_of c0) = Some (i, x)" "cast_votes vp (i, x) c0 = Inl Ub"
      unfolding vote_builder_def bindE_Inl c0_def by (auto simp: assertE_def split: if_splits option.splits)
    then show False using cast_votes_no_ub [of c0] v w0 by simp
  qed
qed (use sys_inv_voters [OF inv] vote_builder_inv vote_builder_stake voting_frame(1) in blast)+

lemma reg_builder_keeps:
  assumes inv: "sys_inv (mc_world c)"
  shows "keeps (mc_world c) (reg_builder b key c)"
proof (rule keeps_voting [OF inv])
  note v = sys_inv_voters [OF inv]
  show "reg_builder b key c \<noteq> Inl Ub"
  proof (cases "find_builder_info b (builders_of c)")
    case None
    then show ?thesis by (simp add: reg_builder_def bindE_Inl table_create_def split: sum.splits)
  next
    case (Some y)
    then obtain i x where b: "find_builder_info b (builders_of c) = Some (i, x)" by (cases y) auto
    obtain bt where "modify_builder_info i (\<lambda>x. x\<lparr>builder_key := key\<rparr>) (builders_of c) = Inr bt"
      using modify_builder_ok [of "builders_of c" b i x "\<lambda>x. x\<lparr>builder_key := key\<rparr>"] v b by auto
    then show ?thesis using b by (simp add: reg_builder_def)
  qed
qed (use sys_inv_voters [OF inv] reg_builder_inv builder_ops_stake(1) voting_frame(2) in \<open>metis\<close>)+

lemma unreg_builder_keeps:
  assumes inv: "sys_inv (mc_world c)"
  shows "keeps (mc_world c) (unreg_builder b c)"
proof (rule keeps_voting [OF inv])
  note v = sys_inv_voters [OF inv]
  show "unreg_builder b c \<noteq> Inl Ub"
  proof (cases "find_builder_info b (builders_of c)")
    case (Some y)
    then obtain i x where b: "find_builder_info b (builders_of c) = Some (i, x)" by (cases y) auto
    obtain bt where "modify_builder_info i (\<lambda>x. x\<lparr>builder_key := empty_public_key\<rparr>) (builders_of c) = Inr bt"
      using modify_builder_ok [of "builders_of c" b i x "\<lambda>x. x\<lparr>builder_key := empty_public_key\<rparr>"] v b by auto
    then show ?thesis using b by (simp add: unreg_builder_def)
  qed (simp add: unreg_builder_def)
qed (use sys_inv_voters [OF inv] unreg_builder_inv builder_ops_stake(2) voting_frame(3) in \<open>metis\<close>)+

lemma reg_proxy_keeps:
  assumes inv: "sys_inv (mc_world c)" and mem: "\<And>i. unstaking (mem i) = 0"
  shows "keeps (mc_world c) (reg_proxy mem p c)"
proof (rule keeps_voting [OF inv])
  note v = sys_inv_voters [OF inv]
  show "reg_proxy mem p c \<noteq> Inl Ub"
  proof (cases "find_voter p (voters_of c)")
    case None
    then show ?thesis by (simp add: reg_proxy_def bindE_Inl table_create_def split: sum.splits)
  next
    case (Some y)
    then obtain i x where p: "find_voter p (voters_of c) = Some (i, x)" by (cases y) auto
    obtain vt where "modify_voter i (\<lambda>a. a\<lparr>vi_is_proxy := 1, last_update := mc_time c\<rparr>) (voters_of c) = Inr vt"
      using modify_voter_ok [of "voters_of c" p i x "\<lambda>a. a\<lparr>vi_is_proxy := 1, last_update := mc_time c\<rparr>"] v p by auto
    then show ?thesis using p v change_votes_no_ub [of "builders_of c"] by (simp add: reg_proxy_def bindE_Inl)
  qed
qed (use sys_inv_voters [OF inv] reg_proxy_inv [of c mem p, OF _ mem] reg_proxy_stake [of c mem p] voting_frame(4) [of mem p c] in blast)+

lemma unreg_proxy_keeps:
  assumes inv: "sys_inv (mc_world c)"
  shows "keeps (mc_world c) (unreg_proxy p c)"
proof (rule keeps_voting [OF inv])
  note v = sys_inv_voters [OF inv]
  show "unreg_proxy p c \<noteq> Inl Ub"
  proof (cases "find_voter p (voters_of c)")
    case (Some y)
    then obtain i x where p: "find_voter p (voters_of c) = Some (i, x)" by (cases y) auto
    obtain vt where "modify_voter i (\<lambda>a. a\<lparr>vi_is_proxy := 0, last_update := mc_time c\<rparr>) (voters_of c) = Inr vt"
      using modify_voter_ok [of "voters_of c" p i x "\<lambda>a. a\<lparr>vi_is_proxy := 0, last_update := mc_time c\<rparr>"] v p by auto
    then show ?thesis using p v change_votes_no_ub [of "builders_of c"] by (simp add: unreg_proxy_def bindE_Inl)
  qed (simp add: unreg_proxy_def)
qed (use sys_inv_voters [OF inv] unreg_proxy_inv unreg_proxy_stake voting_frame(5) in blast)+

section \<open>Locking and unlocking\<close>

lemma increase_votes_no_ub:
  assumes t: "table_inv vi_owner (voters_of c)" and b: "table_inv bi_owner (builders_of c)" and s: "in64 (stake_of a (voters_of c) + x)"
  shows "increase_votes mem a x c \<noteq> Inl Ub"
proof -
  define nv where "nv = (\<lambda>i. (new_voter mem i)\<lparr>vi_owner := a, last_update := mc_time c, staked := x\<rparr>)"
  define f where "f = (\<lambda>v. bindE (share_add (staked v) x) (\<lambda>s. Inr (v\<lparr>last_update := mc_time c, staked := s\<rparr>)) :: contract_exc + voter_info_object)"
  define r where "r = (case find_voter a (voters_of c) of None \<Rightarrow> table_create (same_key vi_owner) nv (voters_of c)
       | Some (i, _) \<Rightarrow> table_update (same_key vi_owner) i f (voters_of c))"
  have "\<exists>vt i v. r = Inr vt \<and> table_inv vi_owner vt \<and> find_voter a vt = Some (i, v)"
  proof (cases "find_voter a (voters_of c)")
    case None
    have "vi_owner (nv i) = a" for i by (simp add: nv_def)
    then show ?thesis using voters.create_ok [of "voters_of c" nv, OF t] None by (auto simp: r_def)
  next
    case (Some y)
    then obtain i v where k: "find_voter a (voters_of c) = Some (i, v)" by (cases y) auto
    define v' where "v' = v\<lparr>last_update := mc_time c, staked := staked v + x\<rparr>"
    have "f v = Inr v'" using s stake_of_look [OF k] by (simp add: f_def v'_def share_add_def)
    moreover have "vi_owner v' = a" using voters.look_key [OF t k] by (simp add: v'_def)
    ultimately show ?thesis using voters.update_ok [of "voters_of c" a i v f v', OF t k] k by (auto simp: r_def)
  qed
  then obtain vt i v where vt: "r = Inr vt" "table_inv vi_owner vt" "find_voter a vt = Some (i, v)" by blast
  have "pass_to_proxy MessageValidate (\<lambda>t. t + of_int x) v vt \<noteq> Inl Ub" by (rule pass_to_proxy_no_ub [OF vt(2)]) simp
  then show ?thesis unfolding increase_votes_def nv_def [symmetric] f_def [symmetric] r_def [symmetric]
    using vt change_votes_no_ub [OF b] by (auto simp: bindE_Inl)
qed

lemma decrease_votes_no_ub:
  assumes inv: "votes_inv (voters_of c) (builders_of c)" and s: "0 \<le> stake_of a (voters_of c)" "stake_of a (voters_of c) < 2 ^ 63" and nn: "0 \<le> x"
  shows "decrease_votes a x c \<noteq> Inl Ub"
proof (cases "find_voter a (voters_of c)")
  case (Some y)
  then obtain i v where k: "find_voter a (voters_of c) = Some (i, v)" by (cases y) auto
  have t: "table_inv vi_owner (voters_of c)" and b: "table_inv bi_owner (builders_of c)" using inv by (simp_all add: votes_inv_def)
  have ok: "voter_ok (voters_of c) (builders_of c) v" by (rule votes_inv_ok [OF inv k])
  have key: "vi_owner v = a" by (rule voters.look_key [OF t k])
  have st: "0 \<le> staked v" "staked v < 2 ^ 63" using s stake_of_look [OF k] by simp_all
  have upd: "\<exists>vt. table_update (same_key vi_owner) i f (voters_of c) = Inr vt \<and> table_inv vi_owner vt \<and>
      (\<forall>k'. find_voter k' vt = (if k' = a then Some (i, v') else find_voter k' (voters_of c)))"
    if "f v = Inr v'" "vi_owner v' = vi_owner v" for f v'
    using voters.update_ok [of "voters_of c" a i v f v', OF t k that(1)] that(2) key by auto
  show ?thesis
  proof (cases "0 < x \<and> x \<le> staked v")
    case True
    define f where "f = (\<lambda>v. bindE (share_sub (staked v) x) (\<lambda>s. Inr (v\<lparr>staked := s, last_update := mc_time c\<rparr>)) :: contract_exc + voter_info_object)"
    have "f v = Inr (v\<lparr>staked := staked v - x, last_update := mc_time c\<rparr>)" using True st by (simp add: f_def share_sub_def in64_def)
    from upd [of f, OF this] obtain vt where vt: "table_update (same_key vi_owner) i f (voters_of c) = Inr vt" "table_inv vi_owner vt"
      and look: "\<And>k'. find_voter k' vt = (if k' = a then Some (i, v\<lparr>staked := staked v - x, last_update := mc_time c\<rparr>) else find_voter k' (voters_of c))"
      by auto
    have "vi_proxy v = 0 \<or> find_voter (vi_proxy v) vt \<noteq> None" using ok by (auto simp: look voter_ok_def)
    then have "pass_to_proxy Ub (\<lambda>t. t - of_int x) v vt \<noteq> Inl Ub" by (intro pass_to_proxy_no_ub [OF vt(2)]) simp
    then show ?thesis using k True vt(1) change_votes_no_ub [OF b] unfolding decrease_votes_def f_def by (auto simp: bindE_Inl)
  next
    case False
    define f where "f = (\<lambda>v. bindE (share_add (staked v) (unstaking v)) (\<lambda>s. Inr (v\<lparr>staked := s, unstaking := 0, unstake_per_week := 0,
              deferred_trx_id := 0, last_update := mc_time c\<rparr>)) :: contract_exc + voter_info_object)"
    have "unstaking v = 0" using ok by (simp add: voter_ok_def)
    then have "f v = Inr (v\<lparr>staked := staked v, unstaking := 0, unstake_per_week := 0, deferred_trx_id := 0, last_update := mc_time c\<rparr>)"
      using st by (simp add: f_def share_add_def in64_def)
    from upd [of f, OF this] obtain vt where "table_update (same_key vi_owner) i f (voters_of c) = Inr vt" by auto
    then show ?thesis using k False by (auto simp: decrease_votes_def f_def)
  qed
qed (simp add: decrease_votes_def)

text \<open>The end of both handlers: the stakes follow the locks.\<close>

lemma keeps_staking:
  assumes inv: "sys_inv (mc_world c)" and c1: "mc_world c1 = (mc_world c)\<lparr>w_tokens := tt, w_resources := rt\<rparr>"
    and ok: "tokens_ok tt" "resources_ok rt" and sum: "money tt + reserves rt = all_tokens (mc_world c)"
    and no: "r \<noteq> Inl Ub" and votes: "\<And>c'. r = Inr c' \<Longrightarrow> votes_inv (voters_of c') (builders_of c')"
    and stake: "\<And>c' k. r = Inr c' \<Longrightarrow> stake_of k (voters_of c') = locked_of k rt"
    and frame: "\<And>c'. r = Inr c' \<Longrightarrow> other_tables c' = other_tables c1"
  shows "keeps (mc_world c) r"
proof -
  have "sys_inv (mc_world c') \<and> all_tokens (mc_world c') = all_tokens (mc_world c)" if r: "r = Inr c'" for c'
    using inv votes [OF r] stake [OF r] frame [OF r] ok sum
    by (simp add: sys_inv_def funds_inv_def all_tokens_def other_tables_def c1)
  then show ?thesis using no by (simp add: keeps_def)
qed

lemma lock_keeps:
  assumes inv: "sys_inv (mc_world c)" and mem: "\<And>i. unstaking (mem i) = 0"
  shows "keeps (mc_world c) (xmax_system_lock mem l c)"
  unfolding xmax_system_lock_def Let_def
proof (intro keeps_intros, simp_all only: not_not contract_exc.distinct not_False_eq_True world_of_recipient)
  fix c0 :: msg_context and i a j r
  assume pos: "0 < lk_amount l" and w0: "mc_world c0 = mc_world c"
    and a: "find_token (lk_from l) (tokens_of c) = Some (i, a)" and le: "lk_amount l \<le> main_token a"
    and r: "find_resource (lk_to l) (resources_of c) = Some (j, r)"
  define x where "x = lk_amount l"
  define f where "f = (\<lambda>a. bindE (share_add (locked_token a) x) (\<lambda>y. Inr (a\<lparr>locked_token := y\<rparr>)) :: contract_exc + resource_token_object)"
  note m = money_small [OF inv] and rs = reserves_small [OF inv] and v = sys_inv_voters [OF inv]
  obtain tt where tt: "debit i x (tokens_of c) = Inr tt" "tokens_ok tt" "money tt = money (tokens_of c) - x"
    using debit_step [OF _ _ a, of x] m pos le by (auto simp: x_def)
  have small: "locked_token r + x < 2 ^ 63" "0 \<le> locked_token r" "0 \<le> unlocked_token r"
    using reserves_member [OF _ r] money_member [OF _ a] m rs le unfolding x_def by auto
  then have "f r = Inr (r\<lparr>locked_token := locked_token r + x\<rparr>)" using pos by (simp add: f_def share_add_def in64_def x_def)
  from set_resource [of "resources_of c" "lk_to l" j r f, OF _ r this] obtain rt where rt: "table_update (same_key res_owner) j f (resources_of c) = Inr rt" "resources_ok rt"
      "reserves rt = reserves (resources_of c) + x"
    and lk: "\<And>k. locked_of k rt = (if k = lk_to l then locked_token r + x else locked_of k (resources_of c))"
    using rs small pos by (auto simp: x_def)
  define c1 where "c1 = set_resources rt (set_tokens tt (require_recipient (lk_from l) (require_recipient (lk_to l) c0)))"
  have w1: "mc_world c1 = (mc_world c)\<lparr>w_tokens := tt, w_resources := rt\<rparr>" by (simp add: c1_def w0)
  have same: "stake_of k (w_voters (mc_world c)) = locked_of k (resources_of c)" for k using inv by (simp add: sys_inv_def funds_inv_def)
  have st: "stake_of (lk_to l) (voters_of c) = locked_token r" using r by (simp add: same locked_of_def)
  have "keeps (mc_world c) (increase_votes mem (lk_to l) x c1)"
  proof (rule keeps_staking [OF inv w1 tt(2) rt(2)])
    show "money tt + reserves rt = all_tokens (mc_world c)" by (simp add: tt(3) rt(3) all_tokens_def)
    show "increase_votes mem (lk_to l) x c1 \<noteq> Inl Ub"
      using small pos v st by (intro increase_votes_no_ub) (simp_all add: w1 in64_def x_def)
  next
    fix c'
    assume i: "increase_votes mem (lk_to l) x c1 = Inr c'"
    show "votes_inv (voters_of c') (builders_of c')" using increase_votes_inv [of c1 mem, OF _ mem i] v by (simp add: w1)
    show "other_tables c' = other_tables c1" by (rule voting_frame(6) [OF i])
    show "stake_of k (voters_of c') = locked_of k rt" for k
      using increase_votes_stake [of c1, OF _ i, of k] v st same by (simp add: w1 lk)
  qed
  then show "keeps (mc_world c) (bindE (debit i (lk_amount l) (tokens_of c)) (\<lambda>tt. bindE (table_update (same_key res_owner) j
      (\<lambda>a. bindE (share_add (locked_token a) (lk_amount l)) (\<lambda>x. Inr (a\<lparr>locked_token := x\<rparr>))) (resources_of c))
      (\<lambda>rt. increase_votes mem (lk_to l) (lk_amount l)
        (set_resources rt (set_tokens tt (require_recipient (lk_from l) (require_recipient (lk_to l) c0)))))))"
    using tt(1) rt(1) unfolding x_def f_def c1_def by simp
qed

lemma unlock_keeps:
  assumes inv: "sys_inv (mc_world c)"
  shows "keeps (mc_world c) (xmax_system_unlock u c)"
  unfolding xmax_system_unlock_def
proof (intro keeps_intros, simp_all only: not_not contract_exc.distinct not_False_eq_True)
  fix c0 :: msg_context and j r
  assume w0: "mc_world c0 = mc_world c" and pos: "0 \<le> ul_amount u"
    and r: "find_resource (ul_account u) (resources_of c) = Some (j, r)" and le: "ul_amount u \<le> locked_token r"
  define x where "x = ul_amount u"
  define f where "f = (\<lambda>a. bindE (share_sub (locked_token a) x) (\<lambda>y. bindE (share_add (unlocked_token a) x) (\<lambda>z.
               Inr (a\<lparr>locked_token := y, unlocked_token := z, last_unlocked_time := mc_time c0\<rparr>))) :: contract_exc + resource_token_object)"
  define r' where "r' = r\<lparr>locked_token := locked_token r - x, unlocked_token := unlocked_token r + x, last_unlocked_time := mc_time c0\<rparr>"
  note m = money_small [OF inv] and rs = reserves_small [OF inv] and v = sys_inv_voters [OF inv]
  have small: "locked_token r + unlocked_token r < 2 ^ 63" "0 \<le> locked_token r" "0 \<le> unlocked_token r"
    using reserves_member [OF _ r] money_nonneg [of "tokens_of c"] m rs by auto
  then have "f r = Inr r'" using pos le by (simp add: f_def r'_def share_add_def share_sub_def in64_def x_def)
  from set_resource [of "resources_of c" "ul_account u" j r f, OF _ r this] obtain rt
    where rt: "table_update (same_key res_owner) j f (resources_of c) = Inr rt" "resources_ok rt" "reserves rt = reserves (resources_of c)"
      and lk: "\<And>k. locked_of k rt = (if k = ul_account u then locked_token r - x else locked_of k (resources_of c))"
    using rs small pos le by (auto simp: x_def r'_def)
  define c1 where "c1 = set_resources rt c0"
  have w1: "mc_world c1 = (mc_world c)\<lparr>w_tokens := tokens_of c, w_resources := rt\<rparr>" by (simp add: c1_def w0)
  have same: "stake_of k (w_voters (mc_world c)) = locked_of k (resources_of c)" for k using inv by (simp add: sys_inv_def funds_inv_def)
  have st: "stake_of (ul_account u) (voters_of c) = locked_token r" using r by (simp add: same locked_of_def)
  have "keeps (mc_world c) (decrease_votes (ul_account u) x c1)"
  proof (rule keeps_staking [OF inv w1 _ rt(2)])
    show "tokens_ok (tokens_of c)" using m by blast
    show "money (tokens_of c) + reserves rt = all_tokens (mc_world c)" by (simp add: rt(3) all_tokens_def)
    show "decrease_votes (ul_account u) x c1 \<noteq> Inl Ub"
      using small pos v st by (intro decrease_votes_no_ub) (simp_all add: w1 x_def)
  next
    fix c'
    assume d: "decrease_votes (ul_account u) x c1 = Inr c'"
    have v1: "votes_inv (voters_of c1) (builders_of c1)" using v by (simp add: w1)
    show "votes_inv (voters_of c') (builders_of c')" by (rule decrease_votes_inv [OF v1 d])
    show "other_tables c' = other_tables c1" by (rule voting_frame(7) [OF d])
    show "stake_of k (voters_of c') = locked_of k rt" for k
      using decrease_votes_stake [OF v1 d, of k] pos st same by (simp add: w1 lk x_def)
  qed
  then show "keeps (mc_world c) (bindE (table_update (same_key res_owner) j
             (\<lambda>a. bindE (share_sub (locked_token a) (ul_amount u)) (\<lambda>x. bindE (share_add (unlocked_token a) (ul_amount u)) (\<lambda>y.
               Inr (a\<lparr>locked_token := x, unlocked_token := y, last_unlocked_time := mc_time c0\<rparr>)))) (resources_of c)) (\<lambda>rt.
           decrease_votes (ul_account u) (ul_amount u) (set_resources rt c0)))"
    using rt(1) unfolding x_def f_def c1_def by simp
qed

section \<open>New accounts\<close>

interpretation authorities: object_table ao_key "table_inv ao_key" "table_find ao_key"
    "table_update (same_key ao_key)" "table_create (same_key ao_key)" gi_next_id
  by (rule table_is_object_table)

lemma table_create_no_ub [simp]: "table_create conf f g \<noteq> Inl Ub"
  by (simp add: table_create_def split: sum.splits)

lemma addaccount_keeps:
  assumes inv: "sys_inv (mc_world c)"
  shows "keeps (mc_world c) (xmax_system_addaccount m c)"
  unfolding xmax_system_addaccount_def
proof (intro keeps_auth keeps_if, simp_all only: not_not contract_exc.distinct not_False_eq_True)
  fix c0 :: msg_context
  assume w0: "mc_world c0 = mc_world c" and pos: "0 < as_amount (aa_deposit m)"
  define x where "x = as_amount (aa_deposit m)"
  define auths where "auths = w_authorities (mc_world c)"
  define r where "r = bindE (xmax_new_account (aa_name m) (mc_time c0) acc_personal (w_accounts (mc_world c))) (\<lambda>at.
         bindE (table_get tok_owner (aa_creator m) (tokens_of c)) (\<lambda>(i, creator_token).
         if \<not> x \<le> main_token creator_token then Inl MessageValidate
         else bindE (debit i x (tokens_of c)) (\<lambda>tt.
           bindE (table_create (same_key tok_owner) (\<lambda>_. \<lparr>tok_owner = aa_name m, main_token = x\<rparr>) tt) (\<lambda>tt.
           let auths = w_authorities (mc_world c); owner_id = gi_next_id auths
           in bindE (new_authority (aa_name m) xmax_owner_name 0 (aa_owner m) (mc_time c0) auths) (\<lambda>auths.
             bindE (new_authority (aa_name m) xmax_active_name owner_id (aa_active m) (mc_time c0) auths) (\<lambda>auths.
             Inr (set_authorities auths (set_tokens tt (set_accounts at c0)))))))))"
  note ms = money_small [OF inv]
  have deb: "\<exists>tt. debit i x (tokens_of c) = Inr tt \<and> tokens_ok tt \<and> money tt = money (tokens_of c) - x"
    if "find_token (aa_creator m) (tokens_of c) = Some (i, a)" "x \<le> main_token a" for i a
    using debit_step [OF _ _ that(1), of x] ms pos that(2) by (auto simp: x_def)
  have "r \<noteq> Inl Ub"
  proof
    assume "r = Inl Ub"
    then obtain i a where "find_token (aa_creator m) (tokens_of c) = Some (i, a)" "x \<le> main_token a" "debit i x (tokens_of c) = Inl Ub"
      by (auto simp: r_def bindE_Inl xmax_new_account_def new_authority_def Let_def table_get_def split: option.splits if_splits)
    then show False using deb by fastforce
  qed
  moreover have "sys_inv (mc_world c') \<and> all_tokens (mc_world c') = all_tokens (mc_world c)" if r: "r = Inr c'" for c'
  proof -
    obtain at i a tt tt' au au' where at: "xmax_new_account (aa_name m) (mc_time c0) acc_personal (w_accounts (mc_world c)) = Inr at"
      and a: "find_token (aa_creator m) (tokens_of c) = Some (i, a)" "x \<le> main_token a" and tt: "debit i x (tokens_of c) = Inr tt"
      and tt': "table_create (same_key tok_owner) (\<lambda>_. \<lparr>tok_owner = aa_name m, main_token = x\<rparr>) tt = Inr tt'"
      and au: "new_authority (aa_name m) xmax_owner_name 0 (aa_owner m) (mc_time c0) auths = Inr au"
      and au': "new_authority (aa_name m) xmax_active_name (gi_next_id auths) (aa_active m) (mc_time c0) au = Inr au'"
      and c': "c' = set_authorities au' (set_tokens tt' (set_accounts at c0))"
      using r by (auto simp: r_def bindE_Inr table_get_def Let_def auths_def split: option.splits if_splits)
    have w: "table_inv acc_name (w_accounts (mc_world c))" "table_inv ao_key auths" using inv by (simp_all add: sys_inv_def auths_def)
    have ati: "table_inv acc_name at" using accounts.createE [OF w(1) at [unfolded xmax_new_account_def]] by blast
    have aui: "table_inv ao_key au" using authorities.createE [OF w(2) au [unfolded new_authority_def]] by blast
    have aui': "table_inv ao_key au'" using authorities.createE [OF aui au' [unfolded new_authority_def]] by blast
    have t: "tokens_ok tt" "money tt = money (tokens_of c) - x" using deb [OF a] tt by auto
    then have ti: "table_inv tok_owner tt" by (simp add: tokens_ok_def)
    from tokens.createE [OF ti tt'] obtain tn: "find_token (aa_name m) tt = None" and ti': "table_inv tok_owner tt'"
      and look: "\<And>k'. find_token k' tt' = (if k' = aa_name m then Some (gi_next_id tt, \<lparr>tok_owner = aa_name m, main_token = x\<rparr>) else find_token k' tt)"
      by simp metis
    have "money tt' = x + money tt" unfolding money_def using tokens.create_tally [OF ti tn look, of main_token] by simp
    moreover have "tokens_ok tt'" using t(1) ti' pos by (auto simp: tokens_ok_def look x_def)
    ultimately show ?thesis using t(2) inv ati aui' by (simp add: c' w0 sys_inv_def funds_inv_def all_tokens_def)
  qed
  ultimately have "keeps (mc_world c) r" by (simp add: keeps_def)
  then show "keeps (mc_world c) (bindE (xmax_new_account (aa_name m) (mc_time c0) acc_personal (w_accounts (mc_world c))) (\<lambda>at.
         bindE (table_get tok_owner (aa_creator m) (tokens_of c)) (\<lambda>(i, creator_token).
         if \<not> as_amount (aa_deposit m) \<le> main_token creator_token then Inl MessageValidate
         else bindE (debit i (as_amount (aa_deposit m)) (tokens_of c)) (\<lambda>tt.
           bindE (table_create (same_key tok_owner) (\<lambda>_. \<lparr>tok_owner = aa_name m, main_token = as_amount (aa_deposit m)\<rparr>) tt) (\<lambda>tt.
           let auths = w_authorities (mc_world c); owner_id = gi_next_id auths
           in bindE (new_authority (aa_name m) xmax_owner_name 0 (aa_owner m) (mc_time c0) auths) (\<lambda>auths.
             bindE (new_authority (aa_name m) xmax_active_name owner_id (aa_active m) (mc_time c0) auths) (\<lambda>auths.
             Inr (set_authorities auths (set_tokens tt (set_accounts at c0))))))))))"
    unfolding r_def x_def .
qed

text \<open>Every call of the system contract.\<close>

lemma sys_apply_keeps:
  assumes "sys_inv (mc_world c)" and "\<And>i. unstaking (mem i) = 0"
  shows "keeps (mc_world c) (sys_apply mem call c)"
  using assms transfer_keeps lock_keeps unlock_keeps addaccount_keeps vote_builder_keeps reg_builder_keeps unreg_builder_keeps
    reg_proxy_keeps unreg_proxy_keeps by (cases call) simp_all

end
