(* ===== verification/Contract_System.thy ===== *)
theory Contract_System
  imports Contract_Funds
begin

text \<open>
  What the system contract guarantees over any sequence of messages: tokens are conserved, votes are accounted for, nothing is
  undefined; the election of the builders of the next round; and that on a chain as the code starts it nobody can lock tokens.
\<close>

section \<open>Messages one after the other\<close>

text \<open>A message comes with its own context. One that throws leaves the tables as they were.\<close>

fun sys_run :: "(int \<Rightarrow> voter_info_object) \<Rightarrow> (sys_call \<times> msg_context) list \<Rightarrow> world \<Rightarrow> world" where
  "sys_run mem [] w = w"
| "sys_run mem ((call, c) # ms) w =
     sys_run mem ms (case sys_apply mem call (c\<lparr>mc_world := w\<rparr>) of Inl _ \<Rightarrow> w | Inr c' \<Rightarrow> mc_world c')"

lemma sys_run_keeps:
  assumes mem: "\<And>i. unstaking (mem i) = 0"
  shows "sys_inv w \<Longrightarrow> sys_inv (sys_run mem ms w) \<and> all_tokens (sys_run mem ms w) = all_tokens w"
proof (induction ms arbitrary: w)
  case (Cons m ms)
  obtain call c where m: "m = (call, c)" by (cases m) auto
  have k: "keeps w (sys_apply mem call (c\<lparr>mc_world := w\<rparr>))"
    using sys_apply_keeps [of "c\<lparr>mc_world := w\<rparr>" mem call, OF _ mem] Cons.prems by simp
  define w1 where "w1 = (case sys_apply mem call (c\<lparr>mc_world := w\<rparr>) of Inl _ \<Rightarrow> w | Inr c' \<Rightarrow> mc_world c')"
  have "sys_inv w1 \<and> all_tokens w1 = all_tokens w" using k Cons.prems by (auto simp: keeps_def w1_def split: sum.splits)
  moreover have "sys_run mem (m # ms) w = sys_run mem ms w1" by (simp add: m w1_def)
  ultimately show ?case using Cons.IH by simp
qed simp

lemma balance_bounded:
  assumes "sys_inv w" and "find_token k (w_tokens w) = Some (i, a)"
  shows "0 \<le> main_token a \<and> main_token a \<le> all_tokens w"
  using money_member [OF _ assms(2)] reserves_nonneg [of "w_resources w"] money_small [OF assms(1)] reserves_small [OF assms(1)]
  by (simp add: all_tokens_def)

text \<open>
  C20. Whatever the messages, the tokens in all accounts, free, locked and unlocked, stay the same in sum, and no balance ever
  becomes negative or larger than that sum: the signed amounts do not overflow.
\<close>

theorem tokens_conserved:
  assumes "sys_inv w" and "\<And>i. unstaking (mem i) = 0"
  shows "all_tokens (sys_run mem ms w) = all_tokens w \<and>
    (\<forall>k i a. find_token k (w_tokens (sys_run mem ms w)) = Some (i, a) \<longrightarrow> 0 \<le> main_token a \<and> main_token a \<le> all_tokens w)"
  using sys_run_keeps [of mem w ms, OF assms(2,1)] balance_bounded [of "sys_run mem ms w"] by metis



section \<open>The next round\<close>

lemma sort_key_desc: "sorted_wrt (\<lambda>x y. f y \<le> f x) (rev (sort_key f xs))"
  by (simp add: sorted_wrt_rev sorted_sort_key [unfolded sorted_map])

lemma distinct_owners:
  assumes t: "table_inv key g" and "set ps \<subseteq> set (gi_indices g)" and "distinct ps"
  shows "distinct (map (\<lambda>p. key (snd p)) ps)"
proof -
  have "inj_on (\<lambda>p. key (snd p)) (set (gi_indices g))"
  proof (rule inj_onI)
    fix p q
    assume p: "p \<in> set (gi_indices g)" and q: "q \<in> set (gi_indices g)" and e: "key (snd p) = key (snd q)"
    have "map_of (gi_indices g) (fst p) = Some (snd p)" "map_of (gi_indices g) (fst q) = Some (snd q)"
      using t p q by (simp_all add: table_inv_def)
    then have "fst p = fst q \<and> snd p = snd q" using t e unfolding table_inv_def by (metis option.inject)
    then show "p = q" by (simp add: prod_eq_iff)
  qed
  then show ?thesis using assms(2,3) by (simp add: distinct_map inj_on_subset)
qed

lemma find_in_table: "table_inv key g \<Longrightarrow> (i, v) \<in> set (gi_indices g) \<longleftrightarrow> table_find key (key v) g = Some (i, v)"
  using table_find_iff [of key g "key v" i v] by (simp add: table_inv_def)

lemma table_keys:
  assumes t: "table_inv key g"
  shows "{k. \<exists>i v. table_find key k g = Some (i, v) \<and> P v} = (\<lambda>p. key (snd p)) ` {p \<in> set (gi_indices g). P (snd p)}" (is "?L = ?R")
proof
  show "?L \<subseteq> ?R"
  proof
    fix k
    assume "k \<in> ?L"
    then obtain i v where k: "table_find key k g = Some (i, v)" "P v" by blast
    then have "key v = k" "(i, v) \<in> set (gi_indices g)" using table_find_iff [OF t] t by (auto simp: table_inv_def)
    then show "k \<in> ?R" using k(2) by (intro image_eqI [of _ _ "(i, v)"]) simp_all
  qed
  show "?R \<subseteq> ?L" using find_in_table [OF t] by auto
qed

text \<open>
  C23. When some builder is active, the next round consists of the 21 active builders with the most votes (the younger registration
  wins a tie), or of all of them if they are fewer, each once, ordered by name and with its registered key.
\<close>

theorem next_round_elects:
  assumes t: "table_inv bi_owner g" and act: "find_builder_info k0 g = Some (i0, b0)" "is_actived b0" and r: "r = next_round key g"
  shows "sorted (map builder_name r) \<and> distinct (map builder_name r) \<and>
    length r = min 21 (card {k. \<exists>i b. find_builder_info k g = Some (i, b) \<and> is_actived b}) \<and>
    (\<forall>e \<in> set r. \<exists>i b. find_builder_info (builder_name e) g = Some (i, b) \<and> is_actived b \<and> block_signing_key e = builder_key b \<and>
      (\<forall>k i' b'. find_builder_info k g = Some (i', b') \<longrightarrow> is_actived b' \<longrightarrow> k \<notin> builder_name ` set r \<longrightarrow>
        (total_votes b', i') \<le> (total_votes b, i)))"
proof -
  define f where "f = (\<lambda>(i, b::builder_info_object). (total_votes b, i) :: u128 \<times> int)"
  define L where "L = rev (sort_key f (gi_indices g))"
  define A where "A = filter (\<lambda>p. is_actived (snd p)) L"
  define T where "T = take 21 A"
  define info where "info = (\<lambda>p::int \<times> builder_info_object. \<lparr>builder_name = bi_owner (snd p), block_signing_key = builder_key (snd p)\<rparr>)"
  have setA: "set A = {p \<in> set (gi_indices g). is_actived (snd p)}" and subT: "set T \<subseteq> set A"
    by (auto simp: A_def L_def T_def dest: in_set_takeD)
  have dL: "distinct L" using t by (simp add: L_def table_inv_def distinct_map)
  then have dA: "distinct A" and dT: "distinct T" by (simp_all add: A_def T_def)
  have sA: "sorted_wrt (\<lambda>x y. f y \<le> f x) A" unfolding A_def L_def by (rule sorted_wrt_filter [OF sort_key_desc])
  have "(i0, b0) \<in> set A" using act find_in_table [OF t] builders.look_key [OF t act(1)] by (simp add: setA)
  then have "T \<noteq> []" by (auto simp: T_def)
  have "map (\<lambda>b. \<lparr>builder_name = bi_owner b, block_signing_key = builder_key b\<rparr>) (take 21 (filter (\<lambda>b. builder_key b \<noteq> empty_public_key) (by_votes g))) = map info T"
    by (simp add: by_votes_def f_def [symmetric] L_def [symmetric] T_def A_def filter_map take_map comp_def is_actived_def info_def)
  then have r': "r = sort_key builder_name (map info T)" using \<open>T \<noteq> []\<close> by (simp add: r next_round_def)
  have names: "builder_name ` set r = (\<lambda>p. bi_owner (snd p)) ` set T" by (simp add: r' info_def image_image)
  have "distinct (map (\<lambda>p. bi_owner (snd p)) T)" using distinct_owners [OF t _ dT] subT setA by auto
  then have "distinct (map builder_name (map info T))" by (simp add: info_def comp_def)
  then have 1: "distinct (map builder_name r)" unfolding r'
    by (metis distinct_map distinct_sort set_sort)
  have "{k. \<exists>i b. find_builder_info k g = Some (i, b) \<and> is_actived b} = (\<lambda>p. bi_owner (snd p)) ` set A"
    unfolding setA by (rule table_keys [OF t])
  then have "card {k. \<exists>i b. find_builder_info k g = Some (i, b) \<and> is_actived b} = length A"
    using distinct_owners [OF t _ dA] setA by (metis (no_types, lifting) distinct_card length_map list.set_map mem_Collect_eq subsetI)
  then have 2: "length r = min 21 (card {k. \<exists>i b. find_builder_info k g = Some (i, b) \<and> is_actived b})" by (simp add: r' T_def)
  have 3: "\<exists>i b. find_builder_info (builder_name e) g = Some (i, b) \<and> is_actived b \<and> block_signing_key e = builder_key b \<and>
      (\<forall>k i' b'. find_builder_info k g = Some (i', b') \<longrightarrow> is_actived b' \<longrightarrow> k \<notin> builder_name ` set r \<longrightarrow>
        (total_votes b', i') \<le> (total_votes b, i))" if "e \<in> set r" for e
  proof -
    have "e \<in> info ` set T" using that by (simp add: r')
    then obtain i b where p: "(i, b) \<in> set T" "e = info (i, b)" by (metis imageE prod.collapse)
    have "(total_votes b', i') \<le> (total_votes b, i)"
      if b': "find_builder_info k g = Some (i', b')" "is_actived b'" "k \<notin> builder_name ` set r" for k i' b'
    proof -
      have key: "bi_owner b' = k" by (rule builders.look_key [OF t b'(1)])
      then have "(i', b') \<in> set A" using b' find_in_table [OF t] by (simp add: setA)
      moreover have "(i', b') \<notin> set T" using b'(3) key unfolding names by (metis image_eqI snd_conv)
      ultimately have "(i', b') \<in> set (drop 21 A)" unfolding T_def by (metis Un_iff append_take_drop_id set_append)
      moreover have "sorted_wrt (\<lambda>x y. f y \<le> f x) (take 21 A @ drop 21 A)" using sA by simp
      ultimately have "f (i', b') \<le> f (i, b)" using p(1) unfolding sorted_wrt_append T_def by blast
      then show ?thesis by (simp add: f_def)
    qed
    then show ?thesis using p subT setA find_in_table [OF t, of i b] by (intro exI [of _ i] exI [of _ b]) (auto simp: info_def)
  qed
  show ?thesis using 1 2 3 by (simp add: r')
qed

section \<open>An example\<close>

text \<open>Sums over a table are sums over its objects, and what holds for all objects of a table can be read off it.\<close>

lemma tally_table:
  assumes t: "table_inv key g"
  shows "tally F (\<lambda>k. table_find key k g) = (\<Sum>p \<leftarrow> gi_indices g. F (snd p))"
proof -
  have d: "distinct (gi_indices g)" using t by (simp add: table_inv_def distinct_map)
  have "inj_on (\<lambda>p. key (snd p)) (set (gi_indices g))" using distinct_owners [OF t subset_refl d] by (simp add: distinct_map)
  moreover have "{k. table_find key k g \<noteq> None} = (\<lambda>p. key (snd p)) ` set (gi_indices g)"
    using table_keys [OF t, of "\<lambda>_. True"] by simp
  moreover have "snd (the (table_find key (key (snd p)) g)) = snd p" if "p \<in> set (gi_indices g)" for p
    using find_in_table [OF t, of "fst p" "snd p"] that by simp
  ultimately have "tally F (\<lambda>k. table_find key k g) = (\<Sum>p \<in> set (gi_indices g). F (snd p))"
    by (simp add: tally_def sum.reindex)
  then show ?thesis using d by (simp add: sum_list_distinct_conv_sum_set)
qed

definition table_of :: "'v list \<Rightarrow> 'v generic_index" where
  "table_of vs = \<lparr>gi_stack = [], gi_revision = 0, gi_next_id = int (length vs), gi_indices = zip (map int [0..<length vs]) vs\<rparr>"

lemma table_of_inv: "distinct (map key vs) \<Longrightarrow> table_inv key (table_of vs)"
  by (auto simp: table_inv_def table_of_def distinct_map map_of_zip_nth inj_on_def in_set_zip distinct_conv_nth
      dest!: map_of_SomeD)

lemma table_of_found: "table_find key k (table_of vs) = Some (i, v) \<Longrightarrow> v \<in> set vs"
  by (auto simp: table_find_def table_of_def dest!: find_SomeD set_zip_rightD)

definition ex_voter :: "int \<Rightarrow> voter_info_object" where
  "ex_voter _ = \<lparr>vi_owner = 0, vi_proxy = 0, vi_is_proxy = 0, proxied_votes = 0, vi_builders = [], staked = 0, unstaking = 0,
     unstake_per_week = 0, deferred_trx_id = 0, last_update = 0, last_unstake_time = 0\<rparr>"

text \<open>Two accounts with tokens, both able to lock them.\<close>

definition ex_world :: world where
  "ex_world = \<lparr>w_authorities = table_of [], w_links = table_of [], w_accounts = table_of [],
     w_tokens = table_of [\<lparr>tok_owner = 1, main_token = 100\<rparr>, \<lparr>tok_owner = 2, main_token = 50\<rparr>],
     w_resources = table_of [\<lparr>res_owner = 1, locked_token = 0, unlocked_token = 0, last_unlocked_time = 0\<rparr>,
       \<lparr>res_owner = 2, locked_token = 0, unlocked_token = 0, last_unlocked_time = 0\<rparr>],
     w_voters = table_of [], w_builders = table_of [], w_erc20 = table_of [], w_erc20_accounts = table_of [],
     w_erc721 = table_of [], w_erc721_accounts = table_of []\<rparr>"

definition ex_context :: msg_context where
  "ex_context = \<lparr>mc_msg = \<lparr>msg_code = 9, msg_type = 0, msg_authorization = [\<lparr>auth_account = 1, auth_authority = 0\<rparr>], msg_data = []\<rparr>,
     mc_code = 9, mc_scope = [1, 2, xmax_contract_name], mc_used = [False], mc_notified = [], mc_inline = [], mc_time = 7,
     mc_world = ex_world\<rparr>"

definition ex_calls :: "sys_call list" where
  "ex_calls = [Transfer \<lparr>tr_from = 1, tr_to = 2, tr_amount = 20, tr_memo = []\<rparr>, Regbuilder 5 [1],
     Lock \<lparr>lk_from = 1, lk_to = 1, lk_amount = 30\<rparr>, Votebuilder \<lparr>vb_voter = 1, vb_proxy = 0, vb_builders = [5]\<rparr>,
     Unlock \<lparr>ul_account = 1, ul_amount = 10\<rparr>]"

definition ex_run :: world where
  "ex_run = sys_run ex_voter (map (\<lambda>x. (x, ex_context)) ex_calls) ex_world"

lemma ex_world_tables:
  "table_inv tok_owner (w_tokens ex_world)" "table_inv res_owner (w_resources ex_world)" "table_inv vi_owner (w_voters ex_world)"
  "table_inv bi_owner (w_builders ex_world)" "table_inv acc_name (w_accounts ex_world)" "table_inv ao_key (w_authorities ex_world)"
  by (simp_all add: ex_world_def table_of_inv)

lemma ex_world_tokens: "all_tokens ex_world = 150"
  unfolding all_tokens_def money_def reserves_def tally_table [OF ex_world_tables(1)] tally_table [OF ex_world_tables(2)]
  by (simp add: ex_world_def table_of_def)

lemma ex_world_inv: "sys_inv ex_world"
proof -
  have nov: "find_voter k (w_voters ex_world) = None" "find_builder_info k (w_builders ex_world) = None" for k
    by (simp_all add: ex_world_def table_of_def table_find_def)
  have tok: "tokens_ok (w_tokens ex_world)" using ex_world_tables(1) by (auto simp: tokens_ok_def ex_world_def dest!: table_of_found)
  have res: "resources_ok (w_resources ex_world)" using ex_world_tables(2) by (auto simp: resources_ok_def ex_world_def dest!: table_of_found)
  have "locked_of k (w_resources ex_world) = 0" for k
    by (auto simp: locked_of_def ex_world_def dest!: table_of_found split: option.splits)
  then show ?thesis using tok res ex_world_tables ex_world_tokens nov
    by (simp add: sys_inv_def funds_inv_def votes_inv_def stake_of_def)
qed

lemma ex_mem: "unstaking (ex_voter i) = 0"
  by (simp add: ex_voter_def)

lemmas table_eval = table_find_def table_get_def table_update_def table_create_def table_of_def same_key_def gi_modify_def gi_emplace_def
  idx_modify_def idx_emplace_def on_modify_def on_create_def Let_def

lemmas handler_eval = require_scope_def require_authorization_def require_recipient_def assertE_def share_add_def share_sub_def in64_def
  debit_def credit_def set_tokens_def set_resources_def set_voters_def set_builder_infos_def modify_voter_def modify_builder_info_def
  pass_to_proxy_def new_voter_def xmax_system_transfer_def xmax_system_lock_def xmax_system_unlock_def reg_builder_def vote_builder_def
  increase_votes_def decrease_votes_def cast_votes_def leave_old_def join_new_def is_actived_def

lemma ex_key: "[1] \<noteq> empty_public_key"
proof
  assume "[1] = empty_public_key"
  then have "length [1 :: u8] = length empty_public_key" by metis
  then show False by (simp add: empty_public_key_def)
qed

lemma ex_run_result:
  "gi_indices (w_builders ex_run) = [(0, \<lparr>bi_owner = 5, total_votes = 20, builder_key = [1]\<rparr>)] \<and>
   gi_indices (w_tokens ex_run) = [(0, \<lparr>tok_owner = 1, main_token = 50\<rparr>), (1, \<lparr>tok_owner = 2, main_token = 70\<rparr>)]"
  using ex_key by (simp add: ex_run_def ex_calls_def ex_context_def ex_world_def ex_voter_def table_eval handler_eval upt_rec)

lemma ex_run_builder: "find_builder_info 5 (w_builders ex_run) = Some (0, \<lparr>bi_owner = 5, total_votes = 20, builder_key = [1]\<rparr>)"
  by (simp add: table_find_def ex_run_result)

lemma tokens_conserved_witness: "all_tokens ex_run = 150"
  using tokens_conserved [of ex_world ex_voter "map (\<lambda>x. (x, ex_context)) ex_calls", OF ex_world_inv ex_mem] ex_world_tokens by (simp add: ex_run_def)



lemma ex_run_table: "table_inv bi_owner (w_builders ex_run)"
  using sys_run_keeps [of ex_voter ex_world "map (\<lambda>x. (x, ex_context)) ex_calls", OF ex_mem ex_world_inv]
  by (simp add: ex_run_def sys_inv_def votes_inv_def)

lemma next_round_elects_witness:
  "distinct (map builder_name (next_round [7] (w_builders ex_run))) \<and> sorted (map builder_name (next_round [7] (w_builders ex_run)))"
  using next_round_elects [OF ex_run_table ex_run_builder _ refl, of "[7]"] ex_key by (simp add: is_actived_def)

section \<open>Nobody can lock tokens\<close>

text \<open>The handlers update the objects in which tokens are locked, but none makes one.\<close>

lemma no_new_resources:
  assumes e: "gi_indices (resources_of c) = []" and r: "sys_apply mem call c = Inr c'"
  shows "gi_indices (resources_of c') = []"
proof -
  have none: "table_get res_owner k (resources_of c) = Inl DbThrow" for k by (simp add: table_get_def table_find_def e)
  show ?thesis
  proof (cases call)
    case (Transfer t)
    then show ?thesis using r e by (auto simp: xmax_system_transfer_def bindE_Inr require_scope_def Let_def split: if_splits)
  next
    case (Lock l)
    then show ?thesis using r none
      by (auto simp: xmax_system_lock_def bindE_Inr require_scope_def require_authorization_def Let_def split: if_splits option.splits)
  next
    case (Unlock u)
    then show ?thesis using r none
      by (auto simp: xmax_system_unlock_def bindE_Inr require_authorization_def split: if_splits option.splits)
  next
    case (Addaccount m)
    then show ?thesis using r e
      by (auto simp: xmax_system_addaccount_def bindE_Inr require_authorization_def Let_def split: if_splits option.splits)
  qed (use r e voting_frame in \<open>auto simp: other_tables_def\<close>)
qed

lemma no_resources_run: "gi_indices (w_resources w) = [] \<Longrightarrow> gi_indices (w_resources (sys_run mem ms w)) = []"
proof (induction mem ms w rule: sys_run.induct)
  case (2 mem call c ms w)
  have "gi_indices (w_resources (case sys_apply mem call (c\<lparr>mc_world := w\<rparr>) of Inl _ \<Rightarrow> w | Inr c' \<Rightarrow> mc_world c')) = []"
    using 2(2) no_new_resources [of "c\<lparr>mc_world := w\<rparr>" mem call] by (auto split: sum.splits)
  then show ?case using 2(1) by simp
qed simp

text \<open>
  C24. No handler ever makes the object in which an account's tokens are locked: on a chain that starts without any, whatever
  messages ran before, every lock throws, so nobody can get the stake that a vote needs.
\<close>

theorem nobody_can_lock:
  assumes "gi_indices (w_resources w) = []"
  shows "\<exists>e. sys_apply mem (Lock l) (c\<lparr>mc_world := sys_run mem ms w\<rparr>) = Inl e"
proof -
  have "table_get res_owner k (w_resources (sys_run mem ms w)) = Inl DbThrow" for k
    using no_resources_run [OF assms, of mem ms] by (simp add: table_get_def table_find_def)
  then show ?thesis
    by (auto simp: xmax_system_lock_def bindE_def require_scope_def assertE_def require_authorization_def Let_def split: if_splits option.splits sum.splits)
qed

lemma nobody_can_lock_witness:
  "\<exists>e. sys_apply ex_voter (Lock \<lparr>lk_from = 1, lk_to = 1, lk_amount = 30\<rparr>)
    (ex_context\<lparr>mc_world := sys_run ex_voter (map (\<lambda>x. (x, ex_context)) ex_calls) (ex_world\<lparr>w_resources := table_of []\<rparr>)\<rparr>) = Inl e"
  by (rule nobody_can_lock) (simp add: table_of_def)

end
