(* ===== verification/Contract_Erc20.thy ===== *)
theory Contract_Erc20
  imports Contract_Erc Contract_System
begin

text \<open>
  The divisible tokens: the balances of a token add up to its supply after any messages, and a transfer moves exactly its value.
  The numbered tokens: an account holds at most one of each contract.
\<close>

section \<open>Supply and balances\<close>

definition holdings :: "asset_symbol \<Rightarrow> erc20_token_account_object generic_index \<Rightarrow> int" where
  "holdings t g = tally (\<lambda>a. if e20a_name a = t then e20a_balance a else 0) (\<lambda>k. table_find e20a_key k g)"

definition supply_of :: "asset_symbol \<Rightarrow> world \<Rightarrow> int" where
  "supply_of t w = (case find_erc20 t w of None \<Rightarrow> 0 | Some (_, tok) \<Rightarrow> total_supply tok)"

definition balance_of :: "asset_symbol \<Rightarrow> account_name \<Rightarrow> world \<Rightarrow> int" where
  "balance_of t a w = (case find_account20 t a w of None \<Rightarrow> 0 | Some (_, x) \<Rightarrow> e20a_balance x)"

definition erc20_inv :: "world \<Rightarrow> bool" where
  "erc20_inv w \<longleftrightarrow> table_inv e20_name (w_erc20 w) \<and> table_inv e20a_key (w_erc20_accounts w) \<and>
     (\<forall>t. holdings t (w_erc20_accounts w) = supply_of t w)"

datatype erc20_call = Adderc20 adderc20_msg | Mint20 minterc20_msg | Stopmint20 asset_symbol | Revoke20 asset_symbol
  | Transfer20 transferfromerc20_msg

fun erc20_apply :: "erc20_call \<Rightarrow> msg_context \<Rightarrow> contract_exc + msg_context" where
  "erc20_apply (Adderc20 m) c = xmax_system_adderc20 m c"
| "erc20_apply (Mint20 m) c = xmax_erc20_mint m c"
| "erc20_apply (Stopmint20 t) c = xmax_erc20_stopmint t c"
| "erc20_apply (Revoke20 t) c = xmax_erc20_revoke t c"
| "erc20_apply (Transfer20 m) c = xmax_erc20_transferfrom m c"

fun erc20_run :: "(erc20_call \<times> msg_context) list \<Rightarrow> world \<Rightarrow> world" where
  "erc20_run [] w = w"
| "erc20_run ((call, c) # ms) w = erc20_run ms (case erc20_apply call (c\<lparr>mc_world := w\<rparr>) of Inl _ \<Rightarrow> w | Inr c' \<Rightarrow> mc_world c')"

section \<open>Changing one account or one token\<close>

lemma world_of_erc20 [simp]:
  "mc_world (set_erc20 tt c) = (mc_world c)\<lparr>w_erc20 := tt\<rparr>" "mc_world (set_erc20_accounts bt c) = (mc_world c)\<lparr>w_erc20_accounts := bt\<rparr>"
  by (simp_all add: set_erc20_def set_erc20_accounts_def)

lemma balance_update:
  assumes t: "table_inv e20a_key g" and k: "table_find e20a_key (s, a) g = Some (i, x)" and u: "table_update (same_key e20a_key) i f g = Inr g'"
    and f: "\<And>x'. f x = Inr x' \<Longrightarrow> x' = x\<lparr>e20a_balance := b\<rparr>"
  shows "f x = Inr (x\<lparr>e20a_balance := b\<rparr>) \<and> table_inv e20a_key g' \<and> (\<forall>s'. holdings s' g' = holdings s' g + (if s' = s then b - e20a_balance x else 0)) \<and>
    (\<forall>k. table_find e20a_key k g' = (if k = (s, a) then Some (i, x\<lparr>e20a_balance := b\<rparr>) else table_find e20a_key k g))"
proof -
  have key: "e20a_key x = (s, a)" by (rule erc20_accounts.look_key [OF t k])
  obtain x' where x': "f x = Inr x'" and t': "table_inv e20a_key g'"
    and look: "\<And>k. table_find e20a_key k g' = (if k = (s, a) then Some (i, x') else table_find e20a_key k g)"
    by (rule erc20_accounts.updateE [of g "(s, a)" i x f g', OF t k _ u]) (use f key in \<open>auto simp: e20a_key_def\<close>)
  have eq: "x' = x\<lparr>e20a_balance := b\<rparr>" by (rule f [OF x'])
  have h: "holdings s' g' + (if e20a_name x = s' then e20a_balance x else 0) = holdings s' g + (if e20a_name x' = s' then e20a_balance x' else 0)" for s'
    unfolding holdings_def by (rule erc20_accounts.update_tally [OF t k look])
  have "holdings s' g' = holdings s' g + (if s' = s then b - e20a_balance x else 0)" for s'
    using key h [of s'] by (cases "s' = s") (simp_all add: eq e20a_key_def)
  then show ?thesis using x' t' look eq by simp
qed

lemma token_update:
  assumes t: "table_inv e20_name g" and k: "table_find e20_name s g = Some (i, x)" and u: "table_update (same_key e20_name) i f g = Inr g'"
    and f: "\<And>x'. f x = Inr x' \<Longrightarrow> e20_name x' = e20_name x \<and> total_supply x' = n"
  shows "table_inv e20_name g' \<and> (\<exists>x'. total_supply x' = n \<and> f x = Inr x' \<and>
    (\<forall>s'. table_find e20_name s' g' = (if s' = s then Some (i, x') else table_find e20_name s' g)))"
proof -
  have key: "e20_name x = s" by (rule erc20.look_key [OF t k])
  obtain x' where "f x = Inr x'" "table_inv e20_name g'"
    "\<And>k. table_find e20_name k g' = (if k = s then Some (i, x') else table_find e20_name k g)"
    by (rule erc20.updateE [of g s i x f g', OF t k _ u]) (use f key in auto)
  then show ?thesis using f by auto
qed

lemma supply_kept:
  assumes inv: "erc20_inv w" and k: "find_erc20 s w = Some (i, x)" and u: "table_update (same_key e20_name) i f (w_erc20 w) = Inr tt"
    and f: "\<And>x'. f x = Inr x' \<Longrightarrow> e20_name x' = e20_name x \<and> total_supply x' = total_supply x"
  shows "erc20_inv (w\<lparr>w_erc20 := tt\<rparr>)"
proof -
  have t: "table_inv e20_name (w_erc20 w)" using inv by (simp add: erc20_inv_def)
  obtain x' where "table_inv e20_name tt" "total_supply x' = total_supply x"
    and look: "\<And>s'. table_find e20_name s' tt = (if s' = s then Some (i, x') else find_erc20 s' w)"
    using token_update [OF t k u f] by blast
  then show ?thesis using inv k by (auto simp: erc20_inv_def supply_of_def)
qed

section \<open>The handlers\<close>

lemma erc20_flags_inv:
  assumes inv: "erc20_inv (mc_world c)"
  shows "xmax_erc20_stopmint t c = Inr c' \<Longrightarrow> erc20_inv (mc_world c')" "xmax_erc20_revoke t c = Inr c' \<Longrightarrow> erc20_inv (mc_world c')"
proof -
  assume "xmax_erc20_stopmint t c = Inr c'"
  then obtain i tok tt where k: "find_erc20 t (mc_world c) = Some (i, tok)"
    and u: "table_update (same_key e20_name) i (\<lambda>x. Inr (x\<lparr>e20_stopmint := True\<rparr>)) (w_erc20 (mc_world c)) = Inr tt" and c': "mc_world c' = (mc_world c)\<lparr>w_erc20 := tt\<rparr>"
    by (auto simp: xmax_erc20_stopmint_def bindE_Inr table_get_def require_scope_def require_authorization_def Let_def split: if_splits option.splits)
  show "erc20_inv (mc_world c')" using supply_kept [OF inv k u] by (simp add: c')
next
  assume "xmax_erc20_revoke t c = Inr c'"
  then obtain i tok tt where k: "find_erc20 t (mc_world c) = Some (i, tok)"
    and u: "table_update (same_key e20_name) i (\<lambda>x. Inr (x\<lparr>e20_revoked := True\<rparr>)) (w_erc20 (mc_world c)) = Inr tt" and c': "c' = set_erc20 tt c"
    by (auto simp: xmax_erc20_revoke_def bindE_Inr table_get_def split: if_splits option.splits)
  show "erc20_inv (mc_world c')" using supply_kept [OF inv k u] by (simp add: c')
qed

lemma safe_add_Inr: "safe_add a b = Inr x \<longleftrightarrow> x = a + b \<and> 0 \<le> b \<and> in64 (a + b)"
  by (auto simp: safe_add_def share_add_def assertE_def)

lemma mint_inv:
  assumes inv: "erc20_inv (mc_world c)" and r: "xmax_erc20_mint m c = Inr c'"
  shows "erc20_inv (mc_world c')"
proof -
  define n where "n = as_amount (m20_amount m)"
  define s where "s = m20_token m"
  obtain i tok j x bt tt where k: "find_erc20 s (mc_world c) = Some (i, tok)"
    and a: "find_account20 s (e20_owner tok) (mc_world c) = Some (j, x)"
    and b: "add_balance j n (w_erc20_accounts (mc_world c)) = Inr bt"
    and u: "table_update (same_key e20_name) i (\<lambda>y. bindE (safe_add (total_supply y) n) (\<lambda>s. Inr (y\<lparr>total_supply := s\<rparr>))) (w_erc20 (mc_world c)) = Inr tt"
    and c': "mc_world c' = (mc_world c)\<lparr>w_erc20_accounts := bt, w_erc20 := tt\<rparr>"
    using r by (auto simp: xmax_erc20_mint_def bindE_Inr table_get_def require_scope_def require_authorization_def Let_def n_def s_def
        split: if_splits option.splits)
  have t: "table_inv e20_name (w_erc20 (mc_world c))" "table_inv e20a_key (w_erc20_accounts (mc_world c))" using inv by (simp_all add: erc20_inv_def)
  have bt: "table_inv e20a_key bt \<and> (\<forall>s'. holdings s' bt = holdings s' (w_erc20_accounts (mc_world c)) + (if s' = s then n else 0))"
    using balance_update [OF t(2) a b [unfolded add_balance_def], of "e20a_balance x + n"] by (auto simp: bindE_Inr safe_add_Inr)
  have f: "bindE (safe_add (total_supply tok) n) (\<lambda>s. Inr (tok\<lparr>total_supply := s\<rparr>)) = Inr y \<Longrightarrow>
      e20_name y = e20_name tok \<and> total_supply y = total_supply tok + n" for y by (auto simp: bindE_Inr safe_add_Inr)
  obtain x' where "table_inv e20_name tt" "total_supply x' = total_supply tok + n"
    and look: "\<And>s'. table_find e20_name s' tt = (if s' = s then Some (i, x') else find_erc20 s' (mc_world c))"
    using token_update [OF t(1) k u f] by blast
  then show ?thesis using inv k bt by (auto simp: c' erc20_inv_def supply_of_def)
qed

lemma adderc20_inv:
  assumes inv: "erc20_inv (mc_world c)" and r: "xmax_system_adderc20 m c = Inr c'"
  shows "erc20_inv (mc_world c')"
proof -
  define n where "n = as_amount (a20_total m)"
  define s where "s = a20_token m"
  define tok where "tok = \<lparr>e20_name = s, e20_owner = a20_creator m, total_supply = n, e20_decimal = 2, e20_revoked = False, e20_stopmint = False\<rparr>"
  define acc where "acc = \<lparr>e20a_name = s, e20a_owner = a20_creator m, e20a_balance = n\<rparr>"
  obtain at tt bt where k: "find_erc20 s (mc_world c) = None"
    and a: "find_account20 s (a20_creator m) (mc_world c) = None"
    and tt: "table_create (same_key e20_name) (\<lambda>_. tok) (w_erc20 (mc_world c)) = Inr tt"
    and bt: "table_create (same_key e20a_key) (\<lambda>_. acc) (w_erc20_accounts (mc_world c)) = Inr bt"
    and c': "mc_world c' = (mc_world c)\<lparr>w_accounts := at, w_erc20 := tt, w_erc20_accounts := bt\<rparr>"
    using r by (auto simp: xmax_system_adderc20_def bindE_Inr require_scope_def require_authorization_def n_def s_def tok_def acc_def
        simp del: not_None_eq split: if_splits option.splits)
  have t: "table_inv e20_name (w_erc20 (mc_world c))" "table_inv e20a_key (w_erc20_accounts (mc_world c))" using inv by (simp_all add: erc20_inv_def)
  have ta: "table_inv e20_name tt" and lookt: "table_find e20_name s' tt = (if s' = s then Some (gi_next_id (w_erc20 (mc_world c)), tok) else find_erc20 s' (mc_world c))" for s'
    using erc20.create_ok [of "w_erc20 (mc_world c)" "\<lambda>_. tok", OF t(1)] k tt by (simp_all add: tok_def)
  have key: "e20a_key acc = (s, a20_creator m)" by (simp add: acc_def e20a_key_def)
  have tb: "table_inv e20a_key bt" and look: "table_find e20a_key k' bt =
      (if k' = (s, a20_creator m) then Some (gi_next_id (w_erc20_accounts (mc_world c)), acc) else table_find e20a_key k' (w_erc20_accounts (mc_world c)))" for k'
    using erc20_accounts.create_ok [of "w_erc20_accounts (mc_world c)" "\<lambda>_. acc", OF t(2)] a bt by (simp_all add: key del: split_paired_All)
  have "holdings s' bt = (if e20a_name acc = s' then e20a_balance acc else 0) + holdings s' (w_erc20_accounts (mc_world c))" for s'
    unfolding holdings_def by (rule erc20_accounts.create_tally [OF t(2) a look])
  then show ?thesis using inv k ta tb lookt by (auto simp: c' erc20_inv_def supply_of_def acc_def tok_def)
qed

lemma find_index_Some: "find_index P xs = Some i \<Longrightarrow> \<exists>x \<in> set xs. P x"
  by (induction xs arbitrary: i) (auto split: if_splits)

text \<open>Opening the receiver's account changes no balance.\<close>

lemma open_account:
  assumes t: "table_inv e20a_key g" and r: "(if table_find e20a_key (s, a) g = None
      then table_create (same_key e20a_key) (\<lambda>_. \<lparr>e20a_name = s, e20a_owner = a, e20a_balance = 0\<rparr>) g else Inr g) = Inr g'"
  shows "table_inv e20a_key g' \<and> (\<forall>s'. holdings s' g' = holdings s' g) \<and> table_find e20a_key (s, a) g' \<noteq> None \<and>
    (\<forall>k. (case table_find e20a_key k g' of None \<Rightarrow> 0 | Some (_, x) \<Rightarrow> e20a_balance x) =
      (case table_find e20a_key k g of None \<Rightarrow> 0 | Some (_, x) \<Rightarrow> e20a_balance x)) \<and>
    (\<forall>k. table_find e20a_key k g \<noteq> None \<longrightarrow> table_find e20a_key k g' = table_find e20a_key k g)"
proof (cases "table_find e20a_key (s, a) g")
  case None
  define acc where "acc = \<lparr>e20a_name = s, e20a_owner = a, e20a_balance = 0\<rparr>"
  have key: "e20a_key acc = (s, a)" by (simp add: acc_def e20a_key_def)
  have "table_create (same_key e20a_key) (\<lambda>_. acc) g = Inr g'" using r None by (simp add: acc_def)
  then have t': "table_inv e20a_key g'" and look: "table_find e20a_key k g' = (if k = (s, a) then Some (gi_next_id g, acc) else table_find e20a_key k g)" for k
    using erc20_accounts.create_ok [of g "\<lambda>_. acc", OF t] None by (simp_all add: key del: split_paired_All)
  have "holdings s' g' = (if e20a_name acc = s' then e20a_balance acc else 0) + holdings s' g" for s'
    unfolding holdings_def by (rule erc20_accounts.create_tally [OF t None look])
  then show ?thesis using t' None by (simp add: look acc_def)
qed (use t r in auto)

text \<open>What a transfer does, when it does not throw.\<close>

lemma transferfrom_result:
  assumes inv: "erc20_inv (mc_world c)" and r: "xmax_erc20_transferfrom m c = Inr c'"
  shows "erc20_inv (mc_world c') \<and> w_erc20 (mc_world c') = w_erc20 (mc_world c) \<and> t20_from m \<in> auth_account ` set (msg_authorization (mc_msg c)) \<and>
    0 \<le> as_amount (t20_value m) \<and> as_amount (t20_value m) < balance_of (t20_token m) (t20_from m) (mc_world c) \<and>
    (\<forall>s a. balance_of s a (mc_world c') = balance_of s a (mc_world c) +
      (if s = t20_token m then (if a = t20_to m then as_amount (t20_value m) else 0) - (if a = t20_from m then as_amount (t20_value m) else 0) else 0))"
proof -
  define n where "n = as_amount (t20_value m)"
  define s where "s = t20_token m"
  define g where "g = w_erc20_accounts (mc_world c)"
  define f where "f = (\<lambda>a. if \<not> n < e20a_balance a then Inl MessageValidate
             else bindE (safe_sub (e20a_balance a) n) (\<lambda>b. Inr (a\<lparr>e20a_balance := b\<rparr>)) :: contract_exc + erc20_token_account_object)"
  obtain c0 where "require_authorization (t20_from m) c = Inr c0" using r by (auto simp: xmax_erc20_transferfrom_def bindE_Inr)
  then have auth: "t20_from m \<in> auth_account ` set (msg_authorization (mc_msg c))" and w0: "mc_world c0 = mc_world c"
    by (auto simp: require_authorization_def dest!: find_index_Some intro: rev_image_eqI split: option.splits)
  obtain g1 i j x y g2 g3 where frm: "table_find e20a_key (s, t20_from m) g \<noteq> None"
    and op: "(if table_find e20a_key (s, t20_to m) g = None
      then table_create (same_key e20a_key) (\<lambda>_. \<lparr>e20a_name = s, e20a_owner = t20_to m, e20a_balance = 0\<rparr>) g else Inr g) = Inr g1"
    and x: "table_find e20a_key (s, t20_from m) g1 = Some (i, x)" and y: "table_find e20a_key (s, t20_to m) g1 = Some (j, y)"
    and u1: "table_update (same_key e20a_key) i f g1 = Inr g2" and u2: "add_balance j n g2 = Inr g3"
    and c': "mc_world c' = (mc_world c)\<lparr>w_erc20_accounts := g3\<rparr>"
    using r unfolding xmax_erc20_transferfrom_def n_def [symmetric] s_def [symmetric] f_def [symmetric]
    by (auto simp: bindE_Inr require_scope_def Let_def table_get_def require_authorization_def g_def
        simp del: not_None_eq split: if_splits option.splits)
  have t: "table_inv e20a_key g" using inv by (simp add: erc20_inv_def g_def)
  note o1 = open_account [OF t op]
  have "f x' = Inr z \<Longrightarrow> z = x'\<lparr>e20a_balance := e20a_balance x' - n\<rparr> \<and> n < e20a_balance x'" for x' z
    by (auto simp: f_def bindE_Inr safe_sub_def share_sub_def split: if_splits)
  note fx = this
  have b1: "f x = Inr (x\<lparr>e20a_balance := e20a_balance x - n\<rparr>) \<and> table_inv e20a_key g2 \<and>
      (\<forall>s'. holdings s' g2 = holdings s' g1 + (if s' = s then e20a_balance x - n - e20a_balance x else 0)) \<and>
      (\<forall>k. table_find e20a_key k g2 = (if k = (s, t20_from m) then Some (i, x\<lparr>e20a_balance := e20a_balance x - n\<rparr>) else table_find e20a_key k g1))"
    using o1 fx by (intro balance_update [OF _ x u1]) auto
  then have lt: "n < e20a_balance x" using fx by blast
  obtain y' where y': "table_find e20a_key (s, t20_to m) g2 = Some (j, y')"
      "e20a_balance y' = e20a_balance y - (if t20_to m = t20_from m then n else 0)"
    using b1 x y by (cases "t20_to m = t20_from m") auto
  have b2: "bindE (safe_add (e20a_balance y') n) (\<lambda>b. Inr (y'\<lparr>e20a_balance := b\<rparr>)) = Inr (y'\<lparr>e20a_balance := e20a_balance y' + n\<rparr>) \<and> table_inv e20a_key g3 \<and>
      (\<forall>s'. holdings s' g3 = holdings s' g2 + (if s' = s then e20a_balance y' + n - e20a_balance y' else 0)) \<and>
      (\<forall>k. table_find e20a_key k g3 = (if k = (s, t20_to m) then Some (j, y'\<lparr>e20a_balance := e20a_balance y' + n\<rparr>) else table_find e20a_key k g2))"
    using b1 by (intro balance_update [OF _ y'(1) u2 [unfolded add_balance_def]]) (auto simp: bindE_Inr safe_add_Inr)
  then have nn: "0 \<le> n" by (auto simp: bindE_Inr safe_add_Inr)
  have "erc20_inv (mc_world c')" using inv o1 b1 b2 by (simp add: c' erc20_inv_def supply_of_def g_def)
  moreover have "balance_of s (t20_from m) (mc_world c) = e20a_balance x" using o1 frm x by (auto simp: balance_of_def g_def)
  moreover have "balance_of s' a (mc_world c') = balance_of s' a (mc_world c) + (if s' = s then (if a = t20_to m then n else 0) - (if a = t20_from m then n else 0) else 0)" for s' a
  proof -
    have "balance_of s' a (mc_world c) = (case table_find e20a_key (s', a) g1 of None \<Rightarrow> 0 | Some (_, x) \<Rightarrow> e20a_balance x)"
      using o1 by (simp add: balance_of_def g_def)
    then show ?thesis using b1 b2 x y y' by (cases "s' = s"; cases "a = t20_to m"; cases "a = t20_from m") (simp_all add: c' balance_of_def)
  qed
  ultimately show ?thesis using auth lt nn by (simp add: c' n_def s_def)
qed

section \<open>Any messages\<close>

lemmas transferfrom_inv = transferfrom_result [THEN conjunct1]

lemma erc20_apply_inv: "erc20_inv (mc_world c) \<Longrightarrow> erc20_apply call c = Inr c' \<Longrightarrow> erc20_inv (mc_world c')"
  by (cases call; simp only: erc20_apply.simps; blast intro: adderc20_inv mint_inv erc20_flags_inv transferfrom_inv)

lemma erc20_run_inv: "erc20_inv w \<Longrightarrow> erc20_inv (erc20_run ms w)"
proof (induction ms w rule: erc20_run.induct)
  case (2 call c ms w)
  have "erc20_inv (case erc20_apply call (c\<lparr>mc_world := w\<rparr>) of Inl _ \<Rightarrow> w | Inr c' \<Rightarrow> mc_world c')"
    using 2(2) erc20_apply_inv [of "c\<lparr>mc_world := w\<rparr>" call] by (auto split: sum.splits)
  then show ?case using 2(1) by simp
qed simp


text \<open>
  C26. A transfer of a divisible token that does not throw was authorised by the sender, has a value that is not negative and below
  the sender's balance, moves exactly this value from the sender's balance to the receiver's, also when the two
  are the same, and changes no other balance and no token.
\<close>

theorem erc20_transfer_refines:
  assumes "erc20_inv (mc_world c)" and "xmax_erc20_transferfrom m c = Inr c'" and "n = as_amount (t20_value m)"
  shows "t20_from m \<in> auth_account ` set (msg_authorization (mc_msg c)) \<and> 0 \<le> n \<and> n < balance_of (t20_token m) (t20_from m) (mc_world c) \<and>
    w_erc20 (mc_world c') = w_erc20 (mc_world c) \<and>
    (\<forall>s a. balance_of s a (mc_world c') = balance_of s a (mc_world c) +
      (if s = t20_token m then (if a = t20_to m then n else 0) - (if a = t20_from m then n else 0) else 0))"
  using transferfrom_result [OF assms(1,2)] unfolding assms(3) by blast

section \<open>Numbered tokens\<close>

text \<open>
  The table of numbered tokens allows one token of a contract per owner: a transfer to an account that already holds a
  token of the contract always throws.
\<close>

theorem erc721_one_per_owner:
  assumes d: "distinct (map fst (gi_indices (w_erc721_accounts (mc_world c))))" and held: "(i, a) \<in> set (gi_indices (w_erc721_accounts (mc_world c)))"
    and a: "e721a_name a = t721_token m" "e721a_owner a = t721_to m" and ne: "t721_from m \<noteq> t721_to m"
  shows "\<exists>e. xmax_erc721_transferfrom mem m c = Inl e"
proof (cases "xmax_erc721_transferfrom mem m c")
  case (Inr c')
  define g where "g = w_erc721_accounts (mc_world c)"
  obtain tid where tid: "sha256_of_hex mem (t721_id m) = Inr tid"
    using Inr by (auto simp: xmax_erc721_transferfrom_def bindE_Inr Let_def split: if_splits)
  show ?thesis
  proof (cases "table_find e721a_id_key (t721_token m, tid) g")
    case None
    then show ?thesis using Inr tid
      by (auto simp: xmax_erc721_transferfrom_def bindE_Inr require_scope_def require_authorization_def Let_def g_def split: if_splits option.splits)
  next
    case (Some y)
    then obtain j b where b: "table_find e721a_id_key (t721_token m, tid) g = Some (j, b)" by (cases y) auto
    obtain g' where own: "e721a_owner b = t721_from m" "e721a_name b = t721_token m"
      and u: "table_update e721a_conf j (\<lambda>x. Inr (x\<lparr>e721a_owner := t721_to m\<rparr>)) g = Inr g'"
      using Inr tid b unfolding xmax_erc721_transferfrom_def
      by (auto simp: bindE_Inr require_scope_def Let_def g_def require_authorization_def split: if_split_asm option.split_asm)
    have jb: "(j, b) \<in> set (gi_indices g)" using b by (auto simp: table_find_def dest: find_SomeD)
    then have "map_of (gi_indices g) j = Some b" using d by (simp add: g_def)
    moreover have "i \<noteq> j" using eq_key_imp_eq_value [OF d [folded g_def]] held [folded g_def] jb own a ne by metis
    moreover have "list_ex (\<lambda>(k', w). k' \<noteq> j \<and> e721a_conf (b\<lparr>e721a_owner := t721_to m\<rparr>) w) (gi_indices g)"
      using held [folded g_def] \<open>i \<noteq> j\<close> a own by (auto simp: list_ex_iff e721a_conf_def intro!: bexI [of _ "(i, a)"])
    moreover have "gi_indices (on_modify j b g) = gi_indices g" by (auto simp: on_modify_def split: list.splits)
    ultimately show ?thesis using u by (simp add: table_update_def gi_modify_def idx_modify_def Let_def)
  qed
qed blast

section \<open>An example\<close>

definition erc_world :: world where
  "erc_world = ex_world\<lparr>
     w_erc20 := table_of [\<lparr>e20_name = 7, e20_owner = 1, total_supply = 100, e20_decimal = 2, e20_revoked = False, e20_stopmint = False\<rparr>],
     w_erc20_accounts := table_of [\<lparr>e20a_name = 7, e20a_owner = 1, e20a_balance = 100\<rparr>],
     w_erc721 := table_of [\<lparr>e721_name = 8, e721_owner = 1, e721_revoked = False, e721_stopmint = False\<rparr>],
     w_erc721_accounts := table_of [\<lparr>e721a_name = 8, e721a_id = empty_sha256, e721a_owner = 1, e721a_url = []\<rparr>,
       \<lparr>e721a_name = 8, e721a_id = of_sha256_bytes (replicate 32 1), e721a_owner = 2, e721a_url = []\<rparr>]\<rparr>"

definition erc_context :: msg_context where
  "erc_context = ex_context\<lparr>mc_world := erc_world\<rparr>"

definition ex_transfer20 :: transferfromerc20_msg where
  "ex_transfer20 = \<lparr>t20_token = 7, t20_from = 1, t20_to = 2, t20_value = \<lparr>as_amount = 30, as_symbol = 7\<rparr>\<rparr>"

definition ex_transfer721 :: transferfromerc721_msg where
  "ex_transfer721 = \<lparr>t721_token = 8, t721_id = [], t721_from = 1, t721_to = 2\<rparr>"

lemma erc_world_inv: "erc20_inv erc_world"
proof -
  have t: "table_inv e20_name (w_erc20 erc_world)" "table_inv e20a_key (w_erc20_accounts erc_world)"
    by (simp_all add: erc_world_def table_of_inv)
  have "holdings s (w_erc20_accounts erc_world) = supply_of s erc_world" for s
    unfolding holdings_def tally_table [OF t(2)] by (simp add: erc_world_def table_of_def supply_of_def table_find_def)
  then show ?thesis using t by (simp add: erc20_inv_def)
qed


lemma ex_transfer20_runs: "\<exists>c'. xmax_erc20_transferfrom ex_transfer20 erc_context = Inr c'"
  by (simp add: xmax_erc20_transferfrom_def ex_transfer20_def erc_context_def erc_world_def ex_context_def table_eval handler_eval
      e20a_key_def add_balance_def safe_sub_def safe_add_def upt_rec)

lemma erc20_transfer_refines_witness:
  "\<exists>c'. xmax_erc20_transferfrom ex_transfer20 erc_context = Inr c' \<and>
    balance_of 7 1 (mc_world c') = 70 \<and> balance_of 7 2 (mc_world c') = 30"
proof -
  obtain c' where r: "xmax_erc20_transferfrom ex_transfer20 erc_context = Inr c'" using ex_transfer20_runs by blast
  have w: "mc_world erc_context = erc_world" by (simp add: erc_context_def)
  have "balance_of 7 1 erc_world = 100" "balance_of 7 2 erc_world = 0"
    by (simp_all add: balance_of_def erc_world_def table_of_def table_find_def e20a_key_def)
  then show ?thesis using erc20_transfer_refines [OF _ r refl] erc_world_inv r by (auto simp: w ex_transfer20_def)
qed

lemma erc721_one_per_owner_witness: "\<exists>e. xmax_erc721_transferfrom (replicate 32 0) ex_transfer721 erc_context = Inl e"
proof (rule erc721_one_per_owner)
  show "distinct (map fst (gi_indices (w_erc721_accounts (mc_world erc_context))))"
    "(1, \<lparr>e721a_name = 8, e721a_id = of_sha256_bytes (replicate 32 1), e721a_owner = 2, e721a_url = []\<rparr>) \<in> set (gi_indices (w_erc721_accounts (mc_world erc_context)))"
    by (simp_all add: erc_context_def erc_world_def table_of_def)
qed (simp_all add: ex_transfer721_def)

end
