(* ===== verification/Chain_Exec.thy ===== *)
theory Chain_Exec
  imports Contract_Erc20
begin

text \<open>
  The execution of a transaction (\<^verbatim>\<open>transaction_context_xmax.cpp\<close>): every message runs the handler of the account it is sent to, then
  the handlers of the accounts the handler named as recipients, then the messages it sent in turn. The handlers built
  into the chain are found by the kind of account and the name of the function; their data are unpacked from the message.
  The machine that runs other contracts is an argument.
\<close>

section \<open>Finding a handler\<close>

datatype native_scope = native_invalid | native_system | native_erc20 | native_erc721

fun get_native_scope :: "account_type \<Rightarrow> native_scope" where
  "get_native_scope acc_personal = native_system"
| "get_native_scope acc_system = native_system"
| "get_native_scope acc_erc20 = native_erc20"
| "get_native_scope acc_erc721 = native_erc721"
| "get_native_scope acc_contract = native_invalid"

type_synonym native_handler = "msg_context \<Rightarrow> contract_exc + msg_context"

text \<open>
  What the handlers get from outside: the sizes of structures, the memory new objects are made in, and the handlers
  that compile contracts (\<^verbatim>\<open>addcontract\<close> and \<^verbatim>\<open>setcode\<close>) with their gas.
\<close>

record native_env =
  ne_size_of :: size_of
  ne_size_key :: nat
  ne_size_account :: nat
  ne_voter_mem :: "int \<Rightarrow> voter_info_object"
  ne_id_mem :: "bytes \<times> bytes"
  ne_compile :: "string \<Rightarrow> (native_handler \<times> u64) option"

text \<open>\<^verbatim>\<open>message_xmax::as\<close>: the data of the message, unpacked; what follows is ignored.\<close>

definition msg_as :: "'a unpacker \<Rightarrow> ('a \<Rightarrow> native_handler) \<Rightarrow> native_handler" where
  "msg_as up h c = (case up (msg_data (mc_msg c)) of Inl e \<Rightarrow> Inl (Unpack e) | Inr (x, _) \<Rightarrow> h x c)"

definition unpack_i64 :: "share_type unpacker" where
  "unpack_i64 = unpack_fixed 8 (\<lambda>b. sint (of_le64 b))"

definition unpack_asset :: "asset unpacker" where
  "unpack_asset = unpack_then unpack_i64 (\<lambda>a. unpack_then unpack_u64 (\<lambda>s. unpack_done \<lparr>as_amount = a, as_symbol = s\<rparr>))"

definition unpack_key_permission :: "key_permission unpacker" where
  "unpack_key_permission = unpack_then (stream_read 33) (\<lambda>k. unpack_then unpack_u16 (\<lambda>w. unpack_done \<lparr>kp_weight = w, kp_key = k\<rparr>))"

definition unpack_account_permission :: "account_permission unpacker" where
  "unpack_account_permission = unpack_then unpack_auth (\<lambda>a. unpack_then unpack_u16 (\<lambda>w. unpack_done \<lparr>ap_weight = w, ap_auth = a\<rparr>))"

definition unpack_authority :: "native_env \<Rightarrow> authority unpacker" where
  "unpack_authority e = unpack_then unpack_u32 (\<lambda>t.
     unpack_then (unpack_vector (ne_size_key e) unpack_key_permission) (\<lambda>k.
     unpack_then (unpack_vector (ne_size_account e) unpack_account_permission) (\<lambda>a.
     unpack_done \<lparr>au_threshold = t, au_keys = k, au_accounts = a\<rparr>)))"

text \<open>A string of at most 32 bytes; more are skipped, and the bytes after the first zero are not part of it.\<close>

definition unpack_fixed_string32 :: "bytes unpacker" where
  "unpack_fixed_string32 = unpack_then unpack_unsigned_int (\<lambda>n.
     if unat n \<le> 32 then unpack_fixed (unat n) (\<lambda>b. if length b = 32 \<and> last b \<noteq> 0 then b else takeWhile (\<lambda>x. x \<noteq> 0) b)
     else unpack_then (stream_read 32) (\<lambda>b. unpack_then (stream_read (unat n - 32)) (\<lambda>_.
       unpack_done (if last b \<noteq> 0 then b else takeWhile (\<lambda>x. x \<noteq> 0) b))))"

definition unpack_transfer :: "transfer_msg unpacker" where
  "unpack_transfer = unpack_then unpack_u128 (\<lambda>f. unpack_then unpack_u128 (\<lambda>t. unpack_then unpack_u64 (\<lambda>a. unpack_then unpack_bytes (\<lambda>m.
     unpack_done \<lparr>tr_from = f, tr_to = t, tr_amount = a, tr_memo = m\<rparr>))))"

definition unpack_lock :: "lock_msg unpacker" where
  "unpack_lock = unpack_then unpack_u128 (\<lambda>f. unpack_then unpack_u128 (\<lambda>t. unpack_then unpack_i64 (\<lambda>a.
     unpack_done \<lparr>lk_from = f, lk_to = t, lk_amount = a\<rparr>)))"

definition unpack_unlock :: "unlock_msg unpacker" where
  "unpack_unlock = unpack_then unpack_u128 (\<lambda>a. unpack_then unpack_i64 (\<lambda>n. unpack_done \<lparr>ul_account = a, ul_amount = n\<rparr>))"

definition unpack_addaccount :: "native_env \<Rightarrow> addaccount_msg unpacker" where
  "unpack_addaccount e = unpack_then unpack_u128 (\<lambda>c. unpack_then unpack_u128 (\<lambda>n. unpack_then (unpack_authority e) (\<lambda>ow.
     unpack_then (unpack_authority e) (\<lambda>ac. unpack_then unpack_asset (\<lambda>d.
     unpack_done \<lparr>aa_creator = c, aa_name = n, aa_owner = ow, aa_active = ac, aa_deposit = d\<rparr>)))))"

definition unpack_votebuilder :: "native_env \<Rightarrow> votebuilder unpacker" where
  "unpack_votebuilder e = unpack_then unpack_u128 (\<lambda>v. unpack_then unpack_u128 (\<lambda>p.
     unpack_then (unpack_vector (ne_size_of e ElemName) unpack_u128) (\<lambda>b. unpack_done \<lparr>vb_voter = v, vb_proxy = p, vb_builders = b\<rparr>)))"

definition unpack_adderc20 :: "adderc20_msg unpacker" where
  "unpack_adderc20 = unpack_then unpack_u128 (\<lambda>c. unpack_then unpack_u64 (\<lambda>t. unpack_then unpack_asset (\<lambda>b. unpack_then unpack_u64 (\<lambda>d.
     unpack_done \<lparr>a20_creator = c, a20_token = t, a20_total = b, a20_decimal = d\<rparr>))))"

definition unpack_minterc20 :: "minterc20_msg unpacker" where
  "unpack_minterc20 = unpack_then unpack_u64 (\<lambda>t. unpack_then unpack_asset (\<lambda>a. unpack_done \<lparr>m20_token = t, m20_amount = a\<rparr>))"

definition unpack_transferfromerc20 :: "transferfromerc20_msg unpacker" where
  "unpack_transferfromerc20 = unpack_then unpack_u64 (\<lambda>t. unpack_then unpack_u128 (\<lambda>f. unpack_then unpack_u128 (\<lambda>r. unpack_then unpack_asset (\<lambda>a.
     unpack_done \<lparr>t20_token = t, t20_from = f, t20_to = r, t20_value = a\<rparr>))))"

definition unpack_adderc721 :: "adderc721_msg unpacker" where
  "unpack_adderc721 = unpack_then unpack_u128 (\<lambda>c. unpack_then unpack_u64 (\<lambda>t. unpack_done \<lparr>a721_creator = c, a721_token = t\<rparr>))"

definition unpack_minterc721 :: "minterc721_msg unpacker" where
  "unpack_minterc721 = unpack_then unpack_u64 (\<lambda>t. unpack_then unpack_fixed_string32 (\<lambda>i. unpack_done \<lparr>m721_token = t, m721_id = i\<rparr>))"

definition unpack_transferfromerc721 :: "transferfromerc721_msg unpacker" where
  "unpack_transferfromerc721 = unpack_then unpack_u64 (\<lambda>t. unpack_then unpack_fixed_string32 (\<lambda>i. unpack_then unpack_u128 (\<lambda>f. unpack_then unpack_u128 (\<lambda>r.
     unpack_done \<lparr>t721_token = t, t721_id = i, t721_from = f, t721_to = r\<rparr>))))"

text \<open>The handlers that are registered, with the gas they cost.\<close>

definition system_handlers :: "native_env \<Rightarrow> (string \<times> native_handler \<times> u64) list" where
  "system_handlers e =
     [(''addaccount'', msg_as (unpack_addaccount e) xmax_system_addaccount, 0),
      (''adderc20'', msg_as unpack_adderc20 xmax_system_adderc20, 5),
      (''adderc721'', msg_as unpack_adderc721 xmax_system_adderc721, 5),
      (''transfer'', msg_as unpack_transfer xmax_system_transfer, 5),
      (''lock'', msg_as unpack_lock (xmax_system_lock (ne_voter_mem e)), 5),
      (''unlock'', msg_as unpack_unlock xmax_system_unlock, 5),
      (''votebuilder'', msg_as (unpack_votebuilder e) vote_builder, 5),
      (''regbuilder'', msg_as unpack_builder (\<lambda>b. reg_builder (builder_name b) (block_signing_key b)), 5),
      (''unregbuilder'', msg_as unpack_u128 unreg_builder, 5),
      (''regproxy'', msg_as unpack_u128 (reg_proxy (ne_voter_mem e)), 5),
      (''unregproxy'', msg_as unpack_u128 unreg_proxy, 5)]
     @ List.map_filter (\<lambda>f. map_option (Pair f) (ne_compile e f)) [''addcontract'', ''setcode'']"

definition erc20_handlers :: "(string \<times> native_handler \<times> u64) list" where
  "erc20_handlers =
     [(''mint'', msg_as unpack_minterc20 xmax_erc20_mint, 5), (''stopmint'', msg_as unpack_u64 xmax_erc20_stopmint, 5),
      (''revoke'', msg_as unpack_u64 xmax_erc20_revoke, 5), (''transferfrom'', msg_as unpack_transferfromerc20 xmax_erc20_transferfrom, 5)]"

definition erc721_handlers :: "native_env \<Rightarrow> (string \<times> native_handler \<times> u64) list" where
  "erc721_handlers e =
     [(''mint'', msg_as unpack_minterc721 (xmax_erc721_mint (fst (ne_id_mem e)) (snd (ne_id_mem e))), 5),
      (''stopmint'', msg_as unpack_u64 xmax_erc721_stopmint, 5),
      (''transferfrom'', msg_as unpack_transferfromerc721 (xmax_erc721_transferfrom (fst (ne_id_mem e))), 5),
      (''revoke'', msg_as unpack_u64 xmax_erc721_revoke, 5)]"

fun scope_handlers :: "native_env \<Rightarrow> native_scope \<Rightarrow> (string \<times> native_handler \<times> u64) list" where
  "scope_handlers e native_system = system_handlers e"
| "scope_handlers e native_erc20 = erc20_handlers"
| "scope_handlers e native_erc721 = erc721_handlers e"
| "scope_handlers e native_invalid = []"

definition find_native :: "native_env \<Rightarrow> native_scope \<Rightarrow> func_name \<Rightarrow> (native_handler \<times> u64) option" where
  "find_native e s f = map_option snd (List.find (\<lambda>(n, _). to_name_code n = Inr f) (scope_handlers e s))"

definition find_native_handler :: "native_env \<Rightarrow> native_scope \<Rightarrow> func_name \<Rightarrow> native_handler option" where
  "find_native_handler e s f = map_option fst (find_native e s f)"

definition get_native_handler_gasstep :: "native_env \<Rightarrow> native_scope \<Rightarrow> func_name \<Rightarrow> u64" where
  "get_native_handler_gasstep e s f = (case find_native e s f of None \<Rightarrow> 0 | Some (_, g) \<Rightarrow> g)"

section \<open>Executing messages\<close>

record message_receipt =
  rc_to_code :: account_name
  rc_message_id :: sha256
  rc_message_idx :: u64

text \<open>
  The state of a transaction: the tables, the counter of messages, the receipts and the gas. The machine for other contracts
  gets the context and the limit on instructions; it leaves a context, and the number of instructions unless it throws.
\<close>

record trx_state =
  ts_world :: world
  ts_counter :: u64
  ts_receipts :: "message_receipt list"
  ts_gas :: u64

record exec_env =
  ee_native :: native_env
  ee_vm :: "u32 \<Rightarrow> msg_context \<Rightarrow> msg_context \<times> u64 option"
  ee_hash :: "message \<Rightarrow> sha256"
  ee_gas :: u64
  ee_gaslimit :: u64

definition run_native :: "exec_env \<Rightarrow> account_object \<Rightarrow> bool \<Rightarrow> u64 \<Rightarrow> native_handler" where
  "run_native e acc is_notify used c =
     (let scope = get_native_scope (acc_type acc); h = find_native_handler (ee_native e) scope (msg_type (mc_msg c))
      in if scope = native_invalid then Inl TrxExc
      else if is_notify then (case h of None \<Rightarrow> Inr c | Some f \<Rightarrow> f c)
      else if \<not> used \<le> ee_gaslimit e then Inl TrxExc
      else case h of None \<Rightarrow> Inl TrxExc | Some f \<Rightarrow> f c)"

text \<open>The exceptions of a contract are logged and forgotten.\<close>

definition run_contract :: "exec_env \<Rightarrow> account_object \<Rightarrow> u64 \<Rightarrow> msg_context \<Rightarrow> contract_exc + (msg_context \<times> u64)" where
  "run_contract e acc used c =
     (if acc_contract_code acc = None then Inl TrxExc
      else let limit = if ee_gas e \<noteq> 0 then ee_gaslimit e div ee_gas e else 1000
        in case ee_vm e (ucast limit) c of (c', None) \<Rightarrow> Inr (c', used) | (c', Some n) \<Rightarrow> Inr (c', used + n * ee_gas e))"

definition exec_one_message :: "exec_env \<Rightarrow> bool \<Rightarrow> trx_state \<times> msg_context \<Rightarrow> contract_exc + (trx_state \<times> msg_context)" where
  "exec_one_message e is_notify sc =
     (case sc of (s, c) \<Rightarrow>
      bindE (table_get acc_name (mc_code c) (w_accounts (mc_world c))) (\<lambda>(_, acc).
      bindE (if acc_type acc \<noteq> acc_contract
        then let used = (if is_notify then ts_gas s
               else ts_gas s + get_native_handler_gasstep (ee_native e) (get_native_scope (acc_type acc)) (msg_type (mc_msg c)) * ee_gas e)
          in bindE (run_native e acc is_notify used c) (\<lambda>c. Inr (c, used))
        else run_contract e acc (ts_gas s) c) (\<lambda>(c, used).
      let idx = ts_counter s + 1; r = \<lparr>rc_to_code = mc_code c, rc_message_id = ee_hash e (mc_msg c), rc_message_idx = idx\<rparr>
      in Inr (s\<lparr>ts_world := mc_world c, ts_counter := idx, ts_receipts := ts_receipts s @ [r], ts_gas := used\<rparr>, c))))"

text \<open>The accounts to notify, from the second on; a handler may add to them while the loop runs, so it has fuel: \<open>None\<close> when that is used up.\<close>

fun notify_loop :: "nat \<Rightarrow> exec_env \<Rightarrow> nat \<Rightarrow> trx_state \<times> msg_context \<Rightarrow> (contract_exc + (trx_state \<times> msg_context)) option" where
  "notify_loop 0 e i sc = None"
| "notify_loop (Suc n) e i (s, c) =
     (if i < length (mc_notified c)
      then (case exec_one_message e True (s, c\<lparr>mc_code := mc_notified c ! i\<rparr>) of Inl x \<Rightarrow> Some (Inl x)
        | Inr sc \<Rightarrow> notify_loop n e (i + 1) sc)
      else Some (Inr (s, c)))"

definition new_context :: "transaction \<Rightarrow> message \<Rightarrow> u64 \<Rightarrow> world \<Rightarrow> msg_context" where
  "new_context t m now w =
     \<lparr>mc_msg = m, mc_code = msg_code m, mc_scope = trx_scope t, mc_used = replicate (length (msg_authorization m)) False,
      mc_notified = [msg_code m], mc_inline = [], mc_time = now, mc_world = w\<rparr>"

text \<open>The messages of a transaction, each followed by those its handlers sent, at most five deep.\<close>

abbreviation (input) max_message_apply_depth :: nat where "max_message_apply_depth \<equiv> 5"

function exec_messages :: "nat \<Rightarrow> exec_env \<Rightarrow> transaction \<Rightarrow> u64 \<Rightarrow> nat \<Rightarrow> message list \<Rightarrow> trx_state \<Rightarrow> (contract_exc + trx_state) option" where
  "exec_messages n e t now depth [] s = Some (Inr s)"
| "exec_messages n e t now depth (m # ms) s =
     (if \<not> depth < max_message_apply_depth then Some (Inl TrxExc)
      else case exec_one_message e False (s, new_context t m now (ts_world s)) of Inl x \<Rightarrow> Some (Inl x)
      | Inr (s, c) \<Rightarrow>
        if \<not> length (mc_notified c) < 1000 then Some (Inl TrxExc)
        else (case notify_loop n e 1 (s, c) of None \<Rightarrow> None | Some (Inl x) \<Rightarrow> Some (Inl x)
          | Some (Inr (s, c)) \<Rightarrow>
            (case exec_messages n e t now (depth + 1) (mc_inline c) s of None \<Rightarrow> None | Some (Inl x) \<Rightarrow> Some (Inl x)
             | Some (Inr s) \<Rightarrow> exec_messages n e t now depth ms s)))"
  by pat_completeness auto

termination
  by (relation "measures [\<lambda>(n, e, t, now, depth, ms, s). max_message_apply_depth - depth, \<lambda>(n, e, t, now, depth, ms, s). length ms]") auto

definition trx_exec :: "nat \<Rightarrow> exec_env \<Rightarrow> transaction \<Rightarrow> u64 \<Rightarrow> trx_state \<Rightarrow> (contract_exc + trx_state) option" where
  "trx_exec n e t now s = exec_messages n e t now 0 (messages t) s"

section \<open>A transfer runs three times\<close>

lemma transfer_moves:
  assumes ok: "tokens_ok (tokens_of c)" "money (tokens_of c) < 2 ^ 63" and sc: "tr_to t \<in> set (mc_scope c)" "tr_from t \<in> set (mc_scope c)"
    and a: "find_token (tr_from t) (tokens_of c) = Some (i, a)" and b: "find_token (tr_to t) (tokens_of c) = Some (j, b)"
    and ne: "tr_from t \<noteq> tr_to t" and x: "0 < tr_amount t" "uint (tr_amount t) \<le> main_token a"
  shows "\<exists>tt. xmax_system_transfer t c = Inr (set_tokens tt (require_recipient (tr_from t) (require_recipient (tr_to t) c))) \<and>
    tokens_ok tt \<and> money tt = money (tokens_of c) \<and>
    find_token (tr_from t) tt = Some (i, a\<lparr>main_token := main_token a - uint (tr_amount t)\<rparr>) \<and>
    find_token (tr_to t) tt = Some (j, b\<lparr>main_token := main_token b + uint (tr_amount t)\<rparr>)"
proof -
  define n where "n = tr_amount t"
  have m: "0 \<le> main_token a" "main_token a < 2 ^ 63" using money_member [OF ok(1) a] ok(2) by auto
  have le: "n \<le> word_of_int (main_token a)" using x(2) m by (simp add: n_def word_le_def uint_word_of_int)
  have "- (2 ^ 63) \<le> uint n" by (rule order_trans [OF _ uint_ge_0]) simp
  then have s: "sint n = uint n" using x(2) m by (simp add: sint_uint n_def signed_take_bit_int_eq_self)
  obtain t1 where t1: "debit i (uint n) (tokens_of c) = Inr t1" "tokens_ok t1" "money t1 = money (tokens_of c) - uint n"
    and l1: "\<And>k'. find_token k' t1 = (if k' = tr_from t then Some (i, a\<lparr>main_token := main_token a - uint n\<rparr>) else find_token k' (tokens_of c))"
    using debit_step [OF ok a, of "uint n"] x(2) by (auto simp: n_def)
  have b1: "find_token (tr_to t) t1 = Some (j, b)" using b ne by (simp add: l1)
  obtain t2 where t2: "credit j (uint n) t1 = Inr t2" "tokens_ok t2" "money t2 = money (tokens_of c)"
    and l2: "\<And>k'. find_token k' t2 = (if k' = tr_to t then Some (j, b\<lparr>main_token := main_token b + uint n\<rparr>) else find_token k' t1)"
    using credit_step [OF t1(2) _ b1, of "uint n"] t1(3) ok(2) by auto
  have "xmax_system_transfer t c = Inr (set_tokens t2 (require_recipient (tr_from t) (require_recipient (tr_to t) c)))"
    using sc a b x(1) le t1(1) t2(1) unfolding xmax_system_transfer_def n_def [symmetric]
    by (simp add: require_scope_def assertE_def table_get_def s)
  then show ?thesis using t2 ne by (auto simp: l1 l2 n_def)
qed

definition transfer_name :: func_name where
  "transfer_name = (case to_name_code ''transfer'' of Inr n \<Rightarrow> n | Inl _ \<Rightarrow> 0)"

lemma handler_names:
  "to_name_code ''transfer'' = Inr transfer_name" "to_name_code ''addaccount'' \<noteq> Inr transfer_name"
  "to_name_code ''adderc20'' \<noteq> Inr transfer_name" "to_name_code ''adderc721'' \<noteq> Inr transfer_name"
proof -
  show t: "to_name_code ''transfer'' = Inr transfer_name"
    using name_code_string [of "''transfer''"] by (auto simp: CODE_MAP_U128_def transfer_name_def)
  show "to_name_code ''addaccount'' \<noteq> Inr transfer_name" "to_name_code ''adderc20'' \<noteq> Inr transfer_name" "to_name_code ''adderc721'' \<noteq> Inr transfer_name"
    unfolding t [symmetric] by (subst name_code_inj; simp add: CODE_MAP_U128_def)+
qed

lemma transfer_handler:
  "find_native_handler e native_system transfer_name = Some (msg_as unpack_transfer xmax_system_transfer)"
  "get_native_handler_gasstep e native_system transfer_name = 5"
  by (simp_all add: find_native_handler_def get_native_handler_gasstep_def find_native_def system_handlers_def handler_names)

lemma exec_one_transfer:
  assumes acc: "table_find acc_name (mc_code c) (w_accounts (mc_world c)) = Some (i, acc)" "acc_type acc = acc_personal \<or> acc_type acc = acc_system"
    and m: "msg_type (mc_msg c) = transfer_name" "unpack_transfer (msg_data (mc_msg c)) = Inr (t, rest)"
    and h: "xmax_system_transfer t c = Inr c'" and gas: "\<not> notify \<Longrightarrow> ts_gas s + 5 * ee_gas e \<le> ee_gaslimit e"
  shows "\<exists>s'. exec_one_message e notify (s, c) = Inr (s', c') \<and> ts_world s' = mc_world c'"
proof -
  have sc: "get_native_scope (acc_type acc) = native_system" "acc_type acc \<noteq> acc_contract" using acc(2) by auto
  have "msg_as unpack_transfer xmax_system_transfer c = Inr c'" using m(2) h by (simp add: msg_as_def)
  then show ?thesis using acc(1) gas
    by (simp add: exec_one_message_def table_get_def sc run_native_def m(1) transfer_handler Let_def)
qed

lemma recipients_known: "a \<in> set (mc_notified c) \<Longrightarrow> require_recipient a c = c"
  by (simp add: require_recipient_def)

text \<open>A notified account that takes part in the transfer runs it again.\<close>

lemma notified_transfer:
  assumes ok: "tokens_ok (tokens_of c)" "money (tokens_of c) < 2 ^ 63" and sc: "tr_to t \<in> set (mc_scope c)" "tr_from t \<in> set (mc_scope c)"
    and a: "find_token (tr_from t) (tokens_of c) = Some (i, a)" and b: "find_token (tr_to t) (tokens_of c) = Some (j, b)"
    and ne: "tr_from t \<noteq> tr_to t" and x: "0 < tr_amount t" "uint (tr_amount t) \<le> main_token a"
    and k: "mc_notified c ! p \<in> {tr_to t, tr_from t}" "p < length (mc_notified c)" "{tr_to t, tr_from t} \<subseteq> set (mc_notified c)"
    and acc: "\<And>k. k \<in> {tr_to t, tr_from t} \<Longrightarrow> \<exists>i acc. table_find acc_name k (w_accounts (mc_world c)) = Some (i, acc) \<and> acc_type acc = acc_personal"
    and m: "msg_type (mc_msg c) = transfer_name" "unpack_transfer (msg_data (mc_msg c)) = Inr (t, rest)"
  shows "\<exists>s' tt. notify_loop (Suc n) e p (s, c) = notify_loop n e (p + 1) (s', set_tokens tt (c\<lparr>mc_code := mc_notified c ! p\<rparr>)) \<and>
    ts_world s' = (mc_world c)\<lparr>w_tokens := tt\<rparr> \<and> tokens_ok tt \<and> money tt = money (tokens_of c) \<and>
    find_token (tr_from t) tt = Some (i, a\<lparr>main_token := main_token a - uint (tr_amount t)\<rparr>) \<and>
    find_token (tr_to t) tt = Some (j, b\<lparr>main_token := main_token b + uint (tr_amount t)\<rparr>)"
proof -
  define c1 where "c1 = c\<lparr>mc_code := mc_notified c ! p\<rparr>"
  have c1: "mc_world c1 = mc_world c" "mc_scope c1 = mc_scope c" "mc_msg c1 = mc_msg c" "mc_notified c1 = mc_notified c" "mc_code c1 = mc_notified c ! p"
    by (simp_all add: c1_def)
  obtain tt where h: "xmax_system_transfer t c1 = Inr (set_tokens tt (require_recipient (tr_from t) (require_recipient (tr_to t) c1)))"
    and tt: "tokens_ok tt" "money tt = money (tokens_of c)" "find_token (tr_from t) tt = Some (i, a\<lparr>main_token := main_token a - uint (tr_amount t)\<rparr>)"
      "find_token (tr_to t) tt = Some (j, b\<lparr>main_token := main_token b + uint (tr_amount t)\<rparr>)"
    using transfer_moves [of c1 t i a j b] ok sc a b ne x by (auto simp: c1)
  have "require_recipient (tr_from t) (require_recipient (tr_to t) c1) = c1" using k(3) by (simp add: recipients_known c1)
  then have h: "xmax_system_transfer t c1 = Inr (set_tokens tt c1)" using h by simp
  obtain q acc where "table_find acc_name (mc_code c1) (w_accounts (mc_world c1)) = Some (q, acc)" "acc_type acc = acc_personal"
    using acc [OF k(1)] by (auto simp: c1)
  from exec_one_transfer [OF this(1) _ _ _ h, of rest True s e] this(2) m
  obtain s' where "exec_one_message e True (s, c1) = Inr (s', set_tokens tt c1)" "ts_world s' = mc_world (set_tokens tt c1)" by (auto simp: c1)
  then show ?thesis using k(2) tt unfolding c1_def by (intro exI [of _ s'] exI [of _ tt]) simp
qed

text \<open>
  C27. A transfer sent to the system account moves three times its amount: the handler names the receiver and the sender as
  recipients, and as both are personal accounts each notification runs the same handler again. No authorisation
  of the sender is needed.
\<close>

theorem transfer_runs_three_times:
  assumes tok: "tokens_ok (w_tokens (ts_world s))" "money (w_tokens (ts_world s)) < 2 ^ 63"
    and a: "find_token (tr_from t) (w_tokens (ts_world s)) = Some (i, a)" and b: "find_token (tr_to t) (w_tokens (ts_world s)) = Some (j, b)"
    and x: "0 < tr_amount t" "3 * uint (tr_amount t) \<le> main_token a"
    and m: "msg_type m = transfer_name" "unpack_transfer (msg_data m) = Inr (t, rest)"
    and ne: "distinct [msg_code m, tr_to t, tr_from t]" and sc: "{tr_to t, tr_from t} \<subseteq> set (trx_scope trx)"
    and sys: "table_find acc_name (msg_code m) (w_accounts (ts_world s)) = Some (p, acc)" "acc_type acc = acc_system"
    and acc: "\<And>k. k \<in> {tr_to t, tr_from t} \<Longrightarrow> \<exists>i acc. table_find acc_name k (w_accounts (ts_world s)) = Some (i, acc) \<and> acc_type acc = acc_personal"
    and gas: "ts_gas s + 5 * ee_gas e \<le> ee_gaslimit e"
  shows "\<exists>s'. exec_messages (n + 3) e trx now 0 [m] s = Some (Inr s') \<and>
    (\<exists>a'. find_token (tr_from t) (w_tokens (ts_world s')) = Some (i, a') \<and> main_token a' = main_token a - 3 * uint (tr_amount t)) \<and>
    (\<exists>b'. find_token (tr_to t) (w_tokens (ts_world s')) = Some (j, b') \<and> main_token b' = main_token b + 3 * uint (tr_amount t))"
proof -
  define x where "x = uint (tr_amount t)"
  define c0 where "c0 = new_context trx m now (ts_world s)"
  have c0: "mc_world c0 = ts_world s" "mc_scope c0 = trx_scope trx" "mc_msg c0 = m" "mc_notified c0 = [msg_code m]" "mc_code c0 = msg_code m" "mc_inline c0 = []"
    by (simp_all add: c0_def new_context_def)
  have x0: "0 \<le> x" by (simp add: x_def)
  then have le: "uint (tr_amount t) \<le> main_token a" "2 * uint (tr_amount t) \<le> main_token a" "3 * uint (tr_amount t) \<le> main_token a"
    using assms(6) unfolding x_def by linarith+
  have ft: "tr_from t \<noteq> tr_to t" using ne by simp metis
  obtain t1 where h1: "xmax_system_transfer t c0 = Inr (set_tokens t1 (require_recipient (tr_from t) (require_recipient (tr_to t) c0)))"
    and t1: "tokens_ok t1" "money t1 < 2 ^ 63" "find_token (tr_from t) t1 = Some (i, a\<lparr>main_token := main_token a - x\<rparr>)"
      "find_token (tr_to t) t1 = Some (j, b\<lparr>main_token := main_token b + x\<rparr>)"
    using transfer_moves [of c0 t i a j b] tok a b assms(5) le ft sc by (auto simp: c0 x_def)
  define c1 where "c1 = set_tokens t1 (require_recipient (tr_from t) (require_recipient (tr_to t) c0))"
  have c1: "mc_world c1 = (ts_world s)\<lparr>w_tokens := t1\<rparr>" "mc_scope c1 = trx_scope trx" "mc_msg c1 = m" "mc_notified c1 = [msg_code m, tr_to t, tr_from t]" "mc_inline c1 = []"
    using ne by (auto simp: c1_def c0 set_tokens_def require_recipient_def)
  obtain s1 where e1: "exec_one_message e False (s, c0) = Inr (s1, c1)"
    using exec_one_transfer [of c0 p acc t rest c1 False s e] sys m gas h1 by (auto simp: c0 c1_def)
  define a1 b1 where "a1 = a\<lparr>main_token := main_token a - x\<rparr>" and "b1 = b\<lparr>main_token := main_token b + x\<rparr>"
  have "\<exists>s2 t2. notify_loop (Suc (n + 2)) e 1 (s1, c1) = notify_loop (n + 2) e (1 + 1) (s2, set_tokens t2 (c1\<lparr>mc_code := mc_notified c1 ! 1\<rparr>)) \<and>
      ts_world s2 = (mc_world c1)\<lparr>w_tokens := t2\<rparr> \<and> tokens_ok t2 \<and> money t2 = money (tokens_of c1) \<and>
      find_token (tr_from t) t2 = Some (i, a1\<lparr>main_token := main_token a1 - uint (tr_amount t)\<rparr>) \<and>
      find_token (tr_to t) t2 = Some (j, b1\<lparr>main_token := main_token b1 + uint (tr_amount t)\<rparr>)"
    by (rule notified_transfer) (use t1 ft sc acc assms(5) le m in \<open>simp_all add: c1 a1_def b1_def x_def\<close>)
  then obtain s2 t2 where n1: "notify_loop (n + 3) e 1 (s1, c1) = notify_loop (n + 2) e 2 (s2, set_tokens t2 (c1\<lparr>mc_code := tr_to t\<rparr>))"
    and t2: "tokens_ok t2" "money t2 < 2 ^ 63" "find_token (tr_from t) t2 = Some (i, a\<lparr>main_token := main_token a - 2 * x\<rparr>)"
      "find_token (tr_to t) t2 = Some (j, b\<lparr>main_token := main_token b + 2 * x\<rparr>)"
    using t1(2) unfolding a1_def b1_def x_def by (auto simp: c1 eval_nat_numeral)
  define c2 where "c2 = set_tokens t2 (c1\<lparr>mc_code := tr_to t\<rparr>)"
  have c2: "mc_world c2 = (ts_world s)\<lparr>w_tokens := t2\<rparr>" "mc_scope c2 = trx_scope trx" "mc_msg c2 = m" "mc_notified c2 = [msg_code m, tr_to t, tr_from t]" "mc_inline c2 = []"
    by (auto simp: c2_def c1 set_tokens_def)
  define a2 b2 where "a2 = a\<lparr>main_token := main_token a - 2 * x\<rparr>" and "b2 = b\<lparr>main_token := main_token b + 2 * x\<rparr>"
  have "\<exists>s3 t3. notify_loop (Suc (n + 1)) e 2 (s2, c2) = notify_loop (n + 1) e (2 + 1) (s3, set_tokens t3 (c2\<lparr>mc_code := mc_notified c2 ! 2\<rparr>)) \<and>
      ts_world s3 = (mc_world c2)\<lparr>w_tokens := t3\<rparr> \<and> tokens_ok t3 \<and> money t3 = money (tokens_of c2) \<and>
      find_token (tr_from t) t3 = Some (i, a2\<lparr>main_token := main_token a2 - uint (tr_amount t)\<rparr>) \<and>
      find_token (tr_to t) t3 = Some (j, b2\<lparr>main_token := main_token b2 + uint (tr_amount t)\<rparr>)"
    by (rule notified_transfer) (use t2 ft sc acc assms(5) le m in \<open>simp_all add: c2 a2_def b2_def x_def\<close>)
  then obtain s3 t3 where n2: "notify_loop (n + 2) e 2 (s2, c2) = notify_loop (n + 1) e 3 (s3, set_tokens t3 (c2\<lparr>mc_code := tr_from t\<rparr>))"
    and t3: "ts_world s3 = (ts_world s)\<lparr>w_tokens := t3\<rparr>" "find_token (tr_from t) t3 = Some (i, a\<lparr>main_token := main_token a - 3 * x\<rparr>)"
      "find_token (tr_to t) t3 = Some (j, b\<lparr>main_token := main_token b + 3 * x\<rparr>)"
    unfolding a2_def b2_def x_def by (auto simp: c2 eval_nat_numeral)
  have "notify_loop (n + 1) e 3 (s3, set_tokens t3 (c2\<lparr>mc_code := tr_from t\<rparr>)) = Some (Inr (s3, set_tokens t3 (c2\<lparr>mc_code := tr_from t\<rparr>)))"
    by (simp add: set_tokens_def c2)
  then have "exec_messages (n + 3) e trx now 0 [m] s = Some (Inr s3)"
    using e1 n1 n2 unfolding c0_def c2_def by (simp add: c1 set_tokens_def)
  then show ?thesis using t3 by (auto simp: x_def)
qed

definition ex_transfer :: transfer_msg where
  "ex_transfer = \<lparr>tr_from = 1, tr_to = 2, tr_amount = 20, tr_memo = []\<rparr>"

definition ex_message :: message where
  "ex_message = \<lparr>msg_code = 9, msg_type = transfer_name, msg_authorization = [],
     msg_data = pack_u128 1 @ pack_u128 2 @ le64 20 @ pack_bytes []\<rparr>"

definition ex_state :: trx_state where
  "ex_state = \<lparr>ts_world = ex_world\<lparr>w_accounts := table_of
       [\<lparr>acc_name = 9, acc_type = acc_system, acc_creation = 0, acc_contract_code = None\<rparr>,
        \<lparr>acc_name = 1, acc_type = acc_personal, acc_creation = 0, acc_contract_code = None\<rparr>,
        \<lparr>acc_name = 2, acc_type = acc_personal, acc_creation = 0, acc_contract_code = None\<rparr>]\<rparr>,
     ts_counter = 0, ts_receipts = [], ts_gas = 0\<rparr>"

definition ex_env :: exec_env where
  "ex_env = \<lparr>ee_native = \<lparr>ne_size_of = \<lambda>_. 16, ne_size_key = 36, ne_size_account = 48, ne_voter_mem = ex_voter,
       ne_id_mem = (replicate 32 0, replicate 32 0), ne_compile = \<lambda>_. None\<rparr>,
     ee_vm = \<lambda>_ c. (c, None), ee_hash = \<lambda>_. empty_sha256, ee_gas = 1, ee_gaslimit = 100\<rparr>"

definition ex_trx :: transaction where
  "ex_trx = \<lparr>ref_block_num = 0, ref_block_prefix = 0, expiration = 0, trx_scope = [1, 2], trx_read_scope = [], messages = [ex_message],
     gas_payer = 1, trx_gas = 1, gaslimit = 100\<rparr>"

lemma ex_message_data: "unpack_transfer (msg_data ex_message) = Inr (ex_transfer, [])"
proof -
  have "unpack_transfer (pack_u128 1 @ pack_u128 2 @ le64 20 @ pack_bytes [] @ []) = Inr (ex_transfer, [])"
    unfolding unpack_transfer_def by (simp add: field_simps_raw unpack_done_def ex_transfer_def del: append_Nil2)
  then show ?thesis by (simp add: ex_message_def)
qed

lemma transfer_runs_three_times_witness:
  "\<exists>s'. exec_messages 3 ex_env ex_trx 7 0 [ex_message] ex_state = Some (Inr s') \<and>
    (\<exists>a'. find_token 1 (w_tokens (ts_world s')) = Some (0, a') \<and> main_token a' = 40) \<and>
    (\<exists>b'. find_token 2 (w_tokens (ts_world s')) = Some (1, b') \<and> main_token b' = 110)"
proof -
  have inv: "tokens_ok (w_tokens (ts_world ex_state))" "money (w_tokens (ts_world ex_state)) < 2 ^ 63"
    using money_small [OF ex_world_inv] by (simp_all add: ex_state_def)
  have tok: "find_token (tr_from ex_transfer) (w_tokens (ts_world ex_state)) = Some (0, \<lparr>tok_owner = 1, main_token = 100\<rparr>)"
    "find_token (tr_to ex_transfer) (w_tokens (ts_world ex_state)) = Some (1, \<lparr>tok_owner = 2, main_token = 50\<rparr>)"
    by (simp_all add: ex_state_def ex_world_def ex_transfer_def table_of_def table_find_def)
  have acc: "table_find acc_name (msg_code ex_message) (w_accounts (ts_world ex_state)) =
      Some (0, \<lparr>acc_name = 9, acc_type = acc_system, acc_creation = 0, acc_contract_code = None\<rparr>)"
    "k \<in> {tr_to ex_transfer, tr_from ex_transfer} \<Longrightarrow>
      \<exists>i acc. table_find acc_name k (w_accounts (ts_world ex_state)) = Some (i, acc) \<and> acc_type acc = acc_personal" for k
    by (auto simp: ex_state_def ex_message_def ex_transfer_def table_of_def table_find_def)
  show ?thesis
    using transfer_runs_three_times [OF inv tok _ _ _ ex_message_data _ _ acc(1) _ acc(2), of ex_trx ex_env 0 7]
    by (simp add: ex_transfer_def ex_message_def ex_trx_def ex_env_def ex_state_def)
qed

end
