(* ===== verification/Chain_Authority.thy ===== *)
theory Chain_Authority
  imports Chain_Exec
begin

text \<open>
  The permissions of accounts (\<^verbatim>\<open>authority_utls.cpp\<close>): whether the keys that signed a transaction satisfy the authorities its
  messages declare, the links between functions and authorities, and the handlers that change both (in
  \<^verbatim>\<open>native_contract/xmax_contract.cpp\<close>). The keys are those recovered from the signatures, without repetition.

  \<^verbatim>\<open>grants\<close> says when keys satisfy an authority; the checker decides it up to its limit on the depth.
\<close>

section \<open>Authorities in the state database\<close>

definition xmax_sysany_name :: authority_name where
  "xmax_sysany_name = (case to_name_code ''sys.any'' of Inr n \<Rightarrow> n | Inl _ \<Rightarrow> 0)"

text \<open>The tuple a table is searched with; exceptions of the database leave as exceptions of \<^verbatim>\<open>fc\<close>.\<close>

definition auth_key :: "account_auth \<Rightarrow> account_name \<times> authority_name" where
  "auth_key a = (auth_account a, auth_authority a)"

definition find_authority_object :: "world \<Rightarrow> account_auth \<Rightarrow> contract_exc + (int \<times> authority_object) option" where
  "find_authority_object w a =
     (if auth_account a = 0 \<or> auth_authority a = 0 then Inl FcExc
      else Inr (table_find ao_key (auth_key a) (w_authorities w)))"

definition get_authority_object :: "world \<Rightarrow> account_auth \<Rightarrow> contract_exc + (int \<times> authority_object)" where
  "get_authority_object w a =
     bindE (find_authority_object w a) (\<lambda>r. case r of None \<Rightarrow> Inl FcExc | Some x \<Rightarrow> Inr x)"

text \<open>The loop up the chain of parents; \<open>None\<close> when it does not end.\<close>

partial_function (option) parent_loop :: "authority_object generic_index \<Rightarrow> int \<Rightarrow> int \<Rightarrow> bool option" where
  "parent_loop g editor i =
     (case map_of (gi_indices g) i of None \<Rightarrow> Some False
      | Some a \<Rightarrow> if ao_parent a = editor then Some True
        else if ao_parent a = 0 then Some False else parent_loop g editor (ao_parent a))"

declare parent_loop.simps [code]

definition parent_permission_valid :: "world \<Rightarrow> int \<times> authority_object \<Rightarrow> authority_object \<Rightarrow> bool option" where
  "parent_permission_valid w editor info =
     (if ao_owner (snd editor) \<noteq> ao_owner info then Some False
      else if fst editor = ao_parent info then Some True
      else parent_loop (w_authorities w) (fst editor) (ao_parent info))"

definition find_linked_permission :: "world \<Rightarrow> account_name \<Rightarrow> account_name \<Rightarrow> func_name \<Rightarrow> authority_name option" where
  "find_linked_permission w acc scope func =
     (case table_find lp_key (acc, scope, func) (w_links w) of Some (_, l) \<Rightarrow> Some (lp_required l)
      | None \<Rightarrow> map_option (lp_required \<circ> snd) (table_find lp_key (acc, scope, 0) (w_links w)))"

definition min_linked_permission :: "world \<Rightarrow> account_name \<Rightarrow> account_name \<Rightarrow> func_name \<Rightarrow> authority_name option" where
  "min_linked_permission w acc scope func =
     (case find_linked_permission w acc scope func of None \<Rightarrow> Some xmax_active_name
      | Some l \<Rightarrow> if l = xmax_sysany_name then None else Some l)"

section \<open>Messages that change authorities\<close>

record updateauth_msg =
  ua_account :: account_name
  ua_permission :: authority_name
  ua_parent :: authority_name
  ua_authority :: authority

record deleteauth_msg =
  da_account :: account_name
  da_permission :: authority_name

record linkauth_msg =
  la_account :: account_name
  la_code :: account_name
  la_type :: func_name
  la_requirement :: authority_name

record unlinkauth_msg =
  xa_account :: account_name
  xa_code :: account_name
  xa_type :: func_name

definition unpack_updateauth :: "native_env \<Rightarrow> updateauth_msg unpacker" where
  "unpack_updateauth e = unpack_then unpack_u128 (\<lambda>a. unpack_then unpack_u128 (\<lambda>p. unpack_then unpack_u128 (\<lambda>q.
     unpack_then (unpack_authority e) (\<lambda>n. unpack_done \<lparr>ua_account = a, ua_permission = p, ua_parent = q, ua_authority = n\<rparr>))))"

definition unpack_deleteauth :: "deleteauth_msg unpacker" where
  "unpack_deleteauth = unpack_then unpack_u128 (\<lambda>a. unpack_then unpack_u128 (\<lambda>p. unpack_done \<lparr>da_account = a, da_permission = p\<rparr>))"

definition unpack_linkauth :: "linkauth_msg unpacker" where
  "unpack_linkauth = unpack_then unpack_u128 (\<lambda>a. unpack_then unpack_u128 (\<lambda>c. unpack_then unpack_u128 (\<lambda>t. unpack_then unpack_u128 (\<lambda>r.
     unpack_done \<lparr>la_account = a, la_code = c, la_type = t, la_requirement = r\<rparr>))))"

definition unpack_unlinkauth :: "unlinkauth_msg unpacker" where
  "unpack_unlinkauth = unpack_then unpack_u128 (\<lambda>a. unpack_then unpack_u128 (\<lambda>c. unpack_then unpack_u128 (\<lambda>t.
     unpack_done \<lparr>xa_account = a, xa_code = c, xa_type = t\<rparr>)))"

text \<open>
  What the four checks have in common: the first authorisation is taken before their number is checked, so that
  none at all is undefined.
\<close>

definition check_own_auth :: "account_auth list \<Rightarrow> account_name \<Rightarrow> contract_exc + unit" where
  "check_own_auth auths acc =
     (case auths of [] \<Rightarrow> Inl Ub
      | a # _ \<Rightarrow> if length auths \<noteq> 1 \<or> auth_account a \<noteq> acc then Inl AuthorizationExc else Inr ())"

definition check_updateauth :: "world \<Rightarrow> account_auth list \<Rightarrow> updateauth_msg \<Rightarrow> contract_exc + unit" where
  "check_updateauth w auths m =
     bindE (check_own_auth auths (ua_account m)) (\<lambda>_.
     bindE (find_authority_object w \<lparr>auth_account = ua_account m, auth_authority = ua_parent m\<rparr>) (\<lambda>r.
       assertE (r \<noteq> None) AuthorizationExc ()))"

definition as_data :: "'a unpacker \<Rightarrow> message \<Rightarrow> contract_exc + 'a" where
  "as_data up m = (case up (msg_data m) of Inl e \<Rightarrow> Inl (Unpack e) | Inr (x, _) \<Rightarrow> Inr x)"

text \<open>The part of the loop over the messages that deals with the system contract; the result is \<^verbatim>\<open>special_flag\<close>.\<close>

definition check_special :: "native_env \<Rightarrow> world \<Rightarrow> message \<Rightarrow> contract_exc + bool" where
  "check_special e w m =
     (let auths = msg_authorization m; ty = Inr (msg_type m)
      in if msg_code m \<noteq> xmax_contract_name then Inr True
      else if to_name_code ''updateauth'' = ty
      then bindE (as_data (unpack_updateauth e) m) (\<lambda>x. bindE (check_updateauth w auths x) (\<lambda>_. Inr True))
      else if to_name_code ''deleteauth'' = ty
      then bindE (as_data unpack_deleteauth m) (\<lambda>x. bindE (check_own_auth auths (da_account x)) (\<lambda>_. Inr True))
      else if to_name_code ''linkauth'' = ty
      then bindE (as_data unpack_linkauth m) (\<lambda>x. bindE (check_own_auth auths (la_account x)) (\<lambda>_. Inr True))
      else if to_name_code ''unlinkauth'' = ty
      then bindE (as_data unpack_unlinkauth m) (\<lambda>x. bindE (check_own_auth auths (xa_account x)) (\<lambda>_. Inr True))
      else Inr False)"

section \<open>The checker\<close>

record auth_checker =
  ck_used :: "bool list"
  ck_cache :: "(account_name \<times> authority_name) list"

text \<open>Weights are added up in an \<^verbatim>\<open>int\<close>.\<close>

definition add_weight :: "int \<Rightarrow> u16 \<Rightarrow> contract_exc + int" where
  "add_weight n w = (if n + uint w < 2 ^ 31 then Inr (n + uint w) else Inl Ub)"

fun check_keys :: "public_key list \<Rightarrow> key_permission list \<Rightarrow> int \<times> auth_checker \<Rightarrow> contract_exc + (int \<times> auth_checker)" where
  "check_keys ks [] st = Inr st"
| "check_keys ks (p # ps) (n, ck) =
     (case find_index (\<lambda>k. k = kp_key p) ks of None \<Rightarrow> check_keys ks ps (n, ck)
      | Some i \<Rightarrow> bindE (add_weight n (kp_weight p)) (\<lambda>n. check_keys ks ps (n, ck\<lparr>ck_used := (ck_used ck)[i := True]\<rparr>)))"

lemma bindE_cong [fundef_cong]:
  "r = r' \<Longrightarrow> (\<And>x. r' = Inr x \<Longrightarrow> f x = f' x) \<Longrightarrow> bindE r f = bindE r' f'"
  by (cases r) auto

abbreviation (input) max_check_depth :: nat where "max_check_depth \<equiv> 3"

text \<open>\<^verbatim>\<open>check_with_depth\<close> with \<^verbatim>\<open>check_impl\<close>, and the loop over the other accounts' authorities in the latter.\<close>

function check_with_depth :: "world \<Rightarrow> public_key list \<Rightarrow> nat \<Rightarrow> account_auth \<Rightarrow> auth_checker \<Rightarrow> contract_exc + auth_checker"
  and check_accounts :: "world \<Rightarrow> public_key list \<Rightarrow> nat \<Rightarrow> account_permission list \<Rightarrow> int \<times> auth_checker \<Rightarrow> contract_exc + (int \<times> auth_checker)"
where
  "check_with_depth w ks depth a ck =
     (if \<not> depth < max_check_depth then Inl AuthorizationExc
      else bindE (get_authority_object w a) (\<lambda>(_, obj).
        bindE (check_keys ks (au_keys (ao_auth obj)) (0, ck)) (\<lambda>st.
        bindE (check_accounts w ks (depth + 1) (au_accounts (ao_auth obj)) st) (\<lambda>(n, ck).
          assertE (sint (au_threshold (ao_auth obj)) \<le> n) AuthorizationExc ck))))"
| "check_accounts w ks depth [] st = Inr st"
| "check_accounts w ks depth (p # ps) st =
     bindE (if auth_key (ap_auth p) \<in> set (ck_cache (snd st)) then Inr (snd st)
       else bindE (check_with_depth w ks depth (ap_auth p) (snd st)) (\<lambda>ck. Inr (ck\<lparr>ck_cache := auth_key (ap_auth p) # ck_cache ck\<rparr>)))
     (\<lambda>ck. bindE (add_weight (fst st) (ap_weight p)) (\<lambda>n. check_accounts w ks depth ps (n, ck)))"
  by pat_completeness auto

termination
  by (relation "measures [case_sum (\<lambda>(w, ks, depth, a, ck). 4 - depth) (\<lambda>(w, ks, depth, ps, st). 4 - depth),
      case_sum (\<lambda>_. 0) (\<lambda>(w, ks, depth, ps, st). length ps)]") auto

declare check_with_depth.simps [simp del]

text \<open>\<^verbatim>\<open>std::set<account_auth>\<close>, in the order of the pairs.\<close>

definition add_satisfy :: "account_auth \<Rightarrow> account_auth list \<Rightarrow> account_auth list" where
  "add_satisfy a s = (if a \<in> set s then s else insort_key auth_key a s)"

fun check_declared :: "world \<Rightarrow> bool \<Rightarrow> message \<Rightarrow> account_auth list \<Rightarrow> account_auth list \<Rightarrow> (contract_exc + account_auth list) option" where
  "check_declared w special m [] s = Some (Inr s)"
| "check_declared w special m (a # as) s =
     (let go = check_declared w special m as (add_satisfy a s)
      in if special then go
      else case min_linked_permission w (auth_account a) (msg_code m) (msg_type m) of None \<Rightarrow> Some (Inl Ub)
      | Some permission \<Rightarrow>
        if permission = auth_authority a then go
        else case bindE (get_authority_object w a) (\<lambda>o1. bindE (get_authority_object w (a\<lparr>auth_authority := permission\<rparr>)) (\<lambda>o2. Inr (o1, o2))) of
          Inl x \<Rightarrow> Some (Inl x)
        | Inr (origin, (_, sub)) \<Rightarrow> (case parent_permission_valid w origin sub of None \<Rightarrow> None
          | Some ok \<Rightarrow> if ok then go else Some (Inl TrxExc)))"

fun collect_satisfys :: "native_env \<Rightarrow> world \<Rightarrow> message list \<Rightarrow> account_auth list \<Rightarrow> (contract_exc + account_auth list) option" where
  "collect_satisfys e w [] s = Some (Inr s)"
| "collect_satisfys e w (m # ms) s =
     (case check_special e w m of Inl x \<Rightarrow> Some (Inl x)
      | Inr special \<Rightarrow> (case check_declared w special m (msg_authorization m) s of None \<Rightarrow> None
        | Some (Inl x) \<Rightarrow> Some (Inl x) | Some (Inr s) \<Rightarrow> collect_satisfys e w ms s))"

fun check_satisfys :: "world \<Rightarrow> public_key list \<Rightarrow> account_auth list \<Rightarrow> auth_checker \<Rightarrow> contract_exc + auth_checker" where
  "check_satisfys w ks [] ck = Inr ck"
| "check_satisfys w ks (a # as) ck =
     bindE (get_authority_object w a) (\<lambda>_. bindE (check_with_depth w ks 0 a ck) (check_satisfys w ks as))"

definition new_checker :: "public_key list \<Rightarrow> auth_checker" where
  "new_checker ks = \<lparr>ck_used = replicate (length ks) False, ck_cache = []\<rparr>"

definition check_authorization :: "native_env \<Rightarrow> world \<Rightarrow> message list \<Rightarrow> public_key list \<Rightarrow> (contract_exc + unit) option" where
  "check_authorization e w ms ks =
     (case collect_satisfys e w ms [] of None \<Rightarrow> None | Some (Inl x) \<Rightarrow> Some (Inl x)
      | Some (Inr s) \<Rightarrow> Some (bindE (check_satisfys w ks s (new_checker ks)) (\<lambda>_. Inr ())))"

section \<open>The handlers\<close>

definition account_assert :: "world \<Rightarrow> account_name \<Rightarrow> contract_exc + unit" where
  "account_assert w a = assertE (table_find acc_name a (w_accounts w) \<noteq> None) MessageValidate ()"

fun validate_authority :: "world \<Rightarrow> account_permission list \<Rightarrow> contract_exc + unit" where
  "validate_authority w [] = Inr ()"
| "validate_authority w (p # ps) =
     (let a = ap_auth p
      in if table_find acc_name (auth_account a) (w_accounts w) = None then Inl MessageValidate
      else if auth_authority a = xmax_owner_name \<or> auth_authority a = xmax_active_name then validate_authority w ps
      else case get_authority_object w a of Inl _ \<Rightarrow> Inl MessageValidate | Inr _ \<Rightarrow> validate_authority w ps)"

text \<open>Both lists must be sorted; the weights are added up in 16 bits.\<close>

definition validate_weight_format :: "authority \<Rightarrow> bool" where
  "validate_weight_format a \<longleftrightarrow> length (au_keys a) + length (au_accounts a) \<le> 2 ^ 16 \<and> au_threshold a \<noteq> 0 \<and>
     successively (\<lambda>p q. bytes_less (kp_key p) (kp_key q)) (au_keys a) \<and>
     successively (\<lambda>p q. auth_key (ap_auth p) < auth_key (ap_auth q)) (au_accounts a) \<and>
     au_threshold a \<le> ucast (foldl (+) 0 (map kp_weight (au_keys a) @ map ap_weight (au_accounts a)))"

text \<open>A name that cannot be printed throws.\<close>

definition check_authority_name :: "authority_name \<Rightarrow> contract_exc + bool" where
  "check_authority_name n = (case name_to_string n of Inl _ \<Rightarrow> Inl BadName | Inr s \<Rightarrow> Inr (take 4 s \<noteq> ''xmax''))"

text \<open>The assignment to \<^verbatim>\<open>mapped_authoritys\<close> adds to the lists that are there.\<close>

definition assign_authoritys :: "authority \<Rightarrow> authority \<Rightarrow> authority" where
  "assign_authoritys new old = \<lparr>au_threshold = au_threshold new, au_keys = au_keys old @ au_keys new,
     au_accounts = au_accounts old @ au_accounts new\<rparr>"

definition modify_authority_object :: "int \<Rightarrow> authority \<Rightarrow> u64 \<Rightarrow> authority_object generic_index \<Rightarrow> contract_exc + authority_object generic_index" where
  "modify_authority_object i new t = table_update (same_key ao_key) i
     (\<lambda>a. Inr (a\<lparr>ao_auth := assign_authoritys new (ao_auth a), ao_updated := t\<rparr>))"

definition table_remove :: "int \<Rightarrow> 'v generic_index \<Rightarrow> contract_exc + 'v generic_index" where
  "table_remove i g = (case gi_remove i g of Inl _ \<Rightarrow> Inl DbThrow | Inr g \<Rightarrow> Inr g)"

definition xmax_system_updateauth :: "updateauth_msg \<Rightarrow> msg_context \<Rightarrow> contract_exc + msg_context" where
  "xmax_system_updateauth m c =
     bindE (require_authorization (ua_account m) c) (\<lambda>c.
     let w = mc_world c; auths = w_authorities w; new = ua_authority m
     in if ua_permission m = 0 then Inl MessageValidate
     else bindE (check_authority_name (ua_permission m)) (\<lambda>ok.
       if \<not> ok \<or> ua_permission m = ua_parent m then Inl MessageValidate
       else bindE (account_assert w (ua_account m)) (\<lambda>_.
         if \<not> validate_weight_format new then Inl MessageValidate
         else if (ua_permission m = xmax_owner_name) \<noteq> (ua_parent m = 0) then Inl MessageValidate
         else if ua_permission m = xmax_active_name \<and> ua_parent m \<noteq> xmax_owner_name then Inl MessageValidate
         else bindE (validate_authority w (au_accounts new)) (\<lambda>_.
           bindE (find_authority_object w \<lparr>auth_account = ua_account m, auth_authority = ua_permission m\<rparr>) (\<lambda>old.
           bindE (if ua_permission m \<noteq> xmax_owner_name
             then bindE (get_authority_object w \<lparr>auth_account = ua_account m, auth_authority = ua_parent m\<rparr>) (\<lambda>(i, _). Inr i)
             else Inr 0) (\<lambda>parent_id.
           bindE (case old of
               Some (i, a) \<Rightarrow> if parent_id \<noteq> ao_parent a then Inl MessageValidate
                 else modify_authority_object i new (mc_time c) auths
             | None \<Rightarrow> new_authority (ua_account m) (ua_permission m) parent_id new (mc_time c) auths) (\<lambda>auths.
           Inr (set_authorities auths c))))))))"

definition remove_linked_object :: "world \<Rightarrow> account_name \<Rightarrow> authority_name \<Rightarrow> contract_exc + unit" where
  "remove_linked_object w acc auth =
     assertE (\<not> list_ex (\<lambda>(_, l). lp_account l = acc \<and> lp_required l = auth) (gi_indices (w_links w))) AuthorizationExc ()"

definition xmax_system_deleteauth :: "deleteauth_msg \<Rightarrow> msg_context \<Rightarrow> contract_exc + msg_context" where
  "xmax_system_deleteauth m c =
     bindE (require_authorization (da_account m) c) (\<lambda>c.
     if da_permission m = xmax_active_name \<or> da_permission m = xmax_owner_name then Inl MessageValidate
     else bindE (remove_linked_object (mc_world c) (da_account m) (da_permission m)) (\<lambda>_.
       bindE (get_authority_object (mc_world c) \<lparr>auth_account = da_account m, auth_authority = da_permission m\<rparr>) (\<lambda>(i, _).
       bindE (table_remove i (w_authorities (mc_world c))) (\<lambda>auths. Inr (set_authorities auths c)))))"

definition set_links :: "linked_permission_object generic_index \<Rightarrow> msg_context \<Rightarrow> msg_context" where
  "set_links g c = c\<lparr>mc_world := (mc_world c)\<lparr>w_links := g\<rparr>\<rparr>"

text \<open>
  Both lookups of the required authority give a composite index only the first part of its key: they find any
  authority of an account of that name, and the second makes the first superfluous.
\<close>

definition xmax_system_linkauth :: "linkauth_msg \<Rightarrow> msg_context \<Rightarrow> contract_exc + msg_context" where
  "xmax_system_linkauth m c =
     (if la_requirement m = 0 then Inl MessageValidate
      else bindE (require_authorization (la_account m) c) (\<lambda>c.
        let w = mc_world c
        in bindE (account_assert w (la_account m)) (\<lambda>_. bindE (account_assert w (la_code m)) (\<lambda>_.
          if \<not> list_ex (\<lambda>(_, a). ao_owner a = la_requirement m) (gi_indices (w_authorities w)) then Inl MessageValidate
          else bindE (case table_find lp_key (la_account m, la_code m, la_type m) (w_links w) of
              Some (i, l) \<Rightarrow> if lp_required l = la_requirement m then Inl MessageValidate
                else table_update (same_key lp_key) i (\<lambda>l. Inr (l\<lparr>lp_required := la_requirement m\<rparr>)) (w_links w)
            | None \<Rightarrow> table_create (same_key lp_key)
                (\<lambda>_. \<lparr>lp_account = la_account m, lp_code = la_code m, lp_func = la_type m, lp_required = la_requirement m\<rparr>) (w_links w))
            (\<lambda>links. Inr (set_links links c))))))"

definition xmax_system_unlinkauth :: "unlinkauth_msg \<Rightarrow> msg_context \<Rightarrow> contract_exc + msg_context" where
  "xmax_system_unlinkauth m c =
     bindE (require_authorization (xa_account m) c) (\<lambda>c.
     case table_find lp_key (xa_account m, xa_code m, xa_type m) (w_links (mc_world c)) of None \<Rightarrow> Inl MessageValidate
     | Some (i, _) \<Rightarrow> bindE (table_remove i (w_links (mc_world c))) (\<lambda>links. Inr (set_links links c)))"

section \<open>What keys grant\<close>

definition weight_of :: "public_key set \<Rightarrow> authority \<Rightarrow> int" where
  "weight_of K a = (\<Sum>p \<leftarrow> filter (\<lambda>p. kp_key p \<in> K) (au_keys a). uint (kp_weight p)) + (\<Sum>p \<leftarrow> au_accounts a. uint (ap_weight p))"

text \<open>
  The keys \<open>K\<close> grant an authority if they grant every authority of another account it names, and the weights of these and of the keys
  among \<open>K\<close> reach the threshold.
\<close>

inductive grants :: "world \<Rightarrow> public_key set \<Rightarrow> account_auth \<Rightarrow> bool" for w K where
  grant: "get_authority_object w a = Inr (i, obj) \<Longrightarrow> \<forall>p \<in> set (au_accounts (ao_auth obj)). grants w K (ap_auth p) \<Longrightarrow>
    sint (au_threshold (ao_auth obj)) \<le> weight_of K (ao_auth obj) \<Longrightarrow> grants w K a"

text \<open>The same with at most \<open>n\<close> authorities on a path.\<close>

fun grants_within :: "world \<Rightarrow> public_key set \<Rightarrow> nat \<Rightarrow> account_auth \<Rightarrow> bool" where
  "grants_within w K 0 a \<longleftrightarrow> False"
| "grants_within w K (Suc n) a \<longleftrightarrow> (case get_authority_object w a of Inl _ \<Rightarrow> False
     | Inr (_, obj) \<Rightarrow> list_all (\<lambda>p. grants_within w K n (ap_auth p)) (au_accounts (ao_auth obj)) \<and>
         sint (au_threshold (ao_auth obj)) \<le> weight_of K (ao_auth obj))"

definition small_authorities :: "world \<Rightarrow> bool" where
  "small_authorities w \<longleftrightarrow> (\<forall>(_, a) \<in> set (gi_indices (w_authorities w)).
     length (au_keys (ao_auth a)) + length (au_accounts (ao_auth a)) \<le> 2 ^ 15)"

text \<open>The parent of an authority is an older one, or none.\<close>

definition rooted :: "authority_object generic_index \<Rightarrow> bool" where
  "rooted g \<longleftrightarrow> 0 \<le> gi_next_id g \<and>
     (\<forall>(i, a) \<in> set (gi_indices g). 0 \<le> i \<and> 0 \<le> ao_parent a \<and> (ao_parent a = 0 \<or> ao_parent a < i))"

abbreviation parents_older :: "world \<Rightarrow> bool" where
  "parents_older w \<equiv> rooted (w_authorities w)"

lemma find_index_None: "find_index P xs = None \<longleftrightarrow> (\<forall>x \<in> set xs. \<not> P x)"
  by (induction xs) auto

lemma check_keys_sound:
  "check_keys ks ps st = Inr st' \<Longrightarrow> fst st' = fst st + (\<Sum>p \<leftarrow> filter (\<lambda>p. kp_key p \<in> set ks) ps. uint (kp_weight p)) \<and>
   ck_cache (snd st') = ck_cache (snd st)"
proof (induction ps arbitrary: st)
  case (Cons p ps)
  obtain n ck where st: "st = (n, ck)" by (cases st)
  show ?case
  proof (cases "find_index (\<lambda>k. k = kp_key p) ks")
    case None
    then have "kp_key p \<notin> set ks" by (auto simp: find_index_None)
    then show ?thesis using None Cons.IH [of "(n, ck)"] Cons.prems by (simp add: st)
  next
    case (Some i)
    then have "kp_key p \<in> set ks" using find_index_None [of "\<lambda>k. k = kp_key p" ks] by auto
    then show ?thesis using Cons.prems Some Cons.IH [of "(n + uint (kp_weight p), ck\<lparr>ck_used := (ck_used ck)[i := True]\<rparr>)"]
      by (auto simp: st add_weight_def split: if_splits)
  qed
qed simp

text \<open>The cache holds only what is granted.\<close>

definition cache_ok :: "world \<Rightarrow> public_key list \<Rightarrow> auth_checker \<Rightarrow> bool" where
  "cache_ok w ks ck \<longleftrightarrow> (\<forall>a. auth_key a \<in> set (ck_cache ck) \<longrightarrow> grants w (set ks) a)"

lemma auth_key_inj: "auth_key a = auth_key b \<longleftrightarrow> a = b"
  by (cases a, cases b) (auto simp: auth_key_def)

lemma checks_sound:
  "check_with_depth w ks d a ck = Inr ck' \<Longrightarrow> cache_ok w ks ck \<Longrightarrow> grants w (set ks) a \<and> cache_ok w ks ck'"
  "check_accounts w ks d ps st = Inr st' \<Longrightarrow> cache_ok w ks (snd st) \<Longrightarrow>
     (\<forall>p \<in> set ps. grants w (set ks) (ap_auth p)) \<and> fst st' = fst st + (\<Sum>p \<leftarrow> ps. uint (ap_weight p)) \<and> cache_ok w ks (snd st')"
proof (induction w ks d a ck and w ks d ps st arbitrary: ck' and st' rule: check_with_depth_check_accounts.induct)
  case (1 w ks d a ck)
  obtain i obj st n where o: "get_authority_object w a = Inr (i, obj)" and st: "check_keys ks (au_keys (ao_auth obj)) (0, ck) = Inr st"
    and n: "check_accounts w ks (d + 1) (au_accounts (ao_auth obj)) st = Inr (n, ck')" and d: "d < 3"
    and t: "sint (au_threshold (ao_auth obj)) \<le> n"
    using 1(2) by (subst (asm) check_with_depth.simps) (auto simp: bindE_Inr split: if_splits)
  note k = check_keys_sound [OF st]
  have "cache_ok w ks (snd st)" using k 1(3) by (simp add: cache_ok_def)
  then have "(\<forall>p \<in> set (au_accounts (ao_auth obj)). grants w (set ks) (ap_auth p)) \<and>
      n = fst st + (\<Sum>p \<leftarrow> au_accounts (ao_auth obj). uint (ap_weight p)) \<and> cache_ok w ks ck'"
    using 1(1) [of "(i, obj)" i obj st "(n, ck')"] d o st n by simp
  then show ?case using grants.grant [OF o] t k by (simp add: weight_of_def)
next
  case (2 w ks d st)
  then show ?case by simp
next
  case (3 w ks d p ps st)
  let ?a = "ap_auth p"
  let ?r = "if auth_key ?a \<in> set (ck_cache (snd st)) then Inr (snd st)
    else bindE (check_with_depth w ks d ?a (snd st)) (\<lambda>ck. Inr (ck\<lparr>ck_cache := auth_key ?a # ck_cache ck\<rparr>))"
  obtain ck1 n1 where r: "?r = Inr ck1" and n1: "add_weight (fst st) (ap_weight p) = Inr n1"
    and rest: "check_accounts w ks d ps (n1, ck1) = Inr st'"
    using 3(3) by (auto simp: bindE_Inr)
  have ck1: "grants w (set ks) ?a \<and> cache_ok w ks ck1"
  proof (cases "auth_key ?a \<in> set (ck_cache (snd st))")
    case True
    then show ?thesis using r 3(4) by (auto simp: cache_ok_def)
  next
    case False
    then obtain ck0 where "check_with_depth w ks d ?a (snd st) = Inr ck0" "ck1 = ck0\<lparr>ck_cache := auth_key ?a # ck_cache ck0\<rparr>"
      using r by (auto simp: bindE_Inr)
    then show ?thesis using 3(1) [OF False _ 3(4)] by (auto simp: cache_ok_def auth_key_inj)
  qed
  then show ?case using 3(2) [OF r n1 rest] n1 by (auto simp: add_weight_def split: if_splits)
qed

lemma weight_bound: "uint (x :: u16) \<le> 65535"
  using uint_lt2p [of x] by simp

lemma filter_weight_bound: "(\<Sum>p \<leftarrow> filter P ps. uint (f p :: u16)) \<le> 65535 * int (length ps) \<and> 0 \<le> (\<Sum>p \<leftarrow> filter P ps. uint (f p))"
  using weight_bound by (induction ps) (auto intro: add_mono)

lemma check_keys_complete:
  "fst st + 65535 * int (length ps) < 2 ^ 31 \<Longrightarrow>
   \<exists>ck'. check_keys ks ps st = Inr (fst st + (\<Sum>p \<leftarrow> filter (\<lambda>p. kp_key p \<in> set ks) ps. uint (kp_weight p)), ck')"
proof (induction ps arbitrary: st)
  case (Cons p ps)
  obtain n ck where st: "st = (n, ck)" by (cases st)
  have le: "uint (kp_weight p) \<le> 65535" "n + uint (kp_weight p) + 65535 * int (length ps) < 2 ^ 31" "n + uint (kp_weight p) < 2 ^ 31"
    using Cons.prems weight_bound [of "kp_weight p"] by (simp_all add: st)
  show ?case
  proof (cases "find_index (\<lambda>k. k = kp_key p) ks")
    case None
    then have "kp_key p \<notin> set ks" by (auto simp: find_index_None)
    then show ?thesis using None Cons.IH [of "(n, ck)"] Cons.prems by (simp add: st)
  next
    case (Some i)
    then have "kp_key p \<in> set ks" using find_index_None [of "\<lambda>k. k = kp_key p" ks] by auto
    then show ?thesis
      using Cons.IH [of "(n + uint (kp_weight p), ck\<lparr>ck_used := (ck_used ck)[i := True]\<rparr>)"] le Some
      by (simp add: st add_weight_def add.assoc)
  qed
qed (auto simp: prod_eq_iff)

lemma get_authority_member: "get_authority_object w a = Inr (i, obj) \<Longrightarrow> (i, obj) \<in> set (gi_indices (w_authorities w))"
  by (auto simp: get_authority_object_def find_authority_object_def table_find_def bindE_Inr
      split: if_splits option.splits dest: find_SomeD)

lemma checks_complete:
  "grants_within w (set ks) (3 - d) a \<Longrightarrow> small_authorities w \<Longrightarrow> \<exists>ck'. check_with_depth w ks d a ck = Inr ck'"
  "\<forall>p \<in> set ps. grants_within w (set ks) (3 - d) (ap_auth p) \<Longrightarrow> small_authorities w \<Longrightarrow> fst st + 65535 * int (length ps) < 2 ^ 31 \<Longrightarrow>
   \<exists>ck'. check_accounts w ks d ps st = Inr (fst st + (\<Sum>p \<leftarrow> ps. uint (ap_weight p)), ck')"
proof (induction w ks d a ck and w ks d ps st rule: check_with_depth_check_accounts.induct)
  case (1 w ks d a ck)
  have d: "d < 3" "3 - d = Suc (3 - (d + 1))" using 1(2) by (cases "d < 3"; simp)+
  obtain i obj where o: "get_authority_object w a = Inr (i, obj)"
    and acc: "\<forall>p \<in> set (au_accounts (ao_auth obj)). grants_within w (set ks) (3 - (d + 1)) (ap_auth p)"
    and t: "sint (au_threshold (ao_auth obj)) \<le> weight_of (set ks) (ao_auth obj)"
    using 1(2) unfolding d(2) by (auto simp: list_all_iff split: sum.splits)
  have len: "int (length (au_keys (ao_auth obj))) + int (length (au_accounts (ao_auth obj))) \<le> 2 ^ 15"
    using get_authority_member [OF o] 1(3) unfolding small_authorities_def by (fastforce simp flip: of_nat_add)
  obtain ck1 where k: "check_keys ks (au_keys (ao_auth obj)) (0, ck) =
      Inr (\<Sum>p \<leftarrow> filter (\<lambda>p. kp_key p \<in> set ks) (au_keys (ao_auth obj)). uint (kp_weight p), ck1)" (is "_ = Inr (?n, ck1)")
    using check_keys_complete [of "(0, ck)" "au_keys (ao_auth obj)" ks] len by auto
  have "?n + 65535 * int (length (au_accounts (ao_auth obj))) < 2 ^ 31"
    using len filter_weight_bound [of kp_weight "\<lambda>p. kp_key p \<in> set ks" "au_keys (ao_auth obj)"] by simp
  then obtain ck2 where "check_accounts w ks (d + 1) (au_accounts (ao_auth obj)) (?n, ck1) = Inr (weight_of (set ks) (ao_auth obj), ck2)"
    using 1(1) [of "(i, obj)" i obj "(?n, ck1)"] d o k acc 1(3) by (auto simp: weight_of_def)
  then show ?case using d o k t by (subst check_with_depth.simps) (simp add: assertE_def)
next
  case (2 w ks d st)
  then show ?case by (cases st) simp
next
  case (3 w ks d p ps st)
  let ?a = "ap_auth p"
  let ?r = "if auth_key ?a \<in> set (ck_cache (snd st)) then Inr (snd st)
    else bindE (check_with_depth w ks d ?a (snd st)) (\<lambda>ck. Inr (ck\<lparr>ck_cache := auth_key ?a # ck_cache ck\<rparr>))"
  have "\<exists>ck1. ?r = Inr ck1" using 3(1) 3(3,4) by (auto simp: bindE_Inr)
  then obtain ck1 where r: "?r = Inr ck1" by blast
  have n: "fst st + uint (ap_weight p) < 2 ^ 31" "fst st + uint (ap_weight p) + 65535 * int (length ps) < 2 ^ 31"
    using 3(5) weight_bound [of "ap_weight p"] by simp_all
  then have aw: "add_weight (fst st) (ap_weight p) = Inr (fst st + uint (ap_weight p))" by (simp add: add_weight_def)
  from 3(2) [OF r aw] 3(3,4) n obtain ck2 where
    "check_accounts w ks d ps (fst st + uint (ap_weight p), ck1) = Inr (fst st + uint (ap_weight p) + (\<Sum>p \<leftarrow> ps. uint (ap_weight p)), ck2)"
    by auto
  then show ?case using r aw by (simp add: add.assoc)
qed

section \<open>The authorities that are checked\<close>

lemma parent_loop_returns:
  assumes "parents_older w"
  shows "\<exists>b. parent_loop (w_authorities w) editor i = Some b"
proof (induction "nat i" arbitrary: i rule: less_induct)
  case less
  show ?case
  proof (cases "map_of (gi_indices (w_authorities w)) i")
    case None
    then show ?thesis by (subst parent_loop.simps) auto
  next
    case (Some a)
    then have "0 \<le> ao_parent a \<and> (ao_parent a = 0 \<or> ao_parent a < i)"
      using assms by (auto simp: rooted_def dest: map_of_SomeD)
    then show ?thesis using Some less [of "ao_parent a"] by (subst parent_loop.simps) auto
  qed
qed

lemma set_add_satisfy [simp]: "set (add_satisfy a s) = insert a (set s)"
  by (auto simp: add_satisfy_def set_insort_key)

lemma check_declared_result:
  assumes "parents_older w"
  shows "\<exists>r. check_declared w special m as s = Some r \<and> (\<forall>s'. r = Inr s' \<longrightarrow> set s' = set s \<union> set as)"
proof (induction as arbitrary: s)
  case (Cons a as)
  have "parent_permission_valid w origin sub \<noteq> None" for origin sub
    using parent_loop_returns [OF assms] by (auto simp: parent_permission_valid_def)
  then show ?case using Cons [of "add_satisfy a s"]
    by (auto simp: Let_def simp del: not_None_eq split: option.splits sum.splits prod.splits)
qed simp

lemma collect_result:
  assumes "parents_older w"
  shows "\<exists>r. collect_satisfys e w ms s = Some r \<and> (\<forall>s'. r = Inr s' \<longrightarrow> set s' = set s \<union> (\<Union>m \<in> set ms. set (msg_authorization m)))"
proof (induction ms arbitrary: s)
  case (Cons m ms)
  show ?case
  proof (cases "check_special e w m")
    case (Inr special)
    obtain r where r: "check_declared w special m (msg_authorization m) s = Some r"
      "\<And>s'. r = Inr s' \<Longrightarrow> set s' = set s \<union> set (msg_authorization m)"
      using check_declared_result [OF assms] by blast
    show ?thesis
    proof (cases r)
      case (Inr s1)
      then show ?thesis using Cons [of s1] r \<open>check_special e w m = Inr special\<close> by auto
    qed (use Inr r in simp)
  qed simp
qed simp

lemma check_satisfys_sound:
  "check_satisfys w ks s ck = Inr ck' \<Longrightarrow> cache_ok w ks ck \<Longrightarrow> \<forall>a \<in> set s. grants w (set ks) a"
  by (induction s arbitrary: ck) (auto simp: bindE_Inr dest!: checks_sound(1))

lemma check_satisfys_complete:
  "\<forall>a \<in> set s. grants_within w (set ks) 3 a \<Longrightarrow> small_authorities w \<Longrightarrow> \<exists>ck'. check_satisfys w ks s ck = Inr ck'"
proof (induction s arbitrary: ck)
  case (Cons a s)
  obtain ck1 where "check_with_depth w ks 0 a ck = Inr ck1" using checks_complete(1) [of w ks 0 a ck] Cons.prems by auto
  moreover obtain x where "get_authority_object w a = Inr x"
    using Cons.prems(1) by (auto simp: numeral_3_eq_3 split: sum.splits)
  ultimately show ?case using Cons.IH [of ck1] Cons.prems by simp
qed simp

text \<open>The checker reads the table of authorities only.\<close>

lemma get_authority_cong: "w_authorities w' = w_authorities w \<Longrightarrow> get_authority_object w' = get_authority_object w"
  by (simp add: get_authority_object_def find_authority_object_def fun_eq_iff)

lemma checks_cong:
  "w_authorities w' = w_authorities w \<Longrightarrow> check_with_depth w' ks d a ck = check_with_depth w ks d a ck"
  "w_authorities w' = w_authorities w \<Longrightarrow> check_accounts w' ks d ps st = check_accounts w ks d ps st"
proof (induction w ks d a ck and w ks d ps st rule: check_with_depth_check_accounts.induct)
  case (1 w ks d a ck)
  have "check_accounts w' ks (d + 1) (au_accounts (ao_auth obj)) st = check_accounts w ks (d + 1) (au_accounts (ao_auth obj)) st"
    if "d < 3" "get_authority_object w a = Inr (i, obj)" "check_keys ks (au_keys (ao_auth obj)) (0, ck) = Inr st" for i obj st
    using 1(1) [of "(i, obj)" i obj st] that 1(2) by simp
  then show ?case unfolding check_with_depth.simps [of w'] check_with_depth.simps [of w] get_authority_cong [OF 1(2)]
    by (auto simp: bindE_def split: sum.splits prod.splits)
next
  case (3 w ks d p ps st)
  have "check_with_depth w' ks d (ap_auth p) (snd st) = check_with_depth w ks d (ap_auth p) (snd st)"
    if "auth_key (ap_auth p) \<notin> set (ck_cache (snd st))"
    using 3(1) that 3(3) by simp
  then show ?case using 3(2) 3(3) by (auto intro!: bindE_cong)
qed simp

lemma check_satisfys_cong:
  assumes "w_authorities w' = w_authorities w"
  shows "check_satisfys w' ks s ck = check_satisfys w ks s ck"
  by (induction s arbitrary: ck) (simp_all add: checks_cong(1) [OF assms] get_authority_cong [OF assms] cong: bindE_cong)

lemma collect_contracts:
  "\<forall>m \<in> set ms. msg_code m \<noteq> xmax_contract_name \<Longrightarrow>
   collect_satisfys e w ms s = Some (Inr (foldl (\<lambda>s a. add_satisfy a s) s (concat (map msg_authorization ms))))"
proof (induction ms arbitrary: s)
  case (Cons m ms)
  have "check_declared w True m as s = Some (Inr (foldl (\<lambda>s a. add_satisfy a s) s as))" for as
    by (induction as arbitrary: s) simp_all
  then show ?case using Cons by (simp add: check_special_def Let_def)
qed simp

text \<open>The handlers that create or change authorities keep the parents older.\<close>

lemma rootedI:
  assumes inv: "table_inv ao_key g" "table_inv ao_key g'" and r: "rooted g" and n: "gi_next_id g \<le> gi_next_id g'"
    and look: "\<And>k'. table_find ao_key k' g' = (if k' = k then Some (j, b) else table_find ao_key k' g)"
    and b: "0 \<le> j" "0 \<le> ao_parent b" "ao_parent b = 0 \<or> ao_parent b < j"
  shows "rooted g'"
  using r n b unfolding rooted_def
  by (auto simp: table_member [OF inv(1)] table_member [OF inv(2)] look split: if_splits)

lemma new_authority_rooted:
  assumes "table_inv ao_key g" and "rooted g" and "0 \<le> parent" and "parent = 0 \<or> parent < gi_next_id g"
    and "new_authority acc n parent a t g = Inr g'"
  shows "table_inv ao_key g' \<and> rooted g' \<and> gi_next_id g' = gi_next_id g + 1"
proof -
  let ?b = "\<lparr>ao_owner = acc, ao_name = n, ao_parent = parent, ao_auth = a, ao_updated = t\<rparr>"
  have "table_inv ao_key g' \<and> gi_next_id g' = gi_next_id g + 1 \<and>
      (\<forall>k'. table_find ao_key k' g' = (if k' = (acc, n) then Some (gi_next_id g, ?b) else table_find ao_key k' g))"
    by (rule authorities.createE [OF assms(1) assms(5) [unfolded new_authority_def]]) (simp add: ao_key_def)
  then have new: "table_inv ao_key g'" "gi_next_id g' = gi_next_id g + 1"
    "\<And>k'. table_find ao_key k' g' = (if k' = (acc, n) then Some (gi_next_id g, ?b) else table_find ao_key k' g)"
    by blast+
  have "rooted g'" by (rule rootedI [OF assms(1) new(1) assms(2) _ new(3)]) (use new(2) assms(2-4) in \<open>auto simp: rooted_def\<close>)
  then show ?thesis using new by blast
qed

lemma authorized_same: "require_authorization a c = Inr c1 \<Longrightarrow> mc_world c1 = mc_world c \<and> mc_time c1 = mc_time c"
  by (auto simp: require_authorization_def split: option.splits)

lemma addaccount_rooted:
  assumes "table_inv ao_key (w_authorities (mc_world c))" and "rooted (w_authorities (mc_world c))"
    and "xmax_system_addaccount m c = Inr c'"
  shows "rooted (w_authorities (mc_world c'))"
proof -
  let ?g = "w_authorities (mc_world c)"
  obtain g1 g2 where g1: "new_authority (aa_name m) xmax_owner_name 0 (aa_owner m) (mc_time c) ?g = Inr g1"
    and g2: "new_authority (aa_name m) xmax_active_name (gi_next_id ?g) (aa_active m) (mc_time c) g1 = Inr g2"
    and c': "w_authorities (mc_world c') = g2"
    using assms(3) by (auto simp: xmax_system_addaccount_def bindE_Inr Let_def split: if_splits dest!: authorized_same)
  have n: "0 \<le> gi_next_id ?g" using assms(2) by (simp add: rooted_def)
  have "table_inv ao_key g1 \<and> rooted g1 \<and> gi_next_id g1 = gi_next_id ?g + 1" using new_authority_rooted [OF assms(1,2) _ _ g1] by simp
  then show ?thesis using new_authority_rooted [OF _ _ _ _ g2] n by (simp add: c')
qed

lemma updateauth_rooted:
  assumes inv: "table_inv ao_key (w_authorities (mc_world c))" and r: "rooted (w_authorities (mc_world c))"
    and run: "xmax_system_updateauth m c = Inr c'"
  shows "rooted (w_authorities (mc_world c'))"
proof -
  let ?g = "w_authorities (mc_world c)"
  obtain c1 old parent g where c1: "require_authorization (ua_account m) c = Inr c1"
    and par: "parent = 0 \<or> (\<exists>a. get_authority_object (mc_world c1) \<lparr>auth_account = ua_account m, auth_authority = ua_parent m\<rparr> = Inr (parent, a))"
    and old: "old = table_find ao_key (ua_account m, ua_permission m) (w_authorities (mc_world c1))"
    and g: "(case old of Some (i, a) \<Rightarrow> if parent \<noteq> ao_parent a then Inl MessageValidate
        else modify_authority_object i (ua_authority m) (mc_time c1) (w_authorities (mc_world c1))
      | None \<Rightarrow> new_authority (ua_account m) (ua_permission m) parent (ua_authority m) (mc_time c1) (w_authorities (mc_world c1))) = Inr g"
    and c': "c' = set_authorities g c1"
    using run by (auto simp: xmax_system_updateauth_def Let_def bindE_Inr find_authority_object_def auth_key_def split: if_splits) blast+
  have same: "mc_world c1 = mc_world c" "mc_time c1 = mc_time c" using authorized_same [OF c1] by simp_all
  note g = g [unfolded same] and old = old [unfolded same]
  have c': "w_authorities (mc_world c') = g" by (simp add: c' set_authorities_def)
  have par: "parent = 0 \<or> (\<exists>a. (parent, a) \<in> set (gi_indices ?g))" using par unfolding same by (blast dest: get_authority_member)
  have p: "0 \<le> parent" "parent = 0 \<or> parent < gi_next_id ?g"
    using par r table_member_less [OF inv] by (auto simp: rooted_def)
  show ?thesis
  proof (cases old)
    case None
    then show ?thesis using new_authority_rooted [OF inv r p] g c' by simp
  next
    case (Some x)
    obtain i a where x: "x = (i, a)" by (cases x)
    let ?f = "\<lambda>a. a\<lparr>ao_auth := assign_authoritys (ua_authority m) (ao_auth a), ao_updated := mc_time c\<rparr>"
    have o: "table_find ao_key (ua_account m, ua_permission m) ?g = Some (i, a)" using old Some x by simp
    have "ao_key (?f a) = (ua_account m, ua_permission m)" using authorities.look_key [OF inv o] by (simp add: ao_key_def)
    then have up: "table_inv ao_key g" "gi_next_id g = gi_next_id ?g"
      "\<And>k'. table_find ao_key k' g = (if k' = (ua_account m, ua_permission m) then Some (i, ?f a) else table_find ao_key k' ?g)"
      using authorities.update_ok [OF inv o, of "\<lambda>a. Inr (?f a)" "?f a"] g Some x by (auto simp: modify_authority_object_def split: if_splits)
    have "(i, a) \<in> set (gi_indices ?g)" using o authorities.look_key [OF inv o] by (simp add: table_member [OF inv])
    then show ?thesis unfolding c' by (intro rootedI [OF inv up(1) r _ up(3)]) (use r up(2) in \<open>auto simp: rooted_def\<close>)
  qed
qed

section \<open>Concrete authorities\<close>

text \<open>The authorities of an account 1 with one key, and one of an account 2 that needs a key of its own and the account 1.\<close>

definition auth_world :: world where
  "auth_world = ex_world\<lparr>w_authorities := table_of
     [\<lparr>ao_owner = 1, ao_name = xmax_owner_name, ao_parent = 0,
        ao_auth = \<lparr>au_threshold = 1, au_keys = [\<lparr>kp_weight = 1, kp_key = [1]\<rparr>], au_accounts = []\<rparr>, ao_updated = 0\<rparr>,
      \<lparr>ao_owner = 1, ao_name = xmax_active_name, ao_parent = 0,
        ao_auth = \<lparr>au_threshold = 1, au_keys = [\<lparr>kp_weight = 1, kp_key = [1]\<rparr>], au_accounts = []\<rparr>, ao_updated = 0\<rparr>,
      \<lparr>ao_owner = 2, ao_name = xmax_owner_name, ao_parent = 0,
        ao_auth = \<lparr>au_threshold = 3, au_keys = [\<lparr>kp_weight = 1, kp_key = [2]\<rparr>],
          au_accounts = [\<lparr>ap_weight = 2, ap_auth = \<lparr>auth_account = 1, auth_authority = xmax_owner_name\<rparr>\<rparr>]\<rparr>, ao_updated = 0\<rparr>],
     w_accounts := table_of [\<lparr>acc_name = 1, acc_type = acc_personal, acc_creation = 0, acc_contract_code = None\<rparr>]\<rparr>"

definition auth_message :: message where
  "auth_message = \<lparr>msg_code = 9, msg_type = 5, msg_authorization = [\<lparr>auth_account = 2, auth_authority = xmax_owner_name\<rparr>], msg_data = []\<rparr>"

definition new_key_msg :: updateauth_msg where
  "new_key_msg = \<lparr>ua_account = 1, ua_permission = xmax_active_name, ua_parent = xmax_owner_name,
     ua_authority = \<lparr>au_threshold = 1, au_keys = [\<lparr>kp_weight = 1, kp_key = [7]\<rparr>], au_accounts = []\<rparr>\<rparr>"

definition auth_context :: msg_context where
  "auth_context = ex_context\<lparr>mc_world := auth_world\<rparr>"

lemma auth_names:
  "xmax_owner_name \<noteq> xmax_active_name" "xmax_owner_name \<noteq> 0" "xmax_active_name \<noteq> 0" "name_to_string xmax_active_name = Inr ''active''"
  "name_to_string xmax_contract_name = Inr ''xmax''"
proof -
  have o: "to_name_code ''owner'' = Inr xmax_owner_name"
    and a: "to_name_code ''active'' = Inr xmax_active_name" "name_to_string xmax_active_name = Inr ''active''"
    and x: "name_to_string xmax_contract_name = Inr ''xmax''"
    using name_code_string [of "''owner''"] name_code_string [of "''active''"] name_code_string [of "''xmax''"]
    by (auto simp: CODE_MAP_U128_def xmax_owner_name_def xmax_active_name_def xmax_contract_name_def)
  have z: "to_name_code [] = Inr 0" by code_simp
  have "to_name_code ''owner'' \<noteq> to_name_code ''active''" "to_name_code ''owner'' \<noteq> to_name_code []" "to_name_code ''active'' \<noteq> to_name_code []"
    by (subst name_code_inj; simp add: CODE_MAP_U128_def)+
  then show "xmax_owner_name \<noteq> xmax_active_name" "xmax_owner_name \<noteq> 0" "xmax_active_name \<noteq> 0" by (simp_all add: o a(1) z)
  show "name_to_string xmax_active_name = Inr ''active''" "name_to_string xmax_contract_name = Inr ''xmax''" by (rule a(2), rule x)
qed

lemma auth_message_code: "msg_code auth_message \<noteq> xmax_contract_name"
proof
  assume "msg_code auth_message = xmax_contract_name"
  then have "name_to_string 9 = Inr ''xmax''" using auth_names(5) by (simp add: auth_message_def)
  moreover have "name_to_string 9 \<noteq> Inr ''xmax''" by code_simp
  ultimately show False by simp
qed

lemma auth_world_ok: "parents_older auth_world" "small_authorities auth_world" "table_inv ao_key (w_authorities auth_world)"
  by (auto simp: rooted_def small_authorities_def auth_world_def table_of_def table_inv_def ao_key_def auth_names auth_names(1) [symmetric] split: if_splits)

lemma auth_accepted: "check_authorization (ee_native ex_env) auth_world [auth_message] [[1], [2]] = Some (Inr ())"
proof -
  let ?w = auth_world and ?a = "\<lparr>auth_account = 2, auth_authority = xmax_owner_name\<rparr>"
  have "collect_satisfys (ee_native ex_env) ?w [auth_message] [] = Some (Inr [?a])"
    using collect_contracts [of "[auth_message]"] auth_message_code by (simp add: add_satisfy_def auth_message_def)
  moreover have "\<exists>ck. check_satisfys ?w [[1], [2]] [?a] (new_checker [[1], [2]]) = Inr ck"
    by (simp add: new_checker_def check_with_depth.simps get_authority_object_def find_authority_object_def auth_world_def table_of_def
        table_find_def ao_key_def auth_key_def auth_names add_weight_def assertE_def)
  ultimately show ?thesis by (auto simp: check_authorization_def)
qed

section \<open>Properties\<close>



text \<open>
  C29. A link between a contract's function and an authority has no effect. For messages to any account but the system account the
  check gives the same result whatever links there are: it looks them up only for the messages of the system contract.
\<close>

theorem links_have_no_effect:
  assumes "\<forall>m \<in> set ms. msg_code m \<noteq> xmax_contract_name"
  shows "check_authorization e (w\<lparr>w_links := links\<rparr>) ms ks = check_authorization e w ms ks"
  using check_satisfys_cong [of "w\<lparr>w_links := links\<rparr>" w] by (simp add: check_authorization_def collect_contracts [OF assms])

theorem links_have_no_effect_witness:
  "check_authorization (ee_native ex_env)
     (auth_world\<lparr>w_links := table_of [\<lparr>lp_account = 2, lp_code = 9, lp_func = 5, lp_required = xmax_active_name\<rparr>]\<rparr>) [auth_message] [[1], [2]] =
    Some (Inr ())"
  using links_have_no_effect [where w = auth_world and ms = "[auth_message]"] auth_message_code auth_accepted by simp

text \<open>
  C30. Changing an authority does not revoke its keys: \<^verbatim>\<open>updateauth\<close> on an authority that exists adds the new keys and accounts to the
  old ones, so that old keys whose weight reaches the new threshold still grant it.
\<close>

theorem updateauth_keeps_keys:
  assumes inv: "table_inv ao_key (w_authorities (mc_world c))"
    and old: "table_find ao_key (ua_account m, ua_permission m) (w_authorities (mc_world c)) = Some (i, a)"
    and run: "xmax_system_updateauth m c = Inr c'"
  shows "(\<exists>a'. table_find ao_key (ua_account m, ua_permission m) (w_authorities (mc_world c')) = Some (i, a') \<and>
      au_keys (ao_auth a') = au_keys (ao_auth a) @ au_keys (ua_authority m) \<and> ao_parent a' = ao_parent a) \<and>
    (au_accounts (ao_auth a) = [] \<longrightarrow> au_accounts (ua_authority m) = [] \<longrightarrow>
      sint (au_threshold (ua_authority m)) \<le> weight_of K (ao_auth a) \<longrightarrow>
      grants (mc_world c') K \<lparr>auth_account = ua_account m, auth_authority = ua_permission m\<rparr>)"
proof -
  let ?k = "(ua_account m, ua_permission m)" and ?d = "\<lparr>auth_account = ua_account m, auth_authority = ua_permission m\<rparr>"
  let ?a = "a\<lparr>ao_auth := assign_authoritys (ua_authority m) (ao_auth a), ao_updated := mc_time c\<rparr>"
  obtain c1 g where c1: "require_authorization (ua_account m) c = Inr c1" and ne: "ua_account m \<noteq> 0" "ua_permission m \<noteq> 0"
    and g: "modify_authority_object i (ua_authority m) (mc_time c) (w_authorities (mc_world c)) = Inr g" and c': "c' = set_authorities g c1"
    using run old
    by (auto simp: xmax_system_updateauth_def Let_def bindE_Inr find_authority_object_def auth_key_def require_authorization_def
        split: if_splits option.splits)
  have "ao_key ?a = ?k" using authorities.look_key [OF inv old] by (simp add: ao_key_def)
  then have f: "table_find ao_key ?k g = Some (i, ?a)"
    using authorities.update_ok [OF inv old, of "\<lambda>a. Inr (a\<lparr>ao_auth := assign_authoritys (ua_authority m) (ao_auth a), ao_updated := mc_time c\<rparr>)" ?a]
      g by (auto simp: modify_authority_object_def)
  have w: "w_authorities (mc_world c') = g" by (simp add: c' set_authorities_def)
  have "get_authority_object (mc_world c') ?d = Inr (i, ?a)"
    using f ne by (simp add: get_authority_object_def find_authority_object_def auth_key_def w)
  then have "grants (mc_world c') K ?d"
    if "au_accounts (ao_auth a) = []" "au_accounts (ua_authority m) = []" "sint (au_threshold (ua_authority m)) \<le> weight_of K (ao_auth a)"
  proof (rule grants.grant)
    have "0 \<le> (\<Sum>p \<leftarrow> filter (\<lambda>p. kp_key p \<in> K) (au_keys (ua_authority m)). uint (kp_weight p))"
      using filter_weight_bound by blast
    then show "sint (au_threshold (ao_auth ?a)) \<le> weight_of K (ao_auth ?a)"
      using that by (simp add: assign_authoritys_def weight_of_def)
  qed (use that in \<open>simp add: assign_authoritys_def\<close>)
  then show ?thesis using f by (simp add: w assign_authoritys_def)
qed

theorem updateauth_keeps_keys_witness:
  "\<exists>c'. xmax_system_updateauth new_key_msg auth_context = Inr c' \<and>
    grants (mc_world c') {[1]} \<lparr>auth_account = 1, auth_authority = xmax_active_name\<rparr>"
proof -
  obtain c' where run: "xmax_system_updateauth new_key_msg auth_context = Inr c'"
    by (simp add: xmax_system_updateauth_def new_key_msg_def auth_context_def ex_context_def auth_world_def auth_names auth_names(1) [symmetric]
        check_authority_name_def account_assert_def validate_weight_format_def find_authority_object_def get_authority_object_def
        ao_key_def auth_key_def modify_authority_object_def table_eval handler_eval)
  have old: "table_find ao_key (ua_account new_key_msg, ua_permission new_key_msg) (w_authorities (mc_world auth_context)) =
      Some (1, \<lparr>ao_owner = 1, ao_name = xmax_active_name, ao_parent = 0,
        ao_auth = \<lparr>au_threshold = 1, au_keys = [\<lparr>kp_weight = 1, kp_key = [1]\<rparr>], au_accounts = []\<rparr>, ao_updated = 0\<rparr>)"
    by (simp add: new_key_msg_def auth_context_def auth_world_def table_of_def table_find_def ao_key_def auth_names)
  have inv: "table_inv ao_key (w_authorities (mc_world auth_context))" using auth_world_ok(3) by (simp add: auth_context_def)
  from updateauth_keeps_keys [OF inv old run, of "{[1]}"] run show ?thesis by (simp add: new_key_msg_def weight_of_def)
qed

end
