(* ===== verification/Chain_Records.thy ===== *)
theory Chain_Records
  imports Chain_Authority "HOL-Library.Multiset"
begin

text \<open>
  What a message context offers to compiled contracts (\<^verbatim>\<open>message_context_xmax\<close>): the store of records with one 128-bit key, in an index ordered
  by scope, code, table and key, and the messages a contract is preparing.
\<close>

section \<open>Records\<close>

record key_value_object =
  kv_scope :: account_name
  kv_code :: account_name
  kv_table :: account_name
  kv_key :: u128
  kv_value :: bytes

type_synonym rec_tuple = "account_name \<times> account_name \<times> account_name \<times> u128"

definition rec_key :: "key_value_object \<Rightarrow> rec_tuple" where
  "rec_key r = (kv_scope r, kv_code r, kv_table r, kv_key r)"

type_synonym rec_table = "key_value_object generic_index"

text \<open>The index \<^verbatim>\<open>by_scope_primary\<close>, and the positions in it.\<close>

definition rec_rows :: "rec_table \<Rightarrow> key_value_object list" where
  "rec_rows g = sort_key rec_key (map snd (gi_indices g))"

definition size32 :: "bytes \<Rightarrow> int" where
  "size32 v = sint (of_nat (length v) :: 32 word)"

definition check_scope :: "account_name list \<Rightarrow> account_name \<Rightarrow> 'a \<Rightarrow> contract_exc + 'a" where
  "check_scope scopes s x = assertE (s \<in> set scopes) MissingScope x"

definition store_record :: "account_name list \<Rightarrow> rec_tuple \<Rightarrow> bytes \<Rightarrow> rec_table \<Rightarrow> contract_exc + (int \<times> rec_table)" where
  "store_record scopes t v g =
     bindE (check_scope scopes (fst t) g) (\<lambda>g. case table_find rec_key t g of
       Some (i, r) \<Rightarrow> bindE (table_update (same_key rec_key) i (\<lambda>r. Inr (r\<lparr>kv_value := v\<rparr>)) g) (\<lambda>g. Inr (size32 (kv_value r), g))
     | None \<Rightarrow> (case t of (s, c, n, k) \<Rightarrow>
         bindE (table_create (same_key rec_key) (\<lambda>_. \<lparr>kv_scope = s, kv_code = c, kv_table = n, kv_key = k, kv_value = v\<rparr>) g)
           (\<lambda>g. Inr (- 1, g))))"

text \<open>An update writes over the beginning of the value and keeps what is beyond.\<close>

definition update_record :: "account_name list \<Rightarrow> rec_tuple \<Rightarrow> bytes \<Rightarrow> rec_table \<Rightarrow> contract_exc + (int \<times> rec_table)" where
  "update_record scopes t v g =
     bindE (check_scope scopes (fst t) g) (\<lambda>g. case table_find rec_key t g of None \<Rightarrow> Inr (- 1, g)
     | Some (i, r) \<Rightarrow>
       bindE (table_update (same_key rec_key) i (\<lambda>r. Inr (r\<lparr>kv_value := v @ drop (length v) (kv_value r)\<rparr>)) g)
         (\<lambda>g. Inr (size32 (kv_value r), g)))"

definition remove_record :: "account_name list \<Rightarrow> rec_tuple \<Rightarrow> rec_table \<Rightarrow> contract_exc + (int \<times> rec_table)" where
  "remove_record scopes t g =
     bindE (check_scope scopes (fst t) g) (\<lambda>g. case table_find rec_key t g of None \<Rightarrow> Inr (- 1, g)
     | Some (i, r) \<Rightarrow> bindE (table_remove i g) (\<lambda>g. Inr (size32 (kv_value r), g)))"

text \<open>
  What a reader leaves in the contract's memory: \<open>None\<close> for the result -1; otherwise the key and as many bytes of the value as there is
  room for, whose number is the result.
\<close>

type_synonym rec_read = "contract_exc + (u128 \<times> bytes) option"

definition in_table :: "rec_tuple \<Rightarrow> key_value_object \<Rightarrow> bool" where
  "in_table t r \<longleftrightarrow> kv_scope r = fst t \<and> kv_code r = fst (snd t) \<and> kv_table r = fst (snd (snd t))"

definition read_at :: "rec_tuple \<Rightarrow> nat \<Rightarrow> key_value_object list \<Rightarrow> (u128 \<times> bytes) option" where
  "read_at t len rs = (case rs of [] \<Rightarrow> None | r # _ \<Rightarrow> if in_table t r then Some (kv_key r, take len (kv_value r)) else None)"

definition load_record :: "account_name list \<Rightarrow> rec_tuple \<Rightarrow> nat \<Rightarrow> rec_table \<Rightarrow> rec_read" where
  "load_record scopes t len g =
     check_scope scopes (fst t) (case dropWhile (\<lambda>r. rec_key r < t) (rec_rows g) of [] \<Rightarrow> None
       | r # rs \<Rightarrow> if kv_key r = snd (snd (snd t)) then read_at t len (r # rs) else None)"

definition lower_bound_record :: "account_name list \<Rightarrow> rec_tuple \<Rightarrow> nat \<Rightarrow> rec_table \<Rightarrow> rec_read" where
  "lower_bound_record scopes t len g = check_scope scopes (fst t) (read_at t len (dropWhile (\<lambda>r. rec_key r < t) (rec_rows g)))"

definition upper_bound_record :: "account_name list \<Rightarrow> rec_tuple \<Rightarrow> nat \<Rightarrow> rec_table \<Rightarrow> rec_read" where
  "upper_bound_record scopes t len g = check_scope scopes (fst t) (read_at t len (dropWhile (\<lambda>r. rec_key r \<le> t) (rec_rows g)))"

definition front_record :: "account_name list \<Rightarrow> rec_tuple \<Rightarrow> nat \<Rightarrow> rec_table \<Rightarrow> rec_read" where
  "front_record scopes t len g = lower_bound_record scopes (fst t, fst (snd t), fst (snd (snd t)), 0) len g"

text \<open>
  The bound after the table is made with \<^verbatim>\<open>uint64_t(table) + 1\<close>. A name converts to a built-in integer only through \<^verbatim>\<open>bool\<close>, so that
  this is two for every name but the empty one.
\<close>

definition back_bound :: "account_name \<Rightarrow> account_name" where
  "back_bound n = (if n = 0 then 0 else 1) + 1"

definition back_record :: "account_name list \<Rightarrow> rec_tuple \<Rightarrow> nat \<Rightarrow> rec_table \<Rightarrow> rec_read" where
  "back_record scopes t len g =
     check_scope scopes (fst t) (read_at t len (rev (takeWhile
       (\<lambda>r. (kv_scope r, kv_code r, kv_table r) < (fst t, fst (snd t), back_bound (fst (snd (snd t))))) (rec_rows g))))"

definition next_record :: "account_name list \<Rightarrow> rec_tuple \<Rightarrow> nat \<Rightarrow> rec_table \<Rightarrow> rec_read" where
  "next_record scopes t len g =
     check_scope scopes (fst t) (case dropWhile (\<lambda>r. rec_key r \<noteq> t) (rec_rows g) of [] \<Rightarrow> None | _ # rs \<Rightarrow> read_at t len rs)"

definition previous_record :: "account_name list \<Rightarrow> rec_tuple \<Rightarrow> nat \<Rightarrow> rec_table \<Rightarrow> rec_read" where
  "previous_record scopes t len g =
     check_scope scopes (fst t) (case dropWhile (\<lambda>r. rec_key r \<noteq> t) (rec_rows g) of [] \<Rightarrow> None
       | _ \<Rightarrow> read_at t len (rev (takeWhile (\<lambda>r. rec_key r \<noteq> t) (rec_rows g))))"

section \<open>Messages in preparation\<close>

record pending_message =
  pm_handle :: u32
  pm_message :: message

record pending_messages =
  pd_next :: u32
  pd_messages :: "pending_message list"

definition get_pending_message :: "u32 \<Rightarrow> pending_messages \<Rightarrow> contract_exc + pending_message" where
  "get_pending_message h p = (case List.find (\<lambda>m. pm_handle m = h) (pd_messages p) of None \<Rightarrow> Inl TrxExc | Some m \<Rightarrow> Inr m)"

definition create_pending_message :: "account_name \<Rightarrow> func_name \<Rightarrow> bytes \<Rightarrow> pending_messages \<Rightarrow> u32 \<times> pending_messages" where
  "create_pending_message c t d p =
     (pd_next p, \<lparr>pd_next = pd_next p + 1,
       pd_messages = pd_messages p @ [\<lparr>pm_handle = pd_next p, pm_message = \<lparr>msg_code = c, msg_type = t, msg_authorization = [], msg_data = d\<rparr>\<rparr>]\<rparr>)"

text \<open>The two iterators are exchanged, not what they point to: the element removed is the last one.\<close>

definition release_pending_message :: "u32 \<Rightarrow> pending_messages \<Rightarrow> contract_exc + pending_messages" where
  "release_pending_message h p =
     bindE (get_pending_message h p) (\<lambda>_. Inr (p\<lparr>pd_messages := butlast (pd_messages p)\<rparr>))"

section \<open>The store is a map\<close>

definition rec_map :: "rec_table \<Rightarrow> rec_tuple \<rightharpoonup> bytes" where
  "rec_map g t = map_option (kv_value \<circ> snd) (table_find rec_key t g)"

interpretation records: object_table rec_key "table_inv rec_key" "table_find rec_key"
    "table_update (same_key rec_key)" "table_create (same_key rec_key)" gi_next_id
  by (rule table_is_object_table)

lemma rec_key_sel [simp]: "rec_key r = (s, c, n, k) \<longleftrightarrow> kv_scope r = s \<and> kv_code r = c \<and> kv_table r = n \<and> kv_key r = k"
  by (auto simp: rec_key_def)

lemma rows_sorted: "sorted (map rec_key (rec_rows g))"
  by (simp add: rec_rows_def)

lemma set_rows: "set (rec_rows g) = snd ` set (gi_indices g)"
  by (simp add: rec_rows_def)

lemma rows_distinct:
  assumes "table_inv rec_key g"
  shows "distinct (map rec_key (rec_rows g))"
proof -
  have "inj_on (\<lambda>x. rec_key (snd x)) (set (gi_indices g))"
  proof (rule inj_onI)
    fix x y
    assume a: "x \<in> set (gi_indices g)" "y \<in> set (gi_indices g)" "rec_key (snd x) = rec_key (snd y)"
    then have "table_find rec_key (rec_key (snd x)) g = Some (fst x, snd x)"
      using table_member [OF assms, of "fst x" "snd x"] by (simp only: prod.collapse)
    moreover have "table_find rec_key (rec_key (snd y)) g = Some (fst y, snd y)"
      using a table_member [OF assms, of "fst y" "snd y"] by (simp only: prod.collapse)
    ultimately have "Some (fst x, snd x) = Some (fst y, snd y)" unfolding a(3) by (rule trans [OF sym])
    then show "x = y" by simp
  qed
  moreover have "distinct (gi_indices g)" using assms by (simp add: table_inv_def distinct_map)
  ultimately have "distinct (map (\<lambda>x. rec_key (snd x)) (gi_indices g))" by (simp add: distinct_map)
  then have "distinct (map rec_key (map snd (gi_indices g)))" by (simp add: comp_def)
  moreover have "mset (map rec_key (rec_rows g)) = mset (map rec_key (map snd (gi_indices g)))"
    by (simp add: rec_rows_def multiset.map_comp)
  ultimately show ?thesis using mset_eq_imp_distinct_iff by blast
qed

lemma row_found:
  assumes "table_inv rec_key g"
  shows "r \<in> set (rec_rows g) \<longleftrightarrow> (\<exists>i. table_find rec_key (rec_key r) g = Some (i, r))"
proof -
  have "r \<in> set (rec_rows g) \<longleftrightarrow> (\<exists>i. (i, r) \<in> set (gi_indices g))" by (force simp: set_rows)
  then show ?thesis by (simp only: table_member [OF assms])
qed

lemma rec_map_row:
  assumes "table_inv rec_key g"
  shows "rec_map g t = Some v \<longleftrightarrow> (\<exists>r \<in> set (rec_rows g). rec_key r = t \<and> kv_value r = v)"
proof
  assume "rec_map g t = Some v"
  then obtain i r where r: "table_find rec_key t g = Some (i, r)" "kv_value r = v" by (auto simp: rec_map_def)
  moreover have "rec_key r = t" by (rule records.look_key [OF assms r(1)])
  ultimately show "\<exists>r \<in> set (rec_rows g). rec_key r = t \<and> kv_value r = v" using row_found [OF assms, of r] by blast
next
  assume "\<exists>r \<in> set (rec_rows g). rec_key r = t \<and> kv_value r = v"
  then obtain r i where "table_find rec_key t g = Some (i, r)" "kv_value r = v" using row_found [OF assms] by blast
  then show "rec_map g t = Some v" by (simp add: rec_map_def)
qed

lemma dropWhile_bound:
  fixes f :: "'a \<Rightarrow> 'b::linorder"
  assumes "sorted (map f xs)"
  shows "set (dropWhile (\<lambda>x. f x < t) xs) = {x \<in> set xs. t \<le> f x}" "sorted (map f (dropWhile (\<lambda>x. f x < t) xs))"
    "set (dropWhile (\<lambda>x. f x \<le> t) xs) = {x \<in> set xs. t < f x}" "sorted (map f (dropWhile (\<lambda>x. f x \<le> t) xs))"
  using assms by (induction xs) auto

lemma load_record_map:
  assumes inv: "table_inv rec_key g" and s: "fst t \<in> set scopes"
  shows "load_record scopes t len g = Inr (map_option (\<lambda>v. (snd (snd (snd t)), take len v)) (rec_map g t))"
proof -
  obtain a c n k where t: "t = (a, c, n, k)" by (cases t)
  let ?rs = "dropWhile (\<lambda>r. rec_key r < t) (rec_rows g)"
  note d = dropWhile_bound(1,2) [OF rows_sorted, of t g]
  show ?thesis
  proof (cases "rec_map g t")
    case None
    have "\<not> (kv_key r = k \<and> in_table t r)" if "r \<in> set ?rs" for r
    proof
      assume "kv_key r = k \<and> in_table t r"
      then have "rec_key r = t" by (simp add: t in_table_def)
      moreover have "r \<in> set (rec_rows g)" using that by (rule set_dropWhileD)
      ultimately show False using None rec_map_row [OF inv, of t "kv_value r"] by auto
    qed
    then have "(case ?rs of [] \<Rightarrow> None | r # rs \<Rightarrow> if kv_key r = snd (snd (snd t)) then read_at t len (r # rs) else None) = None"
      by (auto simp: read_at_def t split: list.split)
    then show ?thesis using None s by (simp add: load_record_def check_scope_def assertE_def)
  next
    case (Some v)
    then obtain r where r: "r \<in> set (rec_rows g)" "rec_key r = t" "kv_value r = v" using rec_map_row [OF inv] by blast
    then have m: "r \<in> set ?rs" using d(1) by simp
    then obtain q qs where q: "?rs = q # qs" by (cases ?rs) auto
    have "q \<in> set ?rs" by (simp add: q)
    then have "t \<le> rec_key q" unfolding d(1) by blast
    moreover have "rec_key q \<le> rec_key r" using d(2) m unfolding q by auto
    ultimately have "rec_key q = t" unfolding r(2) by (rule antisym [rotated])
    moreover have "q \<in> set (rec_rows g)" using \<open>q \<in> set ?rs\<close> by (rule set_dropWhileD)
    ultimately have "rec_map g t = Some (kv_value q)" using rec_map_row [OF inv] by blast
    then show ?thesis using Some s q \<open>rec_key q = t\<close> by (simp add: load_record_def check_scope_def assertE_def read_at_def in_table_def t)
  qed
qed

lemma store_record_map:
  assumes inv: "table_inv rec_key g" and s: "fst t \<in> set scopes"
  shows "\<exists>g'. store_record scopes t v g = Inr (case rec_map g t of None \<Rightarrow> - 1 | Some w \<Rightarrow> size32 w, g') \<and> table_inv rec_key g' \<and>
    rec_map g' = (rec_map g)(t \<mapsto> v)"
proof -
  obtain a c n k where t: "t = (a, c, n, k)" by (cases t)
  let ?r = "\<lparr>kv_scope = a, kv_code = c, kv_table = n, kv_key = k, kv_value = v\<rparr>"
  have key: "rec_key ?r = t" by (simp add: t)
  show ?thesis
  proof (cases "table_find rec_key t g")
    case None
    then obtain g' where g': "table_create (same_key rec_key) (\<lambda>_. ?r) g = Inr g'" "table_inv rec_key g'"
      "\<forall>k'. table_find rec_key k' g' = (if k' = t then Some (gi_next_id g, ?r) else table_find rec_key k' g)"
      using records.create_ok [OF inv, of "\<lambda>_. ?r"] key by auto
    have "store_record scopes t v g = Inr (- 1, g')"
      using None s g'(1) by (simp add: store_record_def check_scope_def assertE_def t)
    moreover have "rec_map g' = (rec_map g)(t \<mapsto> v)" using g'(3) by (auto simp: rec_map_def fun_eq_iff)
    ultimately show ?thesis using None g'(2) by (simp add: rec_map_def)
  next
    case (Some x)
    obtain i r where x: "x = (i, r)" by (cases x)
    then have f: "table_find rec_key t g = Some (i, r)" using Some by simp
    have "rec_key (r\<lparr>kv_value := v\<rparr>) = t" using records.look_key [OF inv f] by (simp add: t)
    then obtain g' where g': "table_update (same_key rec_key) i (\<lambda>r. Inr (r\<lparr>kv_value := v\<rparr>)) g = Inr g'" "table_inv rec_key g'"
      "\<forall>k'. table_find rec_key k' g' = (if k' = t then Some (i, r\<lparr>kv_value := v\<rparr>) else table_find rec_key k' g)"
      using records.update_ok [OF inv f, of "\<lambda>r. Inr (r\<lparr>kv_value := v\<rparr>)" "r\<lparr>kv_value := v\<rparr>"] by auto
    have "store_record scopes t v g = Inr (size32 (kv_value r), g')"
      using f s g'(1) by (simp add: store_record_def check_scope_def assertE_def t)
    moreover have "rec_map g' = (rec_map g)(t \<mapsto> v)" using g'(3) by (auto simp: rec_map_def fun_eq_iff)
    ultimately show ?thesis using f g'(2) by (simp add: rec_map_def)
  qed
qed

lemma dropWhile_key:
  fixes f :: "'a \<Rightarrow> 'b::linorder"
  shows "sorted (map f xs) \<Longrightarrow> distinct (map f xs) \<Longrightarrow> r \<in> set xs \<Longrightarrow>
   \<exists>rs. dropWhile (\<lambda>x. f x \<noteq> f r) xs = r # rs \<and> set rs = {x \<in> set xs. f r < f x} \<and> sorted (map f rs)"
proof (induction xs)
  case (Cons x xs)
  show ?case
  proof (cases "f x = f r")
    case True
    then have "x = r" using Cons.prems(2,3) by (metis image_eqI list.set_map list.simps(9) distinct.simps(2) set_ConsD)
    moreover have "f x < f y" if "y \<in> set xs" for y
      using Cons.prems(1,2) that by (auto simp: order.strict_iff_order)
    ultimately show ?thesis using Cons.prems(1) by auto
  next
    case False
    then have r: "r \<in> set xs" using Cons.prems(3) by auto
    then have "\<not> f r < f x" using Cons.prems(1) by (simp add: not_less)
    then show ?thesis using Cons.IH Cons.prems(1,2) r False by auto
  qed
qed simp

lemma next_record_least:
  assumes inv: "table_inv rec_key g" and s: "a \<in> set scopes" and k: "rec_map g (a, c, n, k) \<noteq> None"
    and K: "K = {k'. k < k' \<and> rec_map g (a, c, n, k') \<noteq> None}"
  shows "next_record scopes (a, c, n, k) len g =
    Inr (if K = {} then None else Some (Min K, take len (the (rec_map g (a, c, n, Min K)))))"
proof -
  let ?t = "(a, c, n, k)"
  obtain r where r: "r \<in> set (rec_rows g)" "rec_key r = ?t" using k rec_map_row [OF inv] by blast
  obtain rs where rs: "dropWhile (\<lambda>x. rec_key x \<noteq> ?t) (rec_rows g) = r # rs" and set: "set rs = {x \<in> set (rec_rows g). ?t < rec_key x}"
    and srt: "sorted (map rec_key rs)"
    using dropWhile_key [OF rows_sorted rows_distinct [OF inv] r(1)] unfolding r(2) by blast
  have nx: "next_record scopes ?t len g = Inr (read_at ?t len rs)"
    using s rs by (simp add: next_record_def check_scope_def assertE_def)
  have above: "\<exists>x \<in> set rs. rec_key x = (a, c, n, k')" if "k' \<in> K" for k'
  proof -
    obtain x where "x \<in> set (rec_rows g)" "rec_key x = (a, c, n, k')" using \<open>k' \<in> K\<close> rec_map_row [OF inv] unfolding K by blast
    moreover have "?t < (a, c, n, k')" using that by (simp add: K)
    ultimately show ?thesis unfolding set by (metis (mono_tags, lifting) mem_Collect_eq)
  qed
  show ?thesis
  proof (cases rs)
    case Nil
    then have "K = {}" using above by auto
    then show ?thesis using nx Nil by (simp add: read_at_def)
  next
    case (Cons q qs)
    have q: "q \<in> set (rec_rows g)" "?t < rec_key q" using set Cons by auto
    have le: "rec_key q \<le> (a, c, n, k')" if k': "k' \<in> K" for k'
    proof -
      obtain x where x: "x \<in> set rs" "rec_key x = (a, c, n, k')" using above [OF k'] by blast
      then have "rec_key q \<le> rec_key x" using srt Cons by auto
      then show ?thesis using x(2) by (simp only:)
    qed
    show ?thesis
    proof (cases "in_table ?t q")
      case True
      then have key: "rec_key q = (a, c, n, kv_key q)" by (simp add: in_table_def)
      then have v: "rec_map g (a, c, n, kv_key q) = Some (kv_value q)" using rec_map_row [OF inv] q(1) by blast
      have "k < kv_key q" using q(2) unfolding key by simp
      then have m: "kv_key q \<in> K" using v by (simp add: K)
      have "Min K = kv_key q"
      proof (rule Min_eqI)
        show "kv_key q \<le> k'" if "k' \<in> K" for k' using le [OF that] unfolding key by simp
      qed (use m in simp_all)
      then show ?thesis using nx m v True Cons by (auto simp: read_at_def)
    next
      case False
      have "K = {}"
      proof (rule ccontr)
        assume "K \<noteq> {}"
        then obtain k' where "rec_key q \<le> (a, c, n, k')" using le by auto
        then have "in_table ?t q" using q(2) by (auto simp: rec_key_def in_table_def)
        then show False using False by simp
      qed
      then show ?thesis using nx False Cons by (simp add: read_at_def)
    qed
  qed
qed

lemma back_record_none:
  assumes "2 \<le> n" and "a \<in> set scopes"
  shows "back_record scopes (a, c, n, k) len g = Inr None"
proof -
  let ?P = "\<lambda>r. (kv_scope r, kv_code r, kv_table r) < (a, c, back_bound n)"
  have "\<not> in_table (a, c, n, k) r" if "r \<in> set (takeWhile ?P (rec_rows g))" for r
  proof
    assume "in_table (a, c, n, k) r"
    moreover have "?P r" using that by (rule set_takeWhileD [THEN conjunct2])
    ultimately have "n < back_bound n" by (simp add: in_table_def)
    moreover have "back_bound n \<le> 2" by (simp add: back_bound_def)
    ultimately show False using assms(1) by simp
  qed
  then have "read_at (a, c, n, k) len (rev (takeWhile ?P (rec_rows g))) = None"
    by (cases "takeWhile ?P (rec_rows g)" rule: rev_cases) (simp_all add: read_at_def)
  then show ?thesis using assms(2) by (simp add: back_record_def check_scope_def assertE_def)
qed

text \<open>Releasing a message removes the one created last, whichever it was asked for.\<close>

lemma release_removes_last:
  assumes "List.find (\<lambda>m. pm_handle m = h) (pd_messages p) = Some m" and "m \<noteq> last (pd_messages p)"
  shows "\<exists>p'. release_pending_message h p = Inr p' \<and> get_pending_message h p' = Inr m"
proof -
  obtain ms l where ms: "pd_messages p = ms @ [l]" using assms(1) by (cases "pd_messages p" rule: rev_cases) auto
  have "List.find P (xs @ [l]) = (case List.find P xs of None \<Rightarrow> List.find P [l] | Some x \<Rightarrow> Some x)" for P and xs :: "pending_message list"
    by (induction xs) auto
  then have "List.find (\<lambda>m. pm_handle m = h) ms = Some m"
    using assms ms by (auto split: option.splits if_splits)
  then show ?thesis using assms(1) ms by (simp add: release_pending_message_def get_pending_message_def)
qed

section \<open>Properties\<close>

text \<open>Three records of one table, stored one after the other.\<close>

definition three_records :: rec_table where
  "three_records = table_of [\<lparr>kv_scope = 1, kv_code = 2, kv_table = 5, kv_key = 9, kv_value = [7]\<rparr>,
     \<lparr>kv_scope = 1, kv_code = 2, kv_table = 5, kv_key = 3, kv_value = [8, 8]\<rparr>,
     \<lparr>kv_scope = 1, kv_code = 2, kv_table = 6, kv_key = 4, kv_value = []\<rparr>]"

lemma three_records_inv: "table_inv rec_key three_records"
  unfolding three_records_def by (rule table_of_inv) (simp add: rec_key_def)

text \<open>
  C31. The record store is a map. In a scope the message may use, storing returns and changes exactly the value of the key, giving the size of
  the old value or -1; loading any key then gives as much of its present value as fits, and -1 for a key that has none.
\<close>

theorem records_are_a_map:
  assumes "table_inv rec_key g" and "fst t \<in> set scopes" and "fst t' \<in> set scopes"
  shows "\<exists>g'. store_record scopes t v g = Inr (case rec_map g t of None \<Rightarrow> - 1 | Some w \<Rightarrow> size32 w, g') \<and> table_inv rec_key g' \<and>
    load_record scopes t' len g' = Inr (map_option (\<lambda>w. (snd (snd (snd t')), take len w)) (((rec_map g)(t \<mapsto> v)) t'))"
  using store_record_map [OF assms(1,2), of v] load_record_map [OF _ assms(3)] by metis

theorem records_are_a_map_witness:
  "\<exists>g'. store_record [1] (1, 2, 5, 3) [4, 5, 6] three_records = Inr (2, g') \<and>
    load_record [1] (1, 2, 5, 3) 2 g' = Inr (Some (3, [4, 5]))"
proof -
  have "rec_map three_records (1, 2, 5, 3) = Some [8, 8]"
    by (simp add: rec_map_def three_records_def table_of_def table_find_def rec_key_def)
  then show ?thesis
    using records_are_a_map [OF three_records_inv, of "(1, 2, 5, 3)" "[1]" "(1, 2, 5, 3)" "[4, 5, 6]" 2] by (auto simp: size32_def)
qed

text \<open>
  C32. Iterating goes through a table in the order of the keys: from a record that exists \<^verbatim>\<open>next_record\<close> gives the record of the
  same scope, code and table with the least greater key, and -1 when there is none.
\<close>

theorem next_record_in_order:
  assumes "table_inv rec_key g" and "a \<in> set scopes" and "rec_map g (a, c, n, k) \<noteq> None"
    and "K = {k'. k < k' \<and> rec_map g (a, c, n, k') \<noteq> None}"
  shows "next_record scopes (a, c, n, k) len g =
    Inr (if K = {} then None else Some (Min K, take len (the (rec_map g (a, c, n, Min K)))))"
  by (rule next_record_least [OF assms])

theorem next_record_in_order_witness:
  "next_record [1] (1, 2, 5, 3) 8 three_records = Inr (Some (9, [7]))"
proof -
  define K where "K = {k'. 3 < k' \<and> rec_map three_records (1, 2, 5, k') \<noteq> None}"
  have m: "rec_map three_records (1, 2, 5, k') = (if k' = 9 then Some [7] else if k' = 3 then Some [8, 8] else None)" for k'
    by (auto simp: rec_map_def three_records_def table_of_def table_find_def rec_key_def)
  have "K = {9}" by (auto simp: K_def m split: if_splits)
  then show ?thesis using next_record_in_order [OF three_records_inv _ _ K_def, of "[1]" 8] by (simp add: m)
qed

text \<open>
  C33. \<^verbatim>\<open>back_record\<close>, which should give the last record of a table, finds none in any table whose name has a code of at least two, as all names of letters have,
  whatever the table holds.
\<close>

theorem back_record_finds_nothing:
  assumes "2 \<le> n" and "a \<in> set scopes"
  shows "back_record scopes (a, c, n, k) len g = Inr None"
  by (rule back_record_none [OF assms])

theorem back_record_finds_nothing_witness:
  "back_record [1] (1, 2, 5, 0) 8 three_records = Inr None \<and> rec_map three_records (1, 2, 5, 9) = Some [7]"
  using back_record_finds_nothing [of 5 1 "[1]" 2 0 8 three_records]
  by (simp add: rec_map_def three_records_def table_of_def table_find_def rec_key_def)

end
