(* ===== verification/Spec2Isabelle.thy ===== *)
theory Spec2Isabelle
  imports Bson_Roundtrip Chain_Control Chain_Records
begin

text \<open>
  The XMax support chain: a delegated-proof-of-stake block chain with native contracts, its object database with
  undo sessions, and the BSON library it keeps in its tree. This development models the parts that hold the
  program's logic, with the file and function names of \<^verbatim>\<open>src/\<close>, and proves what makes them correct, or shows
  where the code does not do what it is meant to.

  \<^bold>\<open>The program.\<close> A node receives or builds blocks. The controller (\<^verbatim>\<open>blockchain/chain/chain_xmax.cpp\<close>) starts
  a block on the head, executes its transactions against the state database, adds the finished pack to the fork
  database, and lets the fork database tell it which blocks became irreversible; those it appends to the block log
  and commits in the state database. A transaction is a list of messages; a message runs a native handler of the
  account it is sent to, then once more for every account notified. When the head of the fork database is
  on another branch, the controller undoes the blocks of the old branch and applies those of the new one.

  \<^bold>\<open>Shared.\<close> \<open>Prelude\<close>: the integer types (\<^typ>\<open>32 word\<close> and the like, with \<open>+\<close> wrapping as in C++), outcomes
  of C code (a value, or the fault that stops it: a read or write outside a buffer, a failed assertion, undefined
  behaviour), byte memory with bounds, little-endian words, generic lemmas. \<open>C_Double\<close>: \<^verbatim>\<open>double\<close> as its bit
  pattern.

  \<^bold>\<open>State database\<close> (\<^verbatim>\<open>foundation/basechain\<close>). \<open>Basechain_Index\<close>: \<^verbatim>\<open>generic_index\<close> with its stack of undo states,
  every operation as the code has it, exceptions included. \<open>Basechain_Undo\<close>: the undo stack refines a stack of
  snapshots; the locale \<open>snapshot_store\<close> is that contract, interpreted for one table and, in
  \<open>Basechain_Database\<close>, for the database of all tables. Undoing a session restores every table after any changes and
  nested sessions; squash and commit keep the snapshots they should; a session that reuses the key of a
  modified object cannot be undone.

  \<^bold>\<open>Blocks\<close>. \<open>Chain_Types\<close>: the data of \<^verbatim>\<open>gentypes.hpp\<close>, \<^verbatim>\<open>block.hpp\<close>, \<^verbatim>\<open>builder_rule.hpp\<close>, the slot
  arithmetic and the Merkle root of \<^verbatim>\<open>chain_utils.cpp\<close>. Hashes and signatures are the record \<open>crypto\<close>, a parameter.
  \<open>Chain_Block\<close>: \<^verbatim>\<open>block_pack\<close>; which ancestor becomes irreversible, that every builder has a slot of a round, and
  that a block never gathers more than one confirmation. \<open>Chain_Name\<close>: names as 128-bit codes and their round trip.
  \<open>Fc_Raw\<close>: the binary format of a block and its round trip. \<open>Chain_Log\<close>: the block log; what was appended is
  read back.

  \<^bold>\<open>Fork database\<close> (\<^verbatim>\<open>forkchain.cpp\<close>). \<open>Ordered_Index\<close>: the non-unique ordered indices of a multi-index
  container. \<open>Chain_Fork\<close>: the operations over a heap of packs. \<open>Chain_Fork_Confirm\<close> and \<open>Chain_Fork_Inv\<close>: the
  invariant, kept by every operation also when it throws; \<open>Chain_Fork_Branch\<close>: confirmation settles exactly the
  ancestors and descendants of a block, the irreversible handler sees each block once and in order, the head is
  the best pack, branches meet at the fork, \<^verbatim>\<open>remove_chain\<close> ends, the file round trip.

  \<^bold>\<open>Controller\<close>. \<open>Chain_Control\<close>: building, validating, applying, pushing and popping blocks, switching forks, the
  irreversible blocks. The execution inside a block is the record \<open>exec\<close> of four functions on the state database.
  A block applied during a switch and popped again leaves the state database as it was, by the
  contract of the database's sessions; a switch to a descendant of the head reads an empty branch.

  \<^bold>\<open>Native contracts and transactions\<close>. \<open>Chain_Objects\<close>: the objects and tables the contracts work on, the
  locale of a table and its interpretations. \<open>Contract_Voting\<close>: the message context and \<^verbatim>\<open>xmax_voting.cpp\<close>;
  \<open>Contract_Token\<close>: the token handlers of \<^verbatim>\<open>xmax_contract.cpp\<close>; \<open>Contract_Votes\<close>, \<open>Contract_Funds\<close> and
  \<open>Contract_System\<close>: over any sequence of messages tokens are conserved, the votes of each builder are the
  stakes that back it, nothing undefined happens; whom the next round elects. \<open>Contract_Erc\<close> and \<open>Contract_Erc20\<close>:
  the token contracts; balances add up to the supply and a transfer refines an abstract one.
  \<open>Chain_Exec\<close>: \<^verbatim>\<open>transaction_context_xmax.cpp\<close> with the table of native handlers; a transfer message runs its
  handler three times, since every notified account has a handler too.
  \<open>Chain_Authority\<close>: \<^verbatim>\<open>authority_utls.cpp\<close> and the handlers that change authorities. The check of a transaction's permissions is
  sound for an inductive notion of what keys grant, and complete for grants within its depth of three; links of
  functions to authorities have no effect, and an update keeps the old keys. \<open>Chain_Records\<close>: the record store of compiled
  contracts is a map that is iterated in the order of the keys, but its last record is never found; the pending messages.

  \<^bold>\<open>BSON\<close> (\<^verbatim>\<open>libraries/mongo-c-driver/src/libbson\<close>). \<open>Bson_Types\<close>, \<open>Bson_Size\<close>, \<open>Bson_String\<close>: types, allocation sizes, the
  growing string. \<open>Bson_Iter\<close> and \<open>Bson_Access\<close>: the iterator; no input bytes make it read outside the
  document. \<open>Bson_Doc\<close> and \<open>Bson_Append\<close>: the document in its two layouts and the append functions; \<open>Bson_Roundtrip\<close>:
  both against one specification, a document as a list of fields (the locale \<open>field_builder\<close>).

  \<^bold>\<open>Loops, bounds and fuel.\<close> Loops over lists are structural. The loops of the fork database that follow
  predecessors have as fuel the number of packs (its square where two branches go down together): a run that
  uses it up has visited a state twice and does not end, and for a database that satisfies the invariant the
  theorems show that it returns. \<open>remove_loop\<close> and \<open>check_fork\<close> are partial functions with \<open>None\<close> for not returning.
  The notification loop of a message has fuel; the theorem on transfers holds for any fuel of at least three, the
  number of rounds it runs. The nesting of inline messages is bounded by the code's own limit. The BSON search by dotted keys recurses
  on the key. Machine integers keep their width where they can wrap.

  \<^bold>\<open>Not modelled.\<close> Signature and hash functions, the random numbers and the clock (parameters). The virtual machines (V8, wasm-jit, binaryen) and the
  record tables with string keys or several keys. The unfinished cash contract. The bookkeeping of builders at the end of a
  block and the genesis state (inside \<open>exec\<close>). The RPC, network and client plugins, logging and program
  options: input and output around the model. Of libbson, JSON and the reader and writer of streams; of fc, everything
  but the binary format of the block types; the rest of the third-party trees.
\<close>

end
